(* ===== verification/Prelude.thy ===== *)
theory Prelude
  imports Main "HOL-Library.Word"
begin

text \<open>
  Shared base of the development: the fault type and the result type of every modelled
  operation, the sequencing combinators that mirror C statements and ASSERTs, the loop
  combinator for `for (e = begin; e != end; e = next)` traversals with its fuel lemma,
  fixed-width signed increments, transition systems with invariants (a locale every
  step relation of the development interprets), and the generic list lemmas that the components share.
\<close>

unbundle bit_operations_syntax

subsection \<open>Hint collections\<close>

named_theorems res_simps \<open>rewrite rules for the result combinators\<close>
named_theorems view_simps \<open>what an operation does to one view of a state\<close>

subsection \<open>Faults and results\<close>

text \<open>
  A modelled C function either returns normally or hits one of these faults.  `Panic` is a
  failed ASSERT of the Pintos kernel, the next five are undefined behaviour of C,
  `Out_of_fuel` means that a loop or recursion has not ended within the fuel given.
\<close>

datatype fault =
    Panic
  | Null_deref
  | Bad_deref
  | Out_of_bounds
  | Signed_overflow
  | Uninitialised
  | Out_of_fuel

type_synonym 'a res = "fault + 'a"

definition bind :: "'a res \<Rightarrow> ('a \<Rightarrow> 'b res) \<Rightarrow> 'b res" where
  "bind m k = (case m of Inl e \<Rightarrow> Inl e | Inr x \<Rightarrow> k x)"

text \<open>`ASSERT (b); k`: the kernel panics when `b` is false.\<close>

definition ASSERT :: "bool \<Rightarrow> 'a res \<Rightarrow> 'a res" where
  "ASSERT b k = (if b then k else Inl Panic)"

definition deref :: "'a option \<Rightarrow> ('a \<Rightarrow> 'b res) \<Rightarrow> 'b res" where
  "deref p k = (case p of None \<Rightarrow> Inl Null_deref | Some x \<Rightarrow> k x)"

lemma bind_Inr [simp, res_simps]: "bind (Inr x) k = k x"
  by (simp add: bind_def)

lemma bind_Inl [simp, res_simps]: "bind (Inl e) k = Inl e"
  by (simp add: bind_def)

lemma bind_assoc: "bind (bind m f) g = bind m (\<lambda>x. bind (f x) g)"
  by (simp add: bind_def split: sum.splits)

lemma bind_eq_Inr: "bind m k = Inr y \<longleftrightarrow> (\<exists>x. m = Inr x \<and> k x = Inr y)"
  by (cases m) simp_all

lemma bind_eq_Inl: "bind m k = Inl e \<longleftrightarrow> m = Inl e \<or> (\<exists>x. m = Inr x \<and> k x = Inl e)"
  by (cases m) simp_all

lemma bind_InrE [elim!]:
  assumes "bind m k = Inr y"
  obtains x where "m = Inr x" and "k x = Inr y"
  using assms by (auto simp: bind_eq_Inr)

lemma ASSERT_True [simp, res_simps]: "ASSERT True k = k"
  by (simp add: ASSERT_def)

lemma ASSERT_False [simp, res_simps]: "ASSERT False k = Inl Panic"
  by (simp add: ASSERT_def)

lemma ASSERT_eq_Inr [simp]: "ASSERT b k = Inr y \<longleftrightarrow> b \<and> k = Inr y"
  by (simp add: ASSERT_def)

lemma bind_ASSERT: "bind (ASSERT b m) k = ASSERT b (bind m k)"
  by (simp add: ASSERT_def)

lemma deref_Some [simp, res_simps]: "deref (Some x) k = k x"
  by (simp add: deref_def)

lemma deref_None [simp, res_simps]: "deref None k = Inl Null_deref"
  by (simp add: deref_def)

text \<open>
  Reasoning about a function that may fail in known ways only: `ok F m Q` says that
  `m` returns a value that satisfies `Q`, or fails with a fault of `F`.  With the empty set it
  is total correctness.
\<close>

definition ok :: "fault set \<Rightarrow> 'a res \<Rightarrow> ('a \<Rightarrow> bool) \<Rightarrow> bool" where
  "ok F m Q \<longleftrightarrow> (case m of Inl e \<Rightarrow> e \<in> F | Inr x \<Rightarrow> Q x)"

lemma ok_Inr [simp]: "ok F (Inr x) Q \<longleftrightarrow> Q x"
  by (simp add: ok_def)

lemma ok_Inl [simp]: "ok F (Inl e) Q \<longleftrightarrow> e \<in> F"
  by (simp add: ok_def)

lemma ok_bind [simp]: "ok F (bind m k) Q \<longleftrightarrow> ok F m (\<lambda>x. ok F (k x) Q)"
  by (cases m) simp_all

lemma ok_ASSERT [simp]: "ok F (ASSERT b m) Q \<longleftrightarrow> (if b then ok F m Q else Panic \<in> F)"
  by (simp add: ASSERT_def)

lemma ok_deref [simp]: "ok F (deref p k) Q \<longleftrightarrow> (case p of None \<Rightarrow> Null_deref \<in> F | Some x \<Rightarrow> ok F (k x) Q)"
  by (simp add: deref_def split: option.splits)

lemma ok_mono: "ok F m Q \<Longrightarrow> (\<And>x. Q x \<Longrightarrow> R x) \<Longrightarrow> ok F m R"
  by (cases m) simp_all

lemma ok_total: "ok {} m Q \<longleftrightarrow> (\<exists>x. m = Inr x \<and> Q x)"
  by (cases m) simp_all

lemma ok_InrD: "ok F m Q \<Longrightarrow> m = Inr x \<Longrightarrow> Q x"
  by simp

subsection \<open>Signed counters\<close>

text \<open>
  `x++` on a signed C integer of `w` bits: undefined at the largest value.
\<close>

definition sinc :: "nat \<Rightarrow> int \<Rightarrow> int res" where
  "sinc w x = (if x + 1 < 2 ^ (w - 1) then Inr (x + 1) else Inl Signed_overflow)"

lemma sinc_Inr: "sinc w x = Inr y \<longleftrightarrow> y = x + 1 \<and> x + 1 < 2 ^ (w - 1)"
  by (auto simp: sinc_def)

subsection \<open>List traversal\<close>

text \<open>
  The loop `for (e = list_begin (l); e != list_end (l); e = list_next (e)) body`: the
  iterator is `None` at `list_end`, `nxt` reads the successor in the state
  the body has left, and `stop` is the extra loop condition some loops have
  (`&& !found`).  One unit of fuel is spent per round.
\<close>

fun for_each ::
  "nat \<Rightarrow> ('s \<Rightarrow> bool) \<Rightarrow> ('s \<Rightarrow> 'e \<Rightarrow> 'e option) \<Rightarrow> ('e \<Rightarrow> 's \<Rightarrow> 's res) \<Rightarrow> 'e option \<Rightarrow> 's \<Rightarrow> 's res"
where
  "for_each n stop nxt body None s = Inr s"
| "for_each 0 stop nxt body (Some e) s = (if stop s then Inr s else Inl Out_of_fuel)"
| "for_each (Suc n) stop nxt body (Some e) s =
     (if stop s then Inr s
      else bind (body e s) (\<lambda>s'. for_each n stop nxt body (nxt s' e) s'))"

lemma for_each_inv:
  assumes "for_each n stop nxt body e s = Inr s'" and "J s"
    and "\<And>e s s'. J s \<Longrightarrow> body e s = Inr s' \<Longrightarrow> J s'"
  shows "J s'"
  using assms
  by (induction n stop nxt body e s rule: for_each.induct) (auto split: if_splits)

text \<open>The same traversal over a fixed list of elements: the specification of the loop.\<close>

fun fold_res :: "('s \<Rightarrow> bool) \<Rightarrow> ('e \<Rightarrow> 's \<Rightarrow> 's res) \<Rightarrow> 'e list \<Rightarrow> 's \<Rightarrow> 's res" where
  "fold_res stop body [] s = Inr s"
| "fold_res stop body (e # es) s =
     (if stop s then Inr s else bind (body e s) (fold_res stop body es))"

definition head_of :: "'e list \<Rightarrow> 'e option" where
  "head_of es = (case es of [] \<Rightarrow> None | e # _ \<Rightarrow> Some e)"

lemma head_of_simps [simp]:
  "head_of [] = None" "head_of (e # es) = Some e"
  by (simp_all add: head_of_def)

text \<open>
  If, as long as `I` holds, every round leaves a state in which the iterator's successor is the next
  element of the list, the loop is the fold over the list, and fuel as long as
  the list is enough.  `I` is indexed by what is left to traverse.
\<close>

lemma for_each_fold:
  assumes step: "\<And>e es s s'. I (e # es) s \<Longrightarrow> \<not> stop s \<Longrightarrow> body e s = Inr s' \<Longrightarrow>
      I es s' \<and> nxt s' e = head_of es"
    and "I es s" and "length es \<le> n"
  shows "for_each n stop nxt body (head_of es) s = fold_res stop body es s"
  using assms(2,3)
proof (induction es arbitrary: s n)
  case Nil
  then show ?case by simp
next
  case (Cons e es)
  then obtain m where n: "n = Suc m" and m: "length es \<le> m"
    by (cases n) auto
  show ?case
  proof (cases "stop s")
    case True
    then show ?thesis by (simp add: n)
  next
    case False
    show ?thesis
    proof (cases "body e s")
      case (Inl f)
      with False show ?thesis by (simp add: n)
    next
      case (Inr s')
      from step [OF Cons.prems(1) False Inr] have "I es s'" and "nxt s' e = head_of es"
        by simp_all
      with Cons.IH [OF _ m] False Inr show ?thesis by (simp add: n)
    qed
  qed
qed

lemma fold_res_inv:
  assumes "fold_res stop body es s = Inr s'" and "J s"
    and "\<And>e s s'. e \<in> set es \<Longrightarrow> J s \<Longrightarrow> body e s = Inr s' \<Longrightarrow> J s'"
  shows "J s'"
  using assms
proof (induction es arbitrary: s)
  case (Cons e es)
  show ?case
  proof (cases "stop s")
    case False
    with Cons.prems(1) obtain t where "body e s = Inr t" and "fold_res stop body es t = Inr s'"
      by auto
    moreover from this(1) Cons.prems(2) Cons.prems(3) [of e s t] have "J t" by simp
    ultimately show ?thesis by (intro Cons.IH) (use Cons.prems(3) in auto)
  qed (use Cons.prems in simp)
qed simp

text \<open>An invariant of a traversal that knows what is left to visit.\<close>

lemma ok_fold:
  assumes "I es s" and "\<And>e es s. I (e # es) s \<Longrightarrow> ok F (body e s) (I es)" and "\<And>s. I [] s \<Longrightarrow> Q s"
  shows "ok F (fold_res (\<lambda>_. False) body es s) Q"
  using assms(1)
proof (induction es arbitrary: s)
  case Nil
  with assms(3) show ?case by simp
next
  case (Cons e es)
  from assms(2) [OF Cons.prems] Cons.IH show ?case by (auto elim: ok_mono)
qed

text \<open>A traversal that fails does so at one of its elements.\<close>

lemma fold_res_Inl:
  assumes "fold_res (\<lambda>_. False) body es s = Inl f"
  obtains ds e fs z where "es = ds @ e # fs" and "fold_res (\<lambda>_. False) body ds s = Inr z" and "body e z = Inl f"
  using assms
proof (induction es arbitrary: s thesis)
  case (Cons e es)
  show ?case
  proof (cases "body e s")
    case (Inl g)
    with Cons.prems show ?thesis by (intro Cons.prems(1) [of "[]" e es s]) simp_all
  next
    case (Inr t)
    with Cons.prems(2) have "fold_res (\<lambda>_. False) body es t = Inl f" by simp
    from Cons.IH [OF _ this] obtain ds d fs z where "es = ds @ d # fs" "fold_res (\<lambda>_. False) body ds t = Inr z" "body d z = Inl f" .
    with Inr show ?thesis by (intro Cons.prems(1) [of "e # ds" d fs z]) simp_all
  qed
qed simp

lemma fold_res_pure:
  assumes "\<And>e s. e \<in> set es \<Longrightarrow> body e s = Inr (f e s)"
  shows "fold_res (\<lambda>_. False) body es s = Inr (fold f es s)"
  using assms by (induction es arbitrary: s) auto

subsection \<open>Transition systems\<close>

text \<open>
  A component with steps: where it starts, how it moves, and what must stay true.  The
  induction over reachable states is done here once; every step relation of the
  development is an interpretation.
\<close>

inductive reach :: "('s \<Rightarrow> bool) \<Rightarrow> ('s \<Rightarrow> 's \<Rightarrow> bool) \<Rightarrow> 's \<Rightarrow> bool"
  for start :: "'s \<Rightarrow> bool" and step :: "'s \<Rightarrow> 's \<Rightarrow> bool"
where
  reach_start: "start s \<Longrightarrow> reach start step s"
| reach_step: "reach start step s \<Longrightarrow> step s t \<Longrightarrow> reach start step t"

lemma reach_run: "step\<^sup>*\<^sup>* s t \<Longrightarrow> reach start step s \<Longrightarrow> reach start step t"
  by (induction rule: rtranclp_induct) (auto intro: reach_step)

lemma reach_steps: "reach start step s \<Longrightarrow> \<exists>s0. start s0 \<and> step\<^sup>*\<^sup>* s0 s"
  by (induction rule: reach.induct) (auto intro: rtranclp.rtrancl_into_rtrancl)

locale transition_system =
  fixes start :: "'s \<Rightarrow> bool"
    and step :: "'s \<Rightarrow> 's \<Rightarrow> bool"
    and inv :: "'s \<Rightarrow> bool"
  assumes start_inv: "start s \<Longrightarrow> inv s"
    and step_inv: "inv s \<Longrightarrow> step s t \<Longrightarrow> inv t"
begin

lemma reach_inv: "reach start step s \<Longrightarrow> inv s"
  by (induction rule: reach.induct) (auto intro: start_inv step_inv)

lemma steps_inv: "step\<^sup>*\<^sup>* s t \<Longrightarrow> inv s \<Longrightarrow> inv t"
  by (induction rule: rtranclp_induct) (auto intro: step_inv)

end

subsection \<open>Signed bytes\<close>

text \<open>`x--` and `x++` on an `int8_t` away from its ends.\<close>

lemma sint_dec: "- 128 < sint (c :: 8 word) \<Longrightarrow> sint (c - 1) = sint c - 1"
  using sint_ge [of c] sint_lt [of c]
  by (simp add: sint_word_ariths signed_take_bit_int_eq_self)

lemma sint_inc: "sint (c :: 8 word) < 127 \<Longrightarrow> sint (c + 1) = sint c + 1"
  using sint_ge [of c] sint_lt [of c]
  by (simp add: sint_word_ariths signed_take_bit_int_eq_self)

subsection \<open>Lists without duplicates\<close>

lemma find_append_case:
  "find p (xs @ ys) = (case find p xs of None \<Rightarrow> find p ys | Some x \<Rightarrow> Some x)"
  by (induction xs) auto

lemma remove1_split:
  "distinct (xs @ e # ys) \<Longrightarrow> remove1 e (xs @ e # ys) = xs @ ys"
  by (simp add: remove1_append)

lemma distinct_split_unique:
  assumes "distinct (xs @ e # ys)" and "xs @ e # ys = us @ e # vs"
  shows "us = xs \<and> vs = ys"
proof -
  from assms have "distinct (us @ e # vs)" by simp
  with assms show ?thesis by (metis append_Cons_eq_iff distinct.simps(2) not_distinct_conv_prefix distinct_append)
qed

text \<open>A total over a list of which one element is replaced.\<close>

lemma sum_list_replace:
  fixes f :: "'a \<Rightarrow> nat"
  shows "i < length xs \<Longrightarrow> sum_list (map f (xs[i := y])) + f (xs ! i) = sum_list (map f xs) + f y"
proof (induction xs arbitrary: i)
  case (Cons x xs)
  then show ?case by (cases i) fastforce+
qed simp

end
