(* ===== verification/Pintos_Lib.thy ===== *)
theory Pintos_Lib
  imports Prelude
begin

text \<open>
  The Pintos services that `thread.c` and `signal.c` call and that are not in
  this repository: the intrusive lists of `lib/kernel/list.h`, the interrupt switch of
  `threads/interrupt.h`, the allocators `palloc` and `malloc`, and the
  context switch of `threads/switch.S`.  They are one record `pintos` of functions
  that every kernel definition takes as an argument; what their headers promise is stated as
  the locales `klist`, `klist_cursor` and `kmachine`.  The theory ends
  with an implementation of the record and its interpretations.
\<close>

subsection \<open>The services\<close>

type_synonym addr = nat

datatype intr_level = INTR_OFF | INTR_ON

text \<open>
  A list is a value of type 'l that holds the addresses of its elements' owners
  (`list_entry` applied to the element).  The iterator `None` is `list_end`.
  The hardware and allocator state is a value of type 'h.  `switch_threads` gets the
  running thread's page and the next thread's page; it gives what the call returns in the
  new thread, and the page the stack pointer is in from then on.
\<close>

record ('l, 'h) pintos =
  list_init :: "'l"
  list_empty :: "'l \<Rightarrow> bool"
  list_begin :: "'l \<Rightarrow> addr option"
  list_next :: "'l \<Rightarrow> addr \<Rightarrow> addr option"
  list_push_back :: "'l \<Rightarrow> addr \<Rightarrow> 'l"
  list_pop_front :: "'l \<Rightarrow> addr \<times> 'l"
  list_remove :: "'l \<Rightarrow> addr \<Rightarrow> 'l"
  intr_get_level :: "'h \<Rightarrow> intr_level"
  intr_set_level :: "intr_level \<Rightarrow> 'h \<Rightarrow> 'h"
  intr_enable :: "'h \<Rightarrow> 'h"
  intr_disable :: "'h \<Rightarrow> intr_level \<times> 'h"
  intr_context :: "'h \<Rightarrow> bool"
  intr_yield_on_return :: "'h \<Rightarrow> 'h"
  palloc_get_page :: "'h \<Rightarrow> addr option \<times> 'h"
  palloc_free_page :: "addr \<Rightarrow> 'h \<Rightarrow> 'h"
  malloc :: "'h \<Rightarrow> addr option \<times> 'h"
  switch_threads :: "addr \<Rightarrow> addr \<Rightarrow> addr \<times> addr"
  PGSIZE :: nat
  sizeof_switch_entry_frame :: nat
  sizeof_switch_threads_frame :: nat

subsection \<open>What list.h promises\<close>

text \<open>
  `items` is the sequence of elements a list holds.  An element may be pushed only if it is
  not yet in the list, popped or removed only if it is there.
\<close>

locale klist =
  fixes P :: "('l, 'h) pintos" and items :: "'l \<Rightarrow> addr list"
  assumes items_init [simp]: "items (list_init P) = []"
    and empty_iff [simp]: "list_empty P l \<longleftrightarrow> items l = []"
    and begin_eq [simp]: "list_begin P l = head_of (items l)"
    and items_push [simp]: "e \<notin> set (items l) \<Longrightarrow> items (list_push_back P l e) = items l @ [e]"
    and pop_front: "items l \<noteq> [] \<Longrightarrow>
      fst (list_pop_front P l) = hd (items l) \<and> items (snd (list_pop_front P l)) = tl (items l)"
    and items_remove [simp]: "e \<in> set (items l) \<Longrightarrow> items (list_remove P l e) = remove1 e (items l)"
    and next_eq: "distinct (items l) \<Longrightarrow> items l = xs @ e # ys \<Longrightarrow> list_next P l e = head_of ys"
begin

lemma pop_Cons:
  assumes "items l = e # es"
  obtains l' where "list_pop_front P l = (e, l')" and "items l' = es"
  using pop_front [of l] assms by (cases "list_pop_front P l") auto

text \<open>A traversal that leaves the list alone is the fold over its elements.\<close>

lemma traverse_frame:
  assumes frame: "\<And>e s s'. body e s = Inr s' \<Longrightarrow> the_list s' = the_list s"
    and "distinct (items (the_list s))" and "length (items (the_list s)) \<le> n"
  shows "for_each n stop (\<lambda>s. list_next P (the_list s)) body (list_begin P (the_list s)) s =
    fold_res stop body (items (the_list s)) s"
proof -
  let ?I = "\<lambda>es s'. the_list s' = the_list s \<and> (\<exists>xs. items (the_list s) = xs @ es)"
  have "for_each n stop (\<lambda>s. list_next P (the_list s)) body (head_of (items (the_list s))) s =
    fold_res stop body (items (the_list s)) s"
  proof (rule for_each_fold [where I = ?I])
    fix e es s1 s2
    assume I: "?I (e # es) s1" and b: "body e s1 = Inr s2"
    then obtain xs where xs: "items (the_list s) = xs @ e # es" by blast
    from frame [OF b] I have "the_list s2 = the_list s" by simp
    moreover have "list_next P (the_list s) e = head_of es"
      using assms(2) xs by (rule next_eq)
    ultimately show "?I es s2 \<and> list_next P (the_list s2) e = head_of es"
      using xs by (auto intro: exI [of _ "xs @ [e]"])
  qed (use assms(3) in auto)
  then show ?thesis by simp
qed

end

text \<open>
  Three loops of the program remove the element under the iterator and then call
  `list_next` on it.  The header calls that undefined; the code relies on the removed
  element still pointing at its former successor, which is what this locale adds.
\<close>

locale klist_cursor = klist P items
  for P :: "('l, 'h) pintos" and items :: "'l \<Rightarrow> addr list" +
  assumes next_removed: "distinct (items l) \<Longrightarrow> e \<in> set (items l) \<Longrightarrow>
      list_next P (list_remove P l e) e = list_next P l e"
begin

text \<open>
  A traversal whose body either leaves the list alone or removes the current element visits the
  elements the list had at the start.
\<close>

lemma traverse_remove:
  assumes body: "\<And>e s s'. e \<in> set (items (the_list s)) \<Longrightarrow> body e s = Inr s' \<Longrightarrow>
      the_list s' = the_list s \<or> the_list s' = list_remove P (the_list s) e"
    and "distinct (items (the_list s))" and "length (items (the_list s)) \<le> n"
  shows "for_each n stop (\<lambda>s. list_next P (the_list s)) body (list_begin P (the_list s)) s =
    fold_res stop body (items (the_list s)) s"
proof -
  let ?I = "\<lambda>es s'. distinct (items (the_list s')) \<and> (\<exists>xs. items (the_list s') = xs @ es)"
  have "for_each n stop (\<lambda>s. list_next P (the_list s)) body (head_of (items (the_list s))) s =
    fold_res stop body (items (the_list s)) s"
  proof (rule for_each_fold [where I = ?I])
    fix e es s1 s2
    assume I: "?I (e # es) s1" and b: "body e s1 = Inr s2"
    then obtain xs where d: "distinct (items (the_list s1))"
      and xs: "items (the_list s1) = xs @ e # es" by blast
    then have e: "e \<in> set (items (the_list s1))" by simp
    have nx: "list_next P (the_list s1) e = head_of es" using d xs by (rule next_eq)
    show "?I es s2 \<and> list_next P (the_list s2) e = head_of es"
    proof (cases "the_list s2 = the_list s1")
      case True
      with d nx xs show ?thesis by (auto intro: exI [of _ "xs @ [e]"])
    next
      case False
      with body [OF e b] have l2: "the_list s2 = list_remove P (the_list s1) e" by simp
      with d e xs have "items (the_list s2) = xs @ es" by (simp add: remove1_split)
      with d xs l2 nx next_removed [OF d e] show ?thesis by auto
    qed
  qed (use assms(2,3) in auto)
  then show ?thesis by simp
qed

end

subsection \<open>What interrupt.h, palloc.h, malloc.h and switch.h promise\<close>

text \<open>
  `used` is the set of pages the page allocator will not hand out, `blocks` the set
  of blocks `malloc` has handed out, `yielding` whether the running interrupt handler
  has asked for a yield on return.
\<close>

locale kmachine =
  fixes P :: "('l, 'h) pintos"
    and used :: "'h \<Rightarrow> addr set" and blocks :: "'h \<Rightarrow> addr set" and yielding :: "'h \<Rightarrow> bool"
  assumes disable_old [simp]: "fst (intr_disable P h) = intr_get_level P h"
    and disable_level [simp]: "intr_get_level P (snd (intr_disable P h)) = INTR_OFF"
    and disable_context [simp]: "intr_context P (snd (intr_disable P h)) = intr_context P h"
    and disable_used [simp]: "used (snd (intr_disable P h)) = used h"
    and disable_blocks [simp]: "blocks (snd (intr_disable P h)) = blocks h"
    and disable_yielding [simp]: "yielding (snd (intr_disable P h)) = yielding h"
    and set_level [simp]: "intr_get_level P (intr_set_level P l h) = l"
    and set_context [simp]: "intr_context P (intr_set_level P l h) = intr_context P h"
    and set_used [simp]: "used (intr_set_level P l h) = used h"
    and set_blocks [simp]: "blocks (intr_set_level P l h) = blocks h"
    and set_yielding [simp]: "yielding (intr_set_level P l h) = yielding h"
    and enable_level [simp]: "intr_get_level P (intr_enable P h) = INTR_ON"
    and enable_context [simp]: "intr_context P (intr_enable P h) = intr_context P h"
    and enable_used [simp]: "used (intr_enable P h) = used h"
    and enable_blocks [simp]: "blocks (intr_enable P h) = blocks h"
    and enable_yielding [simp]: "yielding (intr_enable P h) = yielding h"
    and yield_level [simp]: "intr_get_level P (intr_yield_on_return P h) = intr_get_level P h"
    and yield_context [simp]: "intr_context P (intr_yield_on_return P h) = intr_context P h"
    and yield_used [simp]: "used (intr_yield_on_return P h) = used h"
    and yield_blocks [simp]: "blocks (intr_yield_on_return P h) = blocks h"
    and yield_yielding [simp]: "yielding (intr_yield_on_return P h)"
    and get_page_Some: "palloc_get_page P h = (Some p, h') \<Longrightarrow> p \<notin> used h \<and> used h' = insert p (used h)"
    and get_page_None: "palloc_get_page P h = (None, h') \<Longrightarrow> used h' = used h"
    and get_page_level [simp]: "intr_get_level P (snd (palloc_get_page P h)) = intr_get_level P h"
    and get_page_context [simp]: "intr_context P (snd (palloc_get_page P h)) = intr_context P h"
    and get_page_blocks [simp]: "blocks (snd (palloc_get_page P h)) = blocks h"
    and get_page_yielding [simp]: "yielding (snd (palloc_get_page P h)) = yielding h"
    and free_page_used [simp]: "used (palloc_free_page P p h) = used h - {p}"
    and free_page_level [simp]: "intr_get_level P (palloc_free_page P p h) = intr_get_level P h"
    and free_page_context [simp]: "intr_context P (palloc_free_page P p h) = intr_context P h"
    and free_page_blocks [simp]: "blocks (palloc_free_page P p h) = blocks h"
    and free_page_yielding [simp]: "yielding (palloc_free_page P p h) = yielding h"
    and malloc_Some: "malloc P h = (Some a, h') \<Longrightarrow> a \<notin> blocks h \<and> blocks h' = insert a (blocks h)"
    and malloc_None: "malloc P h = (None, h') \<Longrightarrow> blocks h' = blocks h"
    and malloc_used: "used h \<subseteq> used (snd (malloc P h))"
    and malloc_level [simp]: "intr_get_level P (snd (malloc P h)) = intr_get_level P h"
    and malloc_context [simp]: "intr_context P (snd (malloc P h)) = intr_context P h"
    and malloc_yielding [simp]: "yielding (snd (malloc P h)) = yielding h"
    and switch_threads_eq [simp]: "switch_threads P cur nxt = (cur, nxt)"
    and entry_frame_size [simp]: "sizeof_switch_entry_frame P mod 4 = 0"
    and threads_frame_size [simp]: "sizeof_switch_threads_frame P mod 4 = 0"

locale pintos_kernel =
  klist_cursor P items + kmachine P used blocks yielding
  for P :: "('l, 'h) pintos" and items :: "'l \<Rightarrow> addr list"
    and used :: "'h \<Rightarrow> addr set" and blocks :: "'h \<Rightarrow> addr set" and yielding :: "'h \<Rightarrow> bool"

subsection \<open>An implementation\<close>

text \<open>
  A list is the sequence of its elements and the successor pointers that removed elements keep;
  the machine is the interrupt state, the pool of free pages and the next free block.
\<close>

type_synonym ref_list = "addr list \<times> (addr \<Rightarrow> addr option)"

record ref_hw =
  level :: intr_level
  in_interrupt :: bool
  yield_flag :: bool
  free_pages :: "addr list"
  next_block :: nat

fun after :: "addr \<Rightarrow> addr list \<Rightarrow> addr option" where
  "after e [] = None"
| "after e (x # xs) = (if x = e then head_of xs else after e xs)"

fun ref_next :: "ref_list \<Rightarrow> addr \<Rightarrow> addr option" where
  "ref_next (xs, stale) e = (if e \<in> set xs then after e xs else stale e)"

fun ref_push_back :: "ref_list \<Rightarrow> addr \<Rightarrow> ref_list" where
  "ref_push_back (xs, stale) e = (xs @ [e], stale)"

fun ref_pop_front :: "ref_list \<Rightarrow> addr \<times> ref_list" where
  "ref_pop_front ([], stale) = (0, ([], stale))"
| "ref_pop_front (x # xs, stale) = (x, (xs, stale(x := head_of xs)))"

fun ref_remove :: "ref_list \<Rightarrow> addr \<Rightarrow> ref_list" where
  "ref_remove (xs, stale) e = (remove1 e xs, stale(e := after e xs))"

definition ref_get_page :: "ref_hw \<Rightarrow> addr option \<times> ref_hw" where
  "ref_get_page h = (case free_pages h of
     [] \<Rightarrow> (None, h)
   | p # ps \<Rightarrow> (Some p, h\<lparr>free_pages := removeAll p ps\<rparr>))"

definition ref_pintos :: "(ref_list, ref_hw) pintos" where
  "ref_pintos = \<lparr>
     list_init = ([], \<lambda>_. None),
     list_empty = (\<lambda>l. fst l = []),
     list_begin = (\<lambda>l. head_of (fst l)),
     list_next = ref_next,
     list_push_back = ref_push_back,
     list_pop_front = ref_pop_front,
     list_remove = ref_remove,
     intr_get_level = level,
     intr_set_level = (\<lambda>l h. h\<lparr>level := l\<rparr>),
     intr_enable = (\<lambda>h. h\<lparr>level := INTR_ON\<rparr>),
     intr_disable = (\<lambda>h. (level h, h\<lparr>level := INTR_OFF\<rparr>)),
     intr_context = in_interrupt,
     intr_yield_on_return = (\<lambda>h. h\<lparr>yield_flag := True\<rparr>),
     palloc_get_page = ref_get_page,
     palloc_free_page = (\<lambda>p h. h\<lparr>free_pages := p # free_pages h\<rparr>),
     malloc = (\<lambda>h. (Some (next_block h), h\<lparr>next_block := Suc (next_block h)\<rparr>)),
     switch_threads = (\<lambda>cur nxt. (cur, nxt)),
     PGSIZE = 4096,
     sizeof_switch_entry_frame = 4,
     sizeof_switch_threads_frame = 28\<rparr>"

definition ref_used :: "ref_hw \<Rightarrow> addr set" where
  "ref_used h = - set (free_pages h)"

definition ref_blocks :: "ref_hw \<Rightarrow> addr set" where
  "ref_blocks h = {..<next_block h}"

lemma after_split: "distinct (xs @ e # ys) \<Longrightarrow> after e (xs @ e # ys) = head_of ys"
  by (induction xs) auto

lemma ref_pintos_sel [simp]:
  "list_init ref_pintos = ([], \<lambda>_. None)"
  "list_empty ref_pintos = (\<lambda>l. fst l = [])"
  "list_begin ref_pintos = (\<lambda>l. head_of (fst l))"
  "list_next ref_pintos = ref_next"
  "list_push_back ref_pintos = ref_push_back"
  "list_pop_front ref_pintos = ref_pop_front"
  "list_remove ref_pintos = ref_remove"
  "intr_get_level ref_pintos = level"
  "intr_set_level ref_pintos = (\<lambda>l h. h\<lparr>level := l\<rparr>)"
  "intr_enable ref_pintos = (\<lambda>h. h\<lparr>level := INTR_ON\<rparr>)"
  "intr_disable ref_pintos = (\<lambda>h. (level h, h\<lparr>level := INTR_OFF\<rparr>))"
  "intr_context ref_pintos = in_interrupt"
  "intr_yield_on_return ref_pintos = (\<lambda>h. h\<lparr>yield_flag := True\<rparr>)"
  "palloc_get_page ref_pintos = ref_get_page"
  "palloc_free_page ref_pintos = (\<lambda>p h. h\<lparr>free_pages := p # free_pages h\<rparr>)"
  "malloc ref_pintos = (\<lambda>h. (Some (next_block h), h\<lparr>next_block := Suc (next_block h)\<rparr>))"
  "switch_threads ref_pintos = (\<lambda>cur nxt. (cur, nxt))"
  "PGSIZE ref_pintos = 4096"
  "sizeof_switch_entry_frame ref_pintos = 4"
  "sizeof_switch_threads_frame ref_pintos = 28"
  by (simp_all add: ref_pintos_def)

interpretation ref_klist: klist ref_pintos fst
proof unfold_locales
  fix l :: ref_list
  assume "fst l \<noteq> []"
  then show "fst (list_pop_front ref_pintos l) = hd (fst l) \<and>
      fst (snd (list_pop_front ref_pintos l)) = tl (fst l)"
    by (cases l rule: ref_pop_front.cases) auto
next
  fix l :: ref_list and xs e ys
  assume "distinct (fst l)" and "fst l = xs @ e # ys"
  then show "list_next ref_pintos l e = head_of ys"
    by (cases l) (auto simp: after_split)
next
  fix e and l :: ref_list
  show "fst (list_push_back ref_pintos l e) = fst l @ [e]" by (cases l) simp
next
  fix e and l :: ref_list
  show "fst (list_remove ref_pintos l e) = remove1 e (fst l)" by (cases l) simp
qed simp_all

interpretation ref_cursor: klist_cursor ref_pintos fst
proof unfold_locales
  fix e and l :: ref_list
  assume "distinct (fst l)" and "e \<in> set (fst l)"
  then show "list_next ref_pintos (list_remove ref_pintos l e) e = list_next ref_pintos l e"
    by (cases l) simp
qed

interpretation ref_machine: kmachine ref_pintos ref_used ref_blocks yield_flag
  by unfold_locales
    (auto simp: ref_used_def ref_blocks_def ref_get_page_def split: list.splits)

interpretation ref_kernel: pintos_kernel ref_pintos fst ref_used ref_blocks yield_flag
  by unfold_locales

lemma ref_pintos_kernel: "pintos_kernel ref_pintos fst ref_used ref_blocks yield_flag"
  by unfold_locales

end
