(* ===== verification/Threads_Base.thy ===== *)
theory Threads_Base
  imports Pintos_Lib
begin

text \<open>
  What the two copies of `threads/thread.h` and `threads/thread.c` have in common: the
  life-cycle states, the constants, the frames on a thread's kernel stack, and reading and
  writing a `struct thread` through a pointer.
\<close>

datatype thread_status = THREAD_RUNNING | THREAD_READY | THREAD_BLOCKED | THREAD_DYING

type_synonym tid_t = int

definition TID_ERROR :: tid_t where "TID_ERROR = -1"

definition PRI_MIN :: int where "PRI_MIN = 0"
definition PRI_DEFAULT :: int where "PRI_DEFAULT = 31"
definition PRI_MAX :: int where "PRI_MAX = 63"

definition THREAD_MAGIC :: "32 word" where "THREAD_MAGIC = 0xcd6abf4b"

text \<open>
  What lies on a thread's kernel stack while it does not run, top first.  The first three are
  the frames `thread_create` writes.  The last two stand for a call of
  `thread_yield` (with its local `old_level`) or `thread_block` that is
  suspended inside `schedule ()`.
\<close>

datatype code_addr = switch_entry_code | kernel_thread_code

datatype frame =
    kernel_thread_frame "addr option" "addr option" addr \<comment> \<open>eip, function, aux\<close>
  | switch_entry_frame code_addr \<comment> \<open>eip\<close>
  | switch_threads_frame code_addr nat \<comment> \<open>eip, ebp\<close>
  | in_thread_yield intr_level
  | in_thread_block

definition sizeof_kernel_thread_frame :: nat where
  "sizeof_kernel_thread_frame = 12"

text \<open>A thread whose kernel stack can be resumed: the states a switch may go to.\<close>

fun resumable :: "frame list \<Rightarrow> bool" where
  "resumable (in_thread_yield l # fs) = True"
| "resumable (in_thread_block # fs) = True"
| "resumable (switch_threads_frame switch_entry_code b # switch_entry_frame kernel_thread_code
      # kernel_thread_frame e (Some f) a # fs) = True"
| "resumable _ = False"

text \<open>Memory: an address with no object is freed or was never a `struct thread`.\<close>

definition peek :: "(addr \<Rightarrow> 'a option) \<Rightarrow> addr \<Rightarrow> 'a res" where
  "peek m a = (case m a of None \<Rightarrow> Inl Bad_deref | Some x \<Rightarrow> Inr x)"

lemma peek_Some [simp]: "m a = Some x \<Longrightarrow> peek m a = Inr x"
  by (simp add: peek_def)

lemma peek_None [simp]: "m a = None \<Longrightarrow> peek m a = Inl Bad_deref"
  by (simp add: peek_def)

lemma peek_eq_Inr [simp]: "peek m a = Inr x \<longleftrightarrow> m a = Some x"
  by (auto simp: peek_def split: option.splits)

lemma peek_upd [simp]: "peek (m(a \<mapsto> x)) a = Inr x"
  by simp


lemma ok_peek [simp]: "ok F (peek m a) Q \<longleftrightarrow> (case m a of None \<Rightarrow> Bad_deref \<in> F | Some x \<Rightarrow> Q x)"
  by (simp add: peek_def split: option.splits)

end
