(* ===== verification/Mlfq.thy ===== *)
theory Mlfq
  imports Threads_Base
begin

text \<open>
  The thread system with the two-level feedback queue, `Pintos/Scheduler_changes/thread.h`
  and `thread.c`: its data and its operations, one definition per function, with the
  long `thread_tick` split at its comments.  `P` is the record of Pintos services.
\<close>

subsection \<open>Data\<close>

text \<open>
  `struct thread`.  The list elements are the lists' business; `frames` is the
  content of the thread's kernel stack, on the same page.
\<close>

record thread =
  tid :: tid_t
  status :: thread_status
  name :: string
  stack :: nat
  priority :: int
  count :: "8 word"
  magic :: "32 word"
  frames :: "frame list"

text \<open>What the kernel prints: the clock, the thread and the move.\<close>

datatype event =
    Running_to_L2 int tid_t
  | Running_to_L1 int tid_t
  | L2_to_L1 int tid_t
  | Created int tid_t
  | Blocked_to_L2 int tid_t
  | Blocked_to_L1 int tid_t
  | Finished int tid_t
  | Statistics int int int

text \<open>
  The file's static variables, the memory the threads live in, the page the stack pointer
  is in (`cpu`), the Pintos state and the console.
\<close>

record ('l, 'h) kernel =
  heap :: "addr \<Rightarrow> thread option"
  ready_list :: 'l
  ready_list_low :: 'l
  all_list :: 'l
  idle_thread :: "addr option"
  initial_thread :: "addr option"
  next_tid :: tid_t
  idle_ticks :: int
  kernel_ticks :: int
  user_ticks :: int
  clock_count :: int
  thread_ticks :: "32 word"
  cpu :: addr
  hw :: 'h
  console :: "event list"

definition TIME_SLICE :: "32 word" where "TIME_SLICE = 4"
definition TIME_SLICE_LOW :: "32 word" where "TIME_SLICE_LOW = 8"
definition WAITING_TIME :: int where "WAITING_TIME = 24"

definition printf :: "event \<Rightarrow> ('l, 'h) kernel \<Rightarrow> ('l, 'h) kernel" where
  "printf e s = s\<lparr>console := console s @ [e]\<rparr>"

definition set_thread :: "addr \<Rightarrow> thread \<Rightarrow> ('l, 'h) kernel \<Rightarrow> ('l, 'h) kernel" where
  "set_thread t th s = s\<lparr>heap := (heap s)(t \<mapsto> th)\<rparr>"

definition intr_off :: "('l, 'h) pintos \<Rightarrow> ('l, 'h) kernel \<Rightarrow> ('l, 'h) kernel" where
  "intr_off P s = s\<lparr>hw := snd (intr_disable P (hw s))\<rparr>"

definition intr_restore :: "('l, 'h) pintos \<Rightarrow> intr_level \<Rightarrow> ('l, 'h) kernel \<Rightarrow> ('l, 'h) kernel" where
  "intr_restore P l s = s\<lparr>hw := intr_set_level P l (hw s)\<rparr>"

subsection \<open>The running thread\<close>

definition running_thread :: "('l, 'h) kernel \<Rightarrow> addr" where
  "running_thread s = cpu s"

definition is_thread :: "thread \<Rightarrow> bool" where
  "is_thread th \<longleftrightarrow> magic th = THREAD_MAGIC"

definition thread_current :: "('l, 'h) kernel \<Rightarrow> addr res" where
  "thread_current s =
     (let t = running_thread s in
      bind (peek (heap s) t) (\<lambda>th.
      ASSERT (is_thread th) (
      ASSERT (status th = THREAD_RUNNING) (
      Inr t))))"

definition thread_name :: "('l, 'h) kernel \<Rightarrow> string res" where
  "thread_name s = bind (thread_current s) (\<lambda>t. bind (peek (heap s) t) (\<lambda>th. Inr (name th)))"

definition thread_tid :: "('l, 'h) kernel \<Rightarrow> tid_t res" where
  "thread_tid s = bind (thread_current s) (\<lambda>t. bind (peek (heap s) t) (\<lambda>th. Inr (tid th)))"

definition thread_set_priority :: "int \<Rightarrow> ('l, 'h) kernel \<Rightarrow> ('l, 'h) kernel res" where
  "thread_set_priority p s =
     bind (thread_current s) (\<lambda>t. bind (peek (heap s) t) (\<lambda>th.
     Inr (set_thread t (th\<lparr>priority := p\<rparr>) s)))"

definition thread_get_priority :: "('l, 'h) kernel \<Rightarrow> int res" where
  "thread_get_priority s =
     bind (thread_current s) (\<lambda>t. bind (peek (heap s) t) (\<lambda>th. Inr (priority th)))"

text \<open>Not implemented in the source: the setter does nothing, the getters give 0.\<close>

definition thread_set_nice :: "int \<Rightarrow> ('l, 'h) kernel \<Rightarrow> ('l, 'h) kernel" where
  "thread_set_nice nice s = s"

definition thread_get_nice :: "('l, 'h) kernel \<Rightarrow> int" where
  "thread_get_nice s = 0"

definition thread_get_load_avg :: "('l, 'h) kernel \<Rightarrow> int" where
  "thread_get_load_avg s = 0"

definition thread_get_recent_cpu :: "('l, 'h) kernel \<Rightarrow> int" where
  "thread_get_recent_cpu s = 0"

definition thread_print_stats :: "('l, 'h) kernel \<Rightarrow> ('l, 'h) kernel" where
  "thread_print_stats s = printf (Statistics (idle_ticks s) (kernel_ticks s) (user_ticks s)) s"

subsection \<open>Switching threads\<close>

text \<open>The highest non-empty queue gives its first thread; the idle thread runs when both are empty.\<close>

definition next_thread_to_run ::
  "('l, 'h) pintos \<Rightarrow> ('l, 'h) kernel \<Rightarrow> addr option \<times> ('l, 'h) kernel"
where
  "next_thread_to_run P s =
     (if list_empty P (ready_list s) then
        if list_empty P (ready_list_low s) then (idle_thread s, s)
        else let (t, l) = list_pop_front P (ready_list_low s) in (Some t, s\<lparr>ready_list_low := l\<rparr>)
      else let (t, l) = list_pop_front P (ready_list s) in (Some t, s\<lparr>ready_list := l\<rparr>))"

definition thread_schedule_tail ::
  "('l, 'h) pintos \<Rightarrow> addr option \<Rightarrow> ('l, 'h) kernel \<Rightarrow> ('l, 'h) kernel res"
where
  "thread_schedule_tail P prev s =
     (let cur = running_thread s in
      ASSERT (intr_get_level P (hw s) = INTR_OFF) (
      bind (peek (heap s) cur) (\<lambda>th.
      let s = (set_thread cur (th\<lparr>status := THREAD_RUNNING\<rparr>) s)\<lparr>thread_ticks := 0\<rparr> in
      case prev of
        None \<Rightarrow> Inr s
      | Some p \<Rightarrow>
          bind (peek (heap s) p) (\<lambda>pth.
          if status pth = THREAD_DYING \<and> prev \<noteq> initial_thread s then
            ASSERT (p \<noteq> cur) (
            Inr (s\<lparr>heap := (heap s)(p := None), hw := palloc_free_page P p (hw s)\<rparr>))
          else Inr s))))"

definition schedule :: "('l, 'h) pintos \<Rightarrow> ('l, 'h) kernel \<Rightarrow> ('l, 'h) kernel res" where
  "schedule P s =
     (let cur = running_thread s; (nxt, s) = next_thread_to_run P s in
      ASSERT (intr_get_level P (hw s) = INTR_OFF) (
      bind (peek (heap s) cur) (\<lambda>cth.
      ASSERT (status cth \<noteq> THREAD_RUNNING) (
      case nxt of
        None \<Rightarrow> Inl Panic
      | Some n \<Rightarrow>
          bind (peek (heap s) n) (\<lambda>nth.
          ASSERT (is_thread nth) (
          let s = (if sint (count nth) < 0 then set_thread n (nth\<lparr>count := -1\<rparr>) s else s) in
          if cur \<noteq> n then
            let (prev, page) = switch_threads P cur n in
            thread_schedule_tail P (Some prev) (s\<lparr>cpu := page\<rparr>)
          else thread_schedule_tail P None s))))))"

text \<open>
  The first code of a new thread.  The thread function is the environment's; what it does are
  further operations of the running thread, and its return is `thread_exit`.
\<close>

definition kernel_thread ::
  "('l, 'h) pintos \<Rightarrow> addr option \<Rightarrow> addr \<Rightarrow> ('l, 'h) kernel \<Rightarrow> ('l, 'h) kernel res"
where
  "kernel_thread P function aux s =
     ASSERT (function \<noteq> None) (Inr (s\<lparr>hw := intr_enable P (hw s)\<rparr>))"

text \<open>
  Back from `schedule ()` in the thread now running: the rest of the call its stack says
  it is suspended in.
\<close>

definition resume :: "('l, 'h) pintos \<Rightarrow> ('l, 'h) kernel \<Rightarrow> ('l, 'h) kernel res" where
  "resume P s =
     bind (peek (heap s) (cpu s)) (\<lambda>th.
     case frames th of
       in_thread_yield old_level # fs \<Rightarrow>
         Inr (intr_restore P old_level (set_thread (cpu s) (th\<lparr>frames := fs\<rparr>) s))
     | in_thread_block # fs \<Rightarrow> Inr (set_thread (cpu s) (th\<lparr>frames := fs\<rparr>) s)
     | switch_threads_frame switch_entry_code b # switch_entry_frame kernel_thread_code
         # kernel_thread_frame e f a # fs \<Rightarrow>
         kernel_thread P f a (set_thread (cpu s) (th\<lparr>frames := fs\<rparr>) s)
     | _ \<Rightarrow> Inl Bad_deref)"

subsection \<open>Blocking, waking, yielding, exiting\<close>

definition thread_block :: "('l, 'h) pintos \<Rightarrow> ('l, 'h) kernel \<Rightarrow> ('l, 'h) kernel res" where
  "thread_block P s =
     ASSERT (\<not> intr_context P (hw s)) (
     ASSERT (intr_get_level P (hw s) = INTR_OFF) (
     bind (thread_current s) (\<lambda>t.
     bind (peek (heap s) t) (\<lambda>th.
     bind (schedule P (set_thread t
       (th\<lparr>status := THREAD_BLOCKED, frames := in_thread_block # frames th\<rparr>) s))
     (resume P)))))"

definition thread_unblock ::
  "('l, 'h) pintos \<Rightarrow> addr \<Rightarrow> ('l, 'h) kernel \<Rightarrow> ('l, 'h) kernel res"
where
  "thread_unblock P t s =
     bind (peek (heap s) t) (\<lambda>th.
     ASSERT (is_thread th) (
     let old_level = fst (intr_disable P (hw s)); s = intr_off P s in
     ASSERT (status th = THREAD_BLOCKED) (
     let s = (if sint (count th) < 0
              then s\<lparr>ready_list_low := list_push_back P (ready_list_low s) t\<rparr>
              else s\<lparr>ready_list := list_push_back P (ready_list s) t\<rparr>);
         s = set_thread t (th\<lparr>status := THREAD_READY\<rparr>) s;
         s = intr_restore P old_level s
     in Inr (printf (if sint (count th) < 0 then Blocked_to_L2 (clock_count s) (tid th)
                     else Blocked_to_L1 (clock_count s) (tid th)) s))))"

definition thread_exit :: "('l, 'h) pintos \<Rightarrow> ('l, 'h) kernel \<Rightarrow> ('l, 'h) kernel res" where
  "thread_exit P s =
     ASSERT (\<not> intr_context P (hw s)) (
     bind (thread_current s) (\<lambda>t.
     bind (peek (heap s) t) (\<lambda>th.
     let s = intr_off P (printf (Finished (clock_count s) (tid th)) s);
         s = s\<lparr>all_list := list_remove P (all_list s) t\<rparr>;
         s = set_thread t (th\<lparr>status := THREAD_DYING\<rparr>) s
     in bind (schedule P s) (resume P))))"

definition thread_yield :: "('l, 'h) pintos \<Rightarrow> ('l, 'h) kernel \<Rightarrow> ('l, 'h) kernel res" where
  "thread_yield P s =
     bind (thread_current s) (\<lambda>cur.
     ASSERT (\<not> intr_context P (hw s)) (
     let old_level = fst (intr_disable P (hw s)); s = intr_off P s in
     bind (peek (heap s) cur) (\<lambda>th.
     let s = (if Some cur \<noteq> idle_thread s then
                if 0 \<le> sint (count th) then s\<lparr>ready_list := list_push_back P (ready_list s) cur\<rparr>
                else s\<lparr>ready_list_low := list_push_back P (ready_list_low s) cur\<rparr>
              else s);
         s = set_thread cur
               (th\<lparr>status := THREAD_READY, frames := in_thread_yield old_level # frames th\<rparr>) s
     in bind (schedule P s) (resume P))))"

subsection \<open>The timer tick\<close>

definition count_tick :: "addr \<Rightarrow> ('l, 'h) kernel \<Rightarrow> ('l, 'h) kernel res" where
  "count_tick cur s =
     bind (if Some cur = idle_thread s
           then bind (sinc 64 (idle_ticks s)) (\<lambda>n. Inr (s\<lparr>idle_ticks := n\<rparr>))
           else bind (sinc 64 (kernel_ticks s)) (\<lambda>n. Inr (s\<lparr>kernel_ticks := n\<rparr>))) (\<lambda>s.
     bind (sinc 32 (clock_count s)) (\<lambda>n. Inr (s\<lparr>clock_count := n\<rparr>)))"

text \<open>One round of the loop over queue B.  The code promotes a thread when its count has fallen below -WAITING_TIME; the comment
  above the loop says at -WAITING_TIME.\<close>

definition age_thread :: "('l, 'h) pintos \<Rightarrow> addr \<Rightarrow> ('l, 'h) kernel \<Rightarrow> ('l, 'h) kernel res" where
  "age_thread P t s =
     bind (peek (heap s) t) (\<lambda>th.
     let th = th\<lparr>count := count th - 1\<rparr> in
     if sint (count th) < - WAITING_TIME then
       Inr (printf (L2_to_L1 (clock_count s) (tid th))
         ((set_thread t (th\<lparr>count := 0\<rparr>) s)
           \<lparr>ready_list_low := list_remove P (ready_list_low s) t,
            ready_list := list_push_back P (ready_list s) t\<rparr>))
     else Inr (set_thread t th s))"

definition age_low_queue :: "('l, 'h) pintos \<Rightarrow> nat \<Rightarrow> ('l, 'h) kernel \<Rightarrow> ('l, 'h) kernel res" where
  "age_low_queue P fuel s =
     for_each fuel (\<lambda>_. False) (\<lambda>s. list_next P (ready_list_low s)) (age_thread P)
       (list_begin P (ready_list_low s)) s"

definition preempt :: "('l, 'h) pintos \<Rightarrow> addr \<Rightarrow> ('l, 'h) kernel \<Rightarrow> ('l, 'h) kernel res" where
  "preempt P cur s =
     (let s = s\<lparr>thread_ticks := thread_ticks s + 1\<rparr>;
          yield = (\<lambda>s. s\<lparr>hw := intr_yield_on_return P (hw s)\<rparr>) in
      bind (peek (heap s) cur) (\<lambda>th.
      if sint (count th) < 0 then
        if list_empty P (ready_list s) then
          if TIME_SLICE_LOW \<le> thread_ticks s
          then Inr (yield (printf (Running_to_L2 (clock_count s) (tid th)) s))
          else Inr s
        else Inr (yield (printf (Running_to_L2 (clock_count s) (tid th)) s))
      else if TIME_SLICE \<le> thread_ticks s then
        if 1 \<le> sint (count th)
        then Inr (yield (printf (Running_to_L2 (clock_count s) (tid th))
               (set_thread cur (th\<lparr>count := -1\<rparr>) s)))
        else Inr (yield (printf (Running_to_L1 (clock_count s) (tid th))
               (set_thread cur (th\<lparr>count := count th + 1\<rparr>) s)))
      else Inr s))"

definition thread_tick :: "('l, 'h) pintos \<Rightarrow> nat \<Rightarrow> ('l, 'h) kernel \<Rightarrow> ('l, 'h) kernel res" where
  "thread_tick P fuel s =
     bind (thread_current s) (\<lambda>cur.
     bind (count_tick cur s) (\<lambda>s.
     bind (peek (heap s) cur) (\<lambda>th.
     bind (if 0 \<le> sint (count th) then age_low_queue P fuel s else Inr s)
     (preempt P cur))))"

subsection \<open>Creating threads\<close>

text \<open>The lock makes the critical section of `allocate_tid` one step.\<close>

definition allocate_tid :: "('l, 'h) kernel \<Rightarrow> (tid_t \<times> ('l, 'h) kernel) res" where
  "allocate_tid s = bind (sinc 32 (next_tid s)) (\<lambda>n. Inr (next_tid s, s\<lparr>next_tid := n\<rparr>))"

definition init_thread ::
  "('l, 'h) pintos \<Rightarrow> addr \<Rightarrow> string option \<Rightarrow> int \<Rightarrow> ('l, 'h) kernel \<Rightarrow> ('l, 'h) kernel res"
where
  "init_thread P t nm prio s =
     ASSERT (PRI_MIN \<le> prio \<and> prio \<le> PRI_MAX) (
     case nm of
       None \<Rightarrow> Inl Panic
     | Some nm \<Rightarrow>
         Inr ((set_thread t \<lparr>tid = 0, status = THREAD_BLOCKED, name = take 15 nm, stack = t + PGSIZE P,
                 priority = prio, count = 0, magic = THREAD_MAGIC, frames = []\<rparr> s)
               \<lparr>all_list := list_push_back P (all_list s) t\<rparr>))"

text \<open>Takes `sz` bytes off the stack; the caller then writes the frame `fr` there.\<close>

definition alloc_frame :: "addr \<Rightarrow> nat \<Rightarrow> frame \<Rightarrow> ('l, 'h) kernel \<Rightarrow> ('l, 'h) kernel res" where
  "alloc_frame t sz fr s =
     bind (peek (heap s) t) (\<lambda>th.
     ASSERT (is_thread th) (
     ASSERT (sz mod 4 = 0) (
     Inr (set_thread t (th\<lparr>stack := stack th - sz, frames := fr # frames th\<rparr>) s))))"

definition thread_create ::
  "('l, 'h) pintos \<Rightarrow> string option \<Rightarrow> int \<Rightarrow> addr option \<Rightarrow> addr \<Rightarrow> ('l, 'h) kernel
    \<Rightarrow> (tid_t \<times> ('l, 'h) kernel) res"
where
  "thread_create P nm prio function aux s =
     ASSERT (function \<noteq> None) (
     case palloc_get_page P (hw s) of
       (None, h) \<Rightarrow> Inr (TID_ERROR, s\<lparr>hw := h\<rparr>)
     | (Some t, h) \<Rightarrow>
         bind (init_thread P t nm prio (s\<lparr>hw := h\<rparr>)) (\<lambda>s.
         bind (allocate_tid s) (\<lambda>(new_tid, s).
         bind (peek (heap s) t) (\<lambda>th.
         let s = set_thread t (th\<lparr>tid := new_tid\<rparr>) s;
             old_level = fst (intr_disable P (hw s)); s = intr_off P s in
         bind (alloc_frame t sizeof_kernel_thread_frame (kernel_thread_frame None function aux) s) (\<lambda>s.
         bind (alloc_frame t (sizeof_switch_entry_frame P) (switch_entry_frame kernel_thread_code) s) (\<lambda>s.
         bind (alloc_frame t (sizeof_switch_threads_frame P)
                 (switch_threads_frame switch_entry_code 0) s) (\<lambda>s.
         bind (peek (heap s) t) (\<lambda>th.
         let s = intr_restore P old_level (set_thread t (th\<lparr>count := 0\<rparr>) s);
             s = printf (Created (clock_count s) new_tid) s in
         bind (thread_unblock P t s) (\<lambda>s.
         Inr (new_tid, s))))))))))"

definition thread_init :: "('l, 'h) pintos \<Rightarrow> ('l, 'h) kernel \<Rightarrow> ('l, 'h) kernel res" where
  "thread_init P s =
     ASSERT (intr_get_level P (hw s) = INTR_OFF) (
     let s = s\<lparr>ready_list := list_init P, ready_list_low := list_init P, all_list := list_init P\<rparr>;
         t = running_thread s; s = s\<lparr>initial_thread := Some t\<rparr> in
     bind (init_thread P t (Some ''main'') PRI_DEFAULT s) (\<lambda>s.
     bind (peek (heap s) t) (\<lambda>th.
     let s = set_thread t (th\<lparr>status := THREAD_RUNNING\<rparr>) s in
     bind (allocate_tid s) (\<lambda>(new_tid, s).
     bind (peek (heap s) t) (\<lambda>th.
     Inr (set_thread t (th\<lparr>tid := new_tid\<rparr>) s))))))"

subsection \<open>The idle thread\<close>

text \<open>
  The idle thread's code before its loop, one round of the loop up to the switch, and what
  runs after the switch back.  `sema_up` and `sema_down` are `synch.c`'s, on the
  semaphore `thread_start` and `idle` share.
\<close>

definition idle_begin ::
  "(('l, 'h) kernel \<Rightarrow> ('l, 'h) kernel res) \<Rightarrow> ('l, 'h) kernel \<Rightarrow> ('l, 'h) kernel res"
where
  "idle_begin sema_up s = bind (thread_current s) (\<lambda>t. sema_up (s\<lparr>idle_thread := Some t\<rparr>))"

definition idle_round :: "('l, 'h) pintos \<Rightarrow> ('l, 'h) kernel \<Rightarrow> ('l, 'h) kernel res" where
  "idle_round P s = thread_block P (intr_off P s)"

definition idle_wait :: "('l, 'h) pintos \<Rightarrow> ('l, 'h) kernel \<Rightarrow> ('l, 'h) kernel" where
  "idle_wait P s = s\<lparr>hw := intr_enable P (hw s)\<rparr>"

definition thread_start ::
  "('l, 'h) pintos \<Rightarrow> addr \<Rightarrow> addr \<Rightarrow> (('l, 'h) kernel \<Rightarrow> ('l, 'h) kernel res)
    \<Rightarrow> ('l, 'h) kernel \<Rightarrow> ('l, 'h) kernel res"
where
  "thread_start P idle idle_started sema_down s =
     bind (thread_create P (Some ''idle'') PRI_MIN (Some idle) idle_started s) (\<lambda>(_, s).
     sema_down (s\<lparr>hw := intr_enable P (hw s)\<rparr>))"

definition thread_foreach ::
  "('l, 'h) pintos \<Rightarrow> nat \<Rightarrow> (addr \<Rightarrow> ('l, 'h) kernel \<Rightarrow> ('l, 'h) kernel res)
    \<Rightarrow> ('l, 'h) kernel \<Rightarrow> ('l, 'h) kernel res"
where
  "thread_foreach P fuel func s =
     ASSERT (intr_get_level P (hw s) = INTR_OFF) (
     for_each fuel (\<lambda>_. False) (\<lambda>s. list_next P (all_list s)) func (list_begin P (all_list s)) s)"

end
