(* ===== verification/Mlfq_Inv.thy ===== *)
theory Mlfq_Inv
  imports Mlfq
begin

text \<open>
  The invariant of the two-level scheduler and its preservation: every operation of `Mlfq`
  that is called as its comment asks returns normally and keeps the invariant.
\<close>

subsection \<open>The invariant\<close>

text \<open>
  What holds of one thread.  `r` is the thread that runs, `None` between a thread's
  giving up the CPU and the end of the switch; `D` holds the thread that is being destroyed.
\<close>

definition thread_inv ::
  "('l \<Rightarrow> addr list) \<Rightarrow> addr option \<Rightarrow> addr set \<Rightarrow> ('l, 'h) kernel \<Rightarrow> addr \<Rightarrow> thread \<Rightarrow> bool"
where
  "thread_inv items r D s t th \<longleftrightarrow>
     is_thread th \<and>
     1 \<le> tid th \<and> tid th < next_tid s \<and>
     (status th = THREAD_RUNNING \<longleftrightarrow> r = Some t) \<and>
     (status th = THREAD_DYING \<longrightarrow> t \<in> D \<or> initial_thread s = Some t) \<and>
     (status th \<noteq> THREAD_DYING \<longleftrightarrow> t \<in> set (items (all_list s))) \<and>
     (status th \<noteq> THREAD_DYING \<and> r \<noteq> Some t \<longrightarrow> resumable (frames th)) \<and>
     (t \<in> set (items (ready_list s)) \<longrightarrow> status th = THREAD_READY \<and> 0 \<le> sint (count th)) \<and>
     (t \<in> set (items (ready_list_low s)) \<longrightarrow> status th = THREAD_READY \<and> sint (count th) < 0) \<and>
     (status th = THREAD_READY \<and> idle_thread s \<noteq> Some t \<longrightarrow>
        t \<in> set (items (ready_list s)) \<union> set (items (ready_list_low s))) \<and>
     (if t \<in> set (items (ready_list_low s)) then - WAITING_TIME \<le> sint (count th)
      else - 1 \<le> sint (count th)) \<and>
     sint (count th) \<le> 1"

definition core_inv ::
  "('l \<Rightarrow> addr list) \<Rightarrow> ('h \<Rightarrow> addr set) \<Rightarrow> addr option \<Rightarrow> addr set \<Rightarrow> ('l, 'h) kernel \<Rightarrow> bool"
where
  "core_inv items used r D s \<longleftrightarrow>
     (\<forall>t th. heap s t = Some th \<longrightarrow> thread_inv items r D s t th) \<and>
     distinct (items (ready_list s) @ items (ready_list_low s)) \<and>
     distinct (items (all_list s)) \<and>
     set (items (ready_list s)) \<union> set (items (ready_list_low s)) \<union> set (items (all_list s)) \<subseteq> dom (heap s) \<and>
     (\<exists>i \<in> set (items (all_list s)). idle_thread s = Some i) \<and>
     inj_on (\<lambda>t. tid (the (heap s t))) (dom (heap s)) \<and>
     dom (heap s) \<subseteq> used (hw s) \<and>
     cpu s \<in> dom (heap s)"

definition kernel_inv :: "('l \<Rightarrow> addr list) \<Rightarrow> ('h \<Rightarrow> addr set) \<Rightarrow> ('l, 'h) kernel \<Rightarrow> bool" where
  "kernel_inv items used s \<longleftrightarrow> core_inv items used (Some (cpu s)) {} s"

lemmas state_defs = set_thread_def printf_def intr_off_def intr_restore_def running_thread_def

lemma core_invD:
  assumes "core_inv items used r D s"
  shows "heap s t = Some th \<Longrightarrow> thread_inv items r D s t th"
    and "distinct (items (ready_list s))" and "distinct (items (ready_list_low s))"
    and "set (items (ready_list s)) \<inter> set (items (ready_list_low s)) = {}"
    and "distinct (items (all_list s))"
    and "t \<in> set (items (ready_list s)) \<Longrightarrow> t \<in> dom (heap s)"
    and "t \<in> set (items (ready_list_low s)) \<Longrightarrow> t \<in> dom (heap s)"
    and "t \<in> set (items (all_list s)) \<Longrightarrow> t \<in> dom (heap s)"
    and "idle_thread s = Some t \<Longrightarrow> t \<in> set (items (all_list s))"
  using assms by (auto simp: core_inv_def)

lemma core_inv_queued:
  assumes "core_inv items used r D s"
    and "t \<in> set (items (ready_list s)) \<union> set (items (ready_list_low s))"
  obtains th where "heap s t = Some th" and "status th = THREAD_READY" and "t \<in> set (items (all_list s))"
proof -
  from assms have "t \<in> dom (heap s)" by (auto simp: core_inv_def)
  then obtain th where th: "heap s t = Some th" by blast
  from core_invD(1) [OF assms(1) th] assms(2) have "status th = THREAD_READY" "t \<in> set (items (all_list s))"
    by (auto simp: thread_inv_def)
  with th that show thesis by blast
qed

lemma core_inv_queued_all:
  assumes "core_inv items used r D s"
  shows "set (items (ready_list s)) \<union> set (items (ready_list_low s)) \<subseteq> set (items (all_list s))"
  using core_inv_queued [OF assms] by blast

lemma kernel_inv_current:
  assumes "kernel_inv items used s"
  obtains th where "heap s (cpu s) = Some th" and "is_thread th" and "status th = THREAD_RUNNING"
    and "thread_current s = Inr (cpu s)"
    and "cpu s \<notin> set (items (ready_list s)) \<union> set (items (ready_list_low s))"
    and "cpu s \<in> set (items (all_list s))"
    and "- 1 \<le> sint (count th)" and "sint (count th) \<le> 1"
proof -
  from assms obtain th where th: "heap s (cpu s) = Some th"
    and inv: "thread_inv items (Some (cpu s)) {} s (cpu s) th"
    unfolding kernel_inv_def core_inv_def by blast
  then have "is_thread th" and run: "status th = THREAD_RUNNING"
    by (auto simp: thread_inv_def)
  moreover from this th have "thread_current s = Inr (cpu s)"
    by (simp add: thread_current_def running_thread_def)
  moreover from inv run have "cpu s \<notin> set (items (ready_list s)) \<union> set (items (ready_list_low s))"
    by (auto simp: thread_inv_def)
  moreover from this inv run have "- 1 \<le> sint (count th)" "sint (count th) \<le> 1"
      "cpu s \<in> set (items (all_list s))"
    by (auto simp: thread_inv_def)
  ultimately show thesis using th that by blast
qed

text \<open>
  Every operation rewrites one thread `t` and moves it between lists; the rest of the
  invariant then follows from what becomes of `t` alone.
\<close>

lemma core_inv_upd:
  assumes inv: "core_inv items used r D s" and th: "heap s t = Some th"
    and s': "heap s' = (heap s)(t \<mapsto> th')" "tid th' = tid th" "next_tid s' = next_tid s"
      "idle_thread s' = idle_thread s" "initial_thread s' = initial_thread s"
      "cpu s' = cpu s" "used (hw s') = used (hw s)"
    and r: "\<And>u. u \<noteq> t \<Longrightarrow> r' = Some u \<longleftrightarrow> r = Some u" and D: "D \<subseteq> insert t D'"
    and R: "set (items (ready_list s')) - {t} = set (items (ready_list s)) - {t}"
    and L: "set (items (ready_list_low s')) - {t} = set (items (ready_list_low s)) - {t}"
    and A: "set (items (all_list s')) - {t} = set (items (all_list s)) - {t}"
    and dist: "distinct (items (ready_list s') @ items (ready_list_low s'))" "distinct (items (all_list s'))"
    and idle: "idle_thread s = Some t \<Longrightarrow> t \<in> set (items (all_list s'))"
    and new: "thread_inv items r' D' s' t th'"
  shows "core_inv items used r' D' s'"
proof -
  have "thread_inv items r' D' s' u x" if "heap s' u = Some x" for u x
  proof (cases "u = t")
    case True
    with that new show ?thesis by (simp add: s')
  next
    case False
    with that have "thread_inv items r D s u x" using core_invD(1) [OF inv] by (simp add: s')
    moreover from False R L A have "u \<in> set (items (ready_list s')) \<longleftrightarrow> u \<in> set (items (ready_list s))"
        "u \<in> set (items (ready_list_low s')) \<longleftrightarrow> u \<in> set (items (ready_list_low s))"
        "u \<in> set (items (all_list s')) \<longleftrightarrow> u \<in> set (items (all_list s))" by blast+
    moreover from False D have "u \<in> D \<longrightarrow> u \<in> D'" by blast
    ultimately show ?thesis using r [OF False] by (auto simp: thread_inv_def s')
  qed
  moreover have dom: "dom (heap s') = dom (heap s)" using th by (auto simp: s')
  moreover have "set (items (ready_list s')) \<union> set (items (ready_list_low s')) \<union> set (items (all_list s'))
      \<subseteq> dom (heap s')"
    using inv th R L A unfolding core_inv_def dom by blast
  moreover have "\<exists>i \<in> set (items (all_list s')). idle_thread s' = Some i"
  proof -
    from inv obtain i where i: "i \<in> set (items (all_list s))" "idle_thread s = Some i"
      unfolding core_inv_def by blast
    then have "i \<in> set (items (all_list s'))" using A idle by (cases "i = t") auto
    with i(2) show ?thesis by (simp add: s')
  qed
  moreover have "(\<lambda>u. tid (the (heap s' u))) = (\<lambda>u. tid (the (heap s u)))"
    using th by (auto simp: s' fun_eq_iff)
  ultimately show ?thesis
    using inv dist by (simp add: core_inv_def s')
qed

text \<open>Fields the invariant does not mention.\<close>

lemma core_inv_frame:
  assumes "core_inv items used r D s"
    and "heap s' = heap s" "ready_list s' = ready_list s" "ready_list_low s' = ready_list_low s"
      "all_list s' = all_list s" "idle_thread s' = idle_thread s" "initial_thread s' = initial_thread s"
      "next_tid s' = next_tid s" "cpu s' = cpu s" "used (hw s) \<subseteq> used (hw s')"
  shows "core_inv items used r D s'"
  using assms by (auto simp: core_inv_def thread_inv_def)

subsection \<open>The switch\<close>

text \<open>
  What `schedule` leaves when the next thread `n` (with structure `th`) has
  been taken off its queue.
\<close>

definition dispatch :: "('l, 'h) pintos \<Rightarrow> addr \<Rightarrow> thread \<Rightarrow> ('l, 'h) kernel \<Rightarrow> ('l, 'h) kernel" where
  "dispatch P n th s =
     (let s' = s\<lparr>heap := (heap s)(n \<mapsto> th\<lparr>count := (if sint (count th) < 0 then -1 else count th),
                                       status := THREAD_RUNNING\<rparr>),
                 thread_ticks := 0, cpu := n\<rparr>
      in if n \<noteq> cpu s \<and> status (the (heap s (cpu s))) = THREAD_DYING \<and> initial_thread s \<noteq> Some (cpu s)
         then s'\<lparr>heap := (heap s')(cpu s := None), hw := palloc_free_page P (cpu s) (hw s)\<rparr>
         else s')"


text \<open>
  What resuming touches: the frames of the running thread and the interrupt level.
\<close>

definition resumes_to :: "('l, 'h) kernel \<Rightarrow> ('l, 'h) kernel \<Rightarrow> bool" where
  "resumes_to s s' \<longleftrightarrow> (\<exists>fs h. s' = (s\<lparr>heap := (heap s)(cpu s \<mapsto> (the (heap s (cpu s)))\<lparr>frames := fs\<rparr>), hw := h\<rparr>))"

context pintos_kernel
begin

lemma schedule_dispatch:
  assumes nxt: "next_thread_to_run P s = (Some n, s1)"
    and s1: "heap s1 = heap s" "cpu s1 = cpu s" "hw s1 = hw s" "initial_thread s1 = initial_thread s"
    and off: "intr_get_level P (hw s) = INTR_OFF"
    and cth: "heap s (cpu s) = Some cth" "status cth \<noteq> THREAD_RUNNING"
    and th: "heap s n = Some th" "is_thread th"
  shows "schedule P s = Inr (dispatch P n th s1)"
  using assms
  by (auto simp: schedule_def thread_schedule_tail_def dispatch_def state_defs ASSERT_def Let_def
      fun_upd_twist split: option.splits)

lemma next_thread_cases:
  assumes inv: "core_inv items used r D s"
  obtains n th rl ll where
    "next_thread_to_run P s = (Some n, s\<lparr>ready_list := rl, ready_list_low := ll\<rparr>)"
    and "heap s n = Some th" and "n \<in> set (items (all_list s))"
    and "distinct (items rl @ items ll)"
    and "set (items rl) = set (items (ready_list s)) - {n}"
    and "set (items ll) = set (items (ready_list_low s)) - {n}"
proof -
  note d = core_invD [OF inv]
  have all: "n \<in> set (items (all_list s))" if "heap s n = Some th" "status th = THREAD_READY" for n th
    using d(1) [OF that(1)] that(2) by (simp add: thread_inv_def)
  consider (high) n xs where "items (ready_list s) = n # xs"
    | (low) n xs where "items (ready_list s) = []" "items (ready_list_low s) = n # xs"
    | (idle) "items (ready_list s) = []" "items (ready_list_low s) = []"
    by (cases "items (ready_list s)"; cases "items (ready_list_low s)") auto
  then show thesis
  proof cases
    case high
    from pop_Cons [OF high] obtain l where l: "list_pop_front P (ready_list s) = (n, l)" "items l = xs" .
    from d(6) [of n] high obtain th where th: "heap s n = Some th" by auto
    with d(1) [OF th] high have "n \<in> set (items (all_list s))" by (auto simp: thread_inv_def)
    with l th high d(2-4) show thesis
      by (intro that [where n = n and th = th and rl = l and ll = "ready_list_low s"]) (auto simp: next_thread_to_run_def)
  next
    case low
    from pop_Cons [OF low(2)] obtain l where l: "list_pop_front P (ready_list_low s) = (n, l)" "items l = xs" .
    from d(7) [of n] low obtain th where th: "heap s n = Some th" by auto
    with d(1) [OF th] low have "n \<in> set (items (all_list s))" by (auto simp: thread_inv_def)
    with l th low d(2-4) show thesis
      by (intro that [where n = n and th = th and rl = "ready_list s" and ll = l]) (auto simp: next_thread_to_run_def)
  next
    case idle
    from inv obtain n th where "idle_thread s = Some n" "n \<in> set (items (all_list s))" "heap s n = Some th"
      unfolding core_inv_def by blast
    with idle show thesis
      by (intro that [where n = n and th = th and rl = "ready_list s" and ll = "ready_list_low s"]) (auto simp: next_thread_to_run_def)
  qed
qed

lemma dispatch_inv:
  assumes inv: "core_inv items used None D s" and D: "D \<subseteq> {cpu s}"
    and th: "heap s n = Some th" and n: "n \<in> set (items (all_list s))"
    and lists: "distinct (items rl @ items ll)"
      "set (items rl) = set (items (ready_list s)) - {n}"
      "set (items ll) = set (items (ready_list_low s)) - {n}"
  shows "kernel_inv items used (dispatch P n th (s\<lparr>ready_list := rl, ready_list_low := ll\<rparr>))"
proof -
  let ?s' = "dispatch P n th (s\<lparr>ready_list := rl, ready_list_low := ll\<rparr>)"
  let ?th = "th\<lparr>count := (if sint (count th) < 0 then -1 else count th), status := THREAD_RUNNING\<rparr>"
  let ?free = "n \<noteq> cpu s \<and> status (the (heap s (cpu s))) = THREAD_DYING \<and> initial_thread s \<noteq> Some (cpu s)"
  let ?heap = "(heap s)(n \<mapsto> ?th)"
  note d = core_invD [OF inv]
  have heap': "heap ?s' = (if ?free then ?heap(cpu s := None) else ?heap)"
    by (simp add: dispatch_def Let_def)
  have same: "items (ready_list ?s') = items rl" "items (ready_list_low ?s') = items ll"
      "all_list ?s' = all_list s" "idle_thread ?s' = idle_thread s" "cpu ?s' = n"
      "next_tid ?s' = next_tid s" "initial_thread ?s' = initial_thread s"
    by (simp_all add: dispatch_def Let_def)
  have not_dying: "t \<noteq> cpu s" if ?free "t \<in> set (items (all_list s))" for t
    using that d(8) [OF that(2)] d(1) [of "cpu s"] by (auto simp: thread_inv_def)
  have other: "thread_inv items (Some n) {} ?s' t u" if u: "heap s t = Some u" "t \<noteq> n"
      "\<not> (?free \<and> t = cpu s)" for t u
  proof -
    have "t \<in> set (items rl) \<longleftrightarrow> t \<in> set (items (ready_list s))"
        "t \<in> set (items ll) \<longleftrightarrow> t \<in> set (items (ready_list_low s))"
      using u(2) lists(2,3) by simp_all
    moreover have "status u = THREAD_DYING \<longrightarrow> initial_thread s = Some t"
    proof (cases "t = cpu s")
      case True
      with u show ?thesis by auto
    next
      case False
      with D d(1) [OF u(1)] show ?thesis by (auto simp: thread_inv_def)
    qed
    ultimately show ?thesis using d(1) [OF u(1)] u(2) by (simp add: thread_inv_def same)
  qed
  have new: "thread_inv items (Some n) {} ?s' n ?th"
    using d(1) [OF th] n lists(2,3)
    by (auto simp: thread_inv_def same is_thread_def WAITING_TIME_def)
  have "thread_inv items (Some n) {} ?s' t u" if "heap ?s' t = Some u" for t u
    using that new other [of t u] by (auto simp: heap' split: if_splits)
  moreover have sub: "set (items rl) \<union> set (items ll) \<union> set (items (all_list s)) \<subseteq> dom (heap ?s')"
  proof
    fix t
    assume "t \<in> set (items rl) \<union> set (items ll) \<union> set (items (all_list s))"
    then have t: "t \<in> set (items (all_list s))" "t \<in> dom (heap s)"
      using lists(2,3) d(8) core_inv_queued_all [OF inv] by blast+
    with not_dying show "t \<in> dom (heap ?s')" by (auto simp: heap')
  qed
  moreover have "inj_on (\<lambda>t. tid (the (heap ?s' t))) (dom (heap ?s'))"
  proof -
    have "tid (the (heap ?s' t)) = tid (the (heap s t))" if "t \<in> dom (heap ?s')" for t
      using that th by (auto simp: heap' split: if_splits)
    moreover have "dom (heap ?s') \<subseteq> dom (heap s)" using th by (auto simp: heap' split: if_splits)
    moreover have "inj_on (\<lambda>t. tid (the (heap s t))) (dom (heap s))" using inv by (simp add: core_inv_def)
    ultimately show ?thesis by (simp add: inj_on_def subset_iff)
  qed
  moreover have "dom (heap ?s') \<subseteq> used (hw ?s')"
    using inv th by (auto simp: heap' core_inv_def dispatch_def Let_def)
  moreover have "n \<in> dom (heap ?s')" using n sub by blast
  ultimately show ?thesis
    using inv lists(1) unfolding kernel_inv_def core_inv_def by (simp add: same)
qed

text \<open>The switch never faults and restores the invariant.\<close>

lemma schedule_inv:
  assumes inv: "core_inv items used None D s" and D: "D \<subseteq> {cpu s}"
    and off: "intr_get_level P (hw s) = INTR_OFF"
  obtains s' th where "schedule P s = Inr s'" and "kernel_inv items used s'"
    and "heap s' (cpu s') = Some th" and "resumable (frames th)"
proof -
  from next_thread_cases [OF inv] obtain n th rl ll where
    nxt: "next_thread_to_run P s = (Some n, s\<lparr>ready_list := rl, ready_list_low := ll\<rparr>)"
    and th: "heap s n = Some th" and n: "n \<in> set (items (all_list s))"
    and lists: "distinct (items rl @ items ll)"
      "set (items rl) = set (items (ready_list s)) - {n}"
      "set (items ll) = set (items (ready_list_low s)) - {n}" .
  let ?s1 = "s\<lparr>ready_list := rl, ready_list_low := ll\<rparr>"
  note d = core_invD [OF inv]
  from inv obtain cth where cth: "heap s (cpu s) = Some cth" unfolding core_inv_def by blast
  from d(1) [OF cth] have "status cth \<noteq> THREAD_RUNNING" by (simp add: thread_inv_def)
  moreover from d(1) [OF th] n have ok: "is_thread th" "resumable (frames th)"
    by (auto simp: thread_inv_def)
  ultimately have "schedule P s = Inr (dispatch P n th ?s1)"
    using schedule_dispatch [OF nxt _ _ _ _ off cth] th by simp
  moreover have "kernel_inv items used (dispatch P n th ?s1)"
    using dispatch_inv [OF inv D th n lists] .
  moreover have "\<exists>u. heap (dispatch P n th ?s1) (cpu (dispatch P n th ?s1)) = Some u \<and> resumable (frames u)"
    using ok by (auto simp: dispatch_def Let_def)
  ultimately show thesis using that by blast
qed

subsection \<open>Resuming a thread\<close>

lemma core_inv_frames:
  assumes inv: "kernel_inv items used s" and th: "heap s (cpu s) = Some th"
  shows "kernel_inv items used (set_thread (cpu s) (th\<lparr>frames := fs\<rparr>) s)"
proof -
  note core = inv [unfolded kernel_inv_def]
  from core_invD(1) [OF core th] have k: "thread_inv items (Some (cpu s)) {} s (cpu s) th" .
  with core_invD(2-5,9) [OF core] core_inv_upd [OF core th, of "set_thread (cpu s) (th\<lparr>frames := fs\<rparr>) s"
      "th\<lparr>frames := fs\<rparr>" "Some (cpu s)" "{}"]
  show ?thesis by (auto simp: state_defs kernel_inv_def thread_inv_def is_thread_def)
qed

lemma resume_inv:
  assumes inv: "kernel_inv items used s"
    and th: "heap s (cpu s) = Some th" and fr: "resumable (frames th)"
  obtains s' where "resume P s = Inr s'" and "kernel_inv items used s'" and "resumes_to s s'"
proof -
  have frame: "kernel_inv items used (set_thread (cpu s) (th\<lparr>frames := fs\<rparr>) s\<lparr>hw := h\<rparr>)"
    if "used h = used (hw s)" for fs h
    using core_inv_frames [OF inv th, of fs] that unfolding kernel_inv_def
    by (auto elim!: core_inv_frame simp: state_defs)
  from fr show thesis
  proof (cases "frames th" rule: resumable.cases)
    case (1 l fs)
    with th frame [of "intr_set_level P l (hw s)" fs] show thesis
      by (intro that [of "intr_restore P l (set_thread (cpu s) (th\<lparr>frames := fs\<rparr>) s)"])
        (auto simp: resume_def state_defs resumes_to_def)
  next
    case (2 fs)
    with th frame [of "hw s" fs] show thesis
      by (intro that [of "set_thread (cpu s) (th\<lparr>frames := fs\<rparr>) s"])
        (auto simp: resume_def state_defs resumes_to_def intro!: exI [of _ fs] exI [of _ "hw s"])
  next
    case (3 b e f a fs)
    with th frame [of "intr_enable P (hw s)" fs] show thesis
      by (intro that [of "(set_thread (cpu s) (th\<lparr>frames := fs\<rparr>) s)\<lparr>hw := intr_enable P (hw s)\<rparr>"])
        (auto simp: resume_def kernel_thread_def state_defs resumes_to_def)
  qed simp_all
qed

end

end
