(* ===== verification/Mlfq_Spec.thy ===== *)
theory Mlfq_Spec
  imports Mlfq_Inv
begin

text \<open>
  What the two-level scheduler promises, without the machinery of lists, pages and
  stack frames: who runs, who waits in which queue, and how each operation moves threads.  The
  operations of `Mlfq` refine it.
\<close>

subsection \<open>The abstract scheduler\<close>

record sched =
  running :: addr
  idle :: "addr option"
  hi :: "addr list"
  lo :: "addr list"
  cnt :: "addr \<Rightarrow> int option"
  slice :: nat
  resched :: bool

definition pick :: "addr option \<Rightarrow> sched \<Rightarrow> sched" where
  "pick dead q =
     (let (n, q) = (case hi q of
            x # xs \<Rightarrow> (x, q\<lparr>hi := xs\<rparr>)
          | [] \<Rightarrow> (case lo q of y # ys \<Rightarrow> (y, q\<lparr>lo := ys\<rparr>) | [] \<Rightarrow> (the (idle q), q)));
          c = map_option (max (-1)) (cnt q n);
          m = (cnt q)(n := c)
      in q\<lparr>running := n, slice := 0, cnt := (case dead of None \<Rightarrow> m | Some d \<Rightarrow> m(d := None))\<rparr>)"

definition enqueue :: "addr \<Rightarrow> sched \<Rightarrow> sched" where
  "enqueue t q = (if 0 \<le> the (cnt q t) then q\<lparr>hi := hi q @ [t]\<rparr> else q\<lparr>lo := lo q @ [t]\<rparr>)"

definition s_block :: "sched \<Rightarrow> sched" where
  "s_block q = pick None q"

definition s_yield :: "sched \<Rightarrow> sched" where
  "s_yield q = pick None (if Some (running q) = idle q then q else enqueue (running q) q)"

definition s_exit :: "bool \<Rightarrow> sched \<Rightarrow> sched" where
  "s_exit keep q = pick (if keep then None else Some (running q)) q"

text \<open>Queue B grows older only while a thread of queue A runs.\<close>

definition s_age :: "sched \<Rightarrow> sched" where
  "s_age q =
     (let up = filter (\<lambda>t. the (cnt q t) \<le> - WAITING_TIME) (lo q)
      in q\<lparr>hi := hi q @ up, lo := filter (\<lambda>t. \<not> the (cnt q t) \<le> - WAITING_TIME) (lo q),
           cnt := (\<lambda>t. if t \<in> set (lo q)
                       then map_option (\<lambda>c. if c \<le> - WAITING_TIME then 0 else c - 1) (cnt q t)
                       else cnt q t)\<rparr>)"

text \<open>A slice of A is 4 ticks, two of them demote; a slice of B is 8 ticks or ends when A has work.\<close>

definition s_preempt :: "sched \<Rightarrow> sched" where
  "s_preempt q =
     (let q = q\<lparr>slice := Suc (slice q)\<rparr>; c = the (cnt q (running q)) in
      if c < 0 then if hi q \<noteq> [] \<or> 8 \<le> slice q then q\<lparr>resched := True\<rparr> else q
      else if 4 \<le> slice q
      then q\<lparr>resched := True, cnt := (cnt q)(running q \<mapsto> (if 1 \<le> c then -1 else c + 1))\<rparr>
      else q)"

definition s_tick :: "sched \<Rightarrow> sched" where
  "s_tick q = s_preempt (if 0 \<le> the (cnt q (running q)) then s_age q else q)"

text \<open>The view of a kernel state.\<close>

definition view :: "('l \<Rightarrow> addr list) \<Rightarrow> ('h \<Rightarrow> bool) \<Rightarrow> ('l, 'h) kernel \<Rightarrow> sched" where
  "view items yielding s = \<lparr>running = cpu s, idle = idle_thread s, hi = items (ready_list s),
     lo = items (ready_list_low s), cnt = (\<lambda>t. map_option (\<lambda>th. sint (count th)) (heap s t)),
     slice = unat (thread_ticks s), resched = yielding (hw s)\<rparr>"

lemma view_sel [simp]:
  "running (view items yielding s) = cpu s" "idle (view items yielding s) = idle_thread s"
  "hi (view items yielding s) = items (ready_list s)" "lo (view items yielding s) = items (ready_list_low s)"
  "cnt (view items yielding s) t = map_option (\<lambda>th. sint (count th)) (heap s t)"
  "slice (view items yielding s) = unat (thread_ticks s)" "resched (view items yielding s) = yielding (hw s)"
  by (simp_all add: view_def)

lemma sched_eqI:
  "running q = running r \<Longrightarrow> idle q = idle r \<Longrightarrow> hi q = hi r \<Longrightarrow> lo q = lo r \<Longrightarrow>
   (\<And>t. cnt q t = cnt r t) \<Longrightarrow> slice q = slice r \<Longrightarrow> resched q = resched r \<Longrightarrow> q = (r :: sched)"
  by (simp add: fun_eq_iff)

subsection \<open>Refinement\<close>

context pintos_kernel
begin

lemma resume_view: "resume P s = Inr s' \<Longrightarrow> view items yielding s' = view items yielding s"
  by (auto simp: resume_def kernel_thread_def state_defs view_def fun_eq_iff
      split: list.splits frame.splits code_addr.splits)

lemma dispatch_view:
  assumes "heap s n = Some th" and "cpu s1 = cpu s" "heap s1 = heap s" "hw s1 = hw s" "idle_thread s1 = idle_thread s"
    and "dead = (if n \<noteq> cpu s1 \<and> status (the (heap s1 (cpu s1))) = THREAD_DYING \<and> initial_thread s1 \<noteq> Some (cpu s1)
       then Some (cpu s) else None)"
  shows "view items yielding (dispatch P n th s1) =
    (view items yielding s1)\<lparr>running := n, slice := 0,
       cnt := (let m = (cnt (view items yielding s))(n := map_option (max (-1)) (cnt (view items yielding s) n))
               in case dead of None \<Rightarrow> m | Some d \<Rightarrow> m(d := None))\<rparr>"
  using assms by (auto simp: dispatch_def Let_def intro!: sched_eqI)

lemma schedule_view:
  assumes inv: "core_inv items used None D s" and D: "D \<subseteq> {cpu s}"
    and run: "schedule P s = Inr s'"
    and dead: "dead = (if status (the (heap s (cpu s))) = THREAD_DYING \<and> initial_thread s \<noteq> Some (cpu s)
       then Some (cpu s) else None)"
  shows "view items yielding s' = pick dead (view items yielding s)"
proof -
  note d = core_invD [OF inv]
  have off: "intr_get_level P (hw s) = INTR_OFF"
    using run by (auto simp: schedule_def next_thread_to_run_def Let_def split: if_splits prod.splits)
  from inv obtain cth where cth: "heap s (cpu s) = Some cth" unfolding core_inv_def by blast
  from d(1) [OF cth] have nrun: "status cth \<noteq> THREAD_RUNNING" by (simp add: thread_inv_def)
  have go: "view items yielding s' = (view items yielding s1)\<lparr>running := n, slice := 0,
       cnt := (let m = (cnt (view items yielding s))(n := map_option (max (-1)) (cnt (view items yielding s) n))
               in case dead of None \<Rightarrow> m | Some d \<Rightarrow> m(d := None))\<rparr>"
    if nxt: "next_thread_to_run P s = (Some n, s1)" and n: "n \<in> set (items (all_list s))"
      and s1: "heap s1 = heap s" "cpu s1 = cpu s" "hw s1 = hw s" "initial_thread s1 = initial_thread s"
        "idle_thread s1 = idle_thread s" for n s1
  proof -
    from d(8) [OF n] obtain th where th: "heap s n = Some th" by blast
    from d(1) [OF th] n have k: "is_thread th" "status th \<noteq> THREAD_DYING" by (auto simp: thread_inv_def)
    from schedule_dispatch [OF nxt s1(1-4) off cth nrun th k(1)] run have "s' = dispatch P n th s1" by simp
    moreover have "n \<noteq> cpu s \<or> status (the (heap s (cpu s))) \<noteq> THREAD_DYING" using th k by auto
    ultimately show ?thesis
      using dispatch_view [OF th s1(2,1,3,5), of dead] by (auto simp: dead s1)
  qed
  note q = core_inv_queued_all [OF inv]
  show ?thesis
  proof (cases "items (ready_list s)")
    case hi: (Cons x xs)
    from pop_Cons [OF hi] obtain l where l: "list_pop_front P (ready_list s) = (x, l)" "items l = xs" .
    show ?thesis
    proof (subst go [of x "s\<lparr>ready_list := l\<rparr>"])
    qed (use hi l q in \<open>auto simp: next_thread_to_run_def pick_def Let_def
          intro!: sched_eqI split: option.splits\<close>)
  next
    case hi: Nil
    show ?thesis
    proof (cases "items (ready_list_low s)")
      case lo: (Cons y ys)
      from pop_Cons [OF lo] obtain l where l: "list_pop_front P (ready_list_low s) = (y, l)" "items l = ys" .
      show ?thesis
      proof (subst go [of y "s\<lparr>ready_list_low := l\<rparr>"])
      qed (use hi lo l q in \<open>auto simp: next_thread_to_run_def pick_def Let_def
            intro!: sched_eqI split: option.splits\<close>)
    next
      case lo: Nil
      from inv obtain i where i: "idle_thread s = Some i" "i \<in> set (items (all_list s))"
        unfolding core_inv_def by blast
      show ?thesis
      proof (subst go [of i s])
      qed (use hi lo i in \<open>auto simp: next_thread_to_run_def pick_def Let_def
            intro!: sched_eqI split: option.splits\<close>)
    qed
  qed
qed

text \<open>The switch as every operation uses it: no fault, the invariant back, one abstract `pick`.\<close>

lemma switch_ok:
  assumes inv: "core_inv items used None D s" and D: "D \<subseteq> {cpu s}"
    and off: "intr_get_level P (hw s) = INTR_OFF"
    and dead: "dead = (if status (the (heap s (cpu s))) = THREAD_DYING \<and> initial_thread s \<noteq> Some (cpu s)
       then Some (cpu s) else None)"
  obtains s' where "bind (schedule P s) (resume P) = Inr s'" and "kernel_inv items used s'"
    and "view items yielding s' = pick dead (view items yielding s)"
proof -
  from schedule_inv [OF inv D off] obtain s1 th where s1: "schedule P s = Inr s1"
    "kernel_inv items used s1" "heap s1 (cpu s1) = Some th" "resumable (frames th)" .
  from resume_inv [OF this(2-4)] obtain s' where "resume P s1 = Inr s'" "kernel_inv items used s'"
    by blast
  with s1 that schedule_view [OF inv D s1(1) dead] resume_view show thesis by simp
qed

end

end
