(* ===== verification/Mlfq_Safe.thy ===== *)
theory Mlfq_Safe
  imports Mlfq_Spec
begin

text \<open>
  Safety of the two-level scheduler: every operation, called as its comment in `thread.c`
  asks, passes all its ASSERTs, touches only live threads and keeps `kernel_inv`.  The
  loop over queue B is shown equal to a map and a filter, and its fuel bounded.
\<close>

text \<open>
  What a tick does to the threads of queue B: one that has waited `WAITING_TIME` ticks is
  promoted with its count cleared, every other counts one tick down.
\<close>

definition expires :: "thread \<Rightarrow> bool" where
  "expires th \<longleftrightarrow> sint (count th) \<le> - WAITING_TIME"

definition aged :: "thread \<Rightarrow> thread" where
  "aged th = (if expires th then th\<lparr>count := 0\<rparr> else th\<lparr>count := count th - 1\<rparr>)"

definition aged_heap :: "addr list \<Rightarrow> (addr \<Rightarrow> thread option) \<Rightarrow> addr \<Rightarrow> thread option" where
  "aged_heap ts m t = (if t \<in> set ts then map_option aged (m t) else m t)"

definition promoted :: "addr list \<Rightarrow> ('l, 'h) kernel \<Rightarrow> addr list" where
  "promoted ts s = filter (\<lambda>t. expires (the (heap s t))) ts"

text \<open>The counters of a tick that must not overflow.\<close>

definition clock_room :: "('l, 'h) kernel \<Rightarrow> bool" where
  "clock_room s \<longleftrightarrow> idle_ticks s + 1 < 2 ^ 63 \<and> kernel_ticks s + 1 < 2 ^ 63 \<and> clock_count s + 1 < 2 ^ 31
     \<and> unat (thread_ticks s) + 1 < 2 ^ 32"

text \<open>The structure `thread_create` builds on a new page, before it is put on a queue.\<close>

definition new_thread ::
  "('l, 'h) pintos \<Rightarrow> addr \<Rightarrow> tid_t \<Rightarrow> string \<Rightarrow> int \<Rightarrow> addr \<Rightarrow> addr \<Rightarrow> thread"
where
  "new_thread P t new_tid nm prio f aux =
     \<lparr>tid = new_tid, status = THREAD_BLOCKED, name = take 15 nm,
      stack = t + PGSIZE P - sizeof_kernel_thread_frame - sizeof_switch_entry_frame P - sizeof_switch_threads_frame P,
      priority = prio, count = 0, magic = THREAD_MAGIC,
      frames = [switch_threads_frame switch_entry_code 0, switch_entry_frame kernel_thread_code,
                kernel_thread_frame None (Some f) aux]\<rparr>"

context pintos_kernel
begin

subsection \<open>Blocking, yielding, exiting\<close>

lemma thread_block_inv:
  assumes inv: "kernel_inv items used s"
    and "\<not> intr_context P (hw s)" and off: "intr_get_level P (hw s) = INTR_OFF"
  obtains s' where "thread_block P s = Inr s'" and "kernel_inv items used s'"
    and "view items yielding s' = s_block (view items yielding s)"
proof -
  note core = inv [unfolded kernel_inv_def]
  from kernel_inv_current [OF inv] obtain th where th: "heap s (cpu s) = Some th"
    and cur: "thread_current s = Inr (cpu s)" by blast
  let ?th = "th\<lparr>status := THREAD_BLOCKED, frames := in_thread_block # frames th\<rparr>"
  let ?s = "set_thread (cpu s) ?th s"
  from core_invD(1) [OF core th] have k: "thread_inv items (Some (cpu s)) {} s (cpu s) th" .
  have "core_inv items used None {} ?s"
    by (rule core_inv_upd [OF core th, where th' = ?th])
      (use core_invD(2-5,9) [OF core] k in \<open>auto simp: state_defs thread_inv_def is_thread_def\<close>)
  then obtain s' where "bind (schedule P ?s) (resume P) = Inr s'" "kernel_inv items used s'"
    "view items yielding s' = pick None (view items yielding ?s)"
    using off by (elim switch_ok [where dead = None]) (auto simp: state_defs)
  moreover have "view items yielding ?s = view items yielding s"
    using th by (auto simp: state_defs intro!: sched_eqI)
  ultimately show thesis using assms cur th that by (simp add: thread_block_def s_block_def)
qed

lemma thread_yield_inv:
  assumes inv: "kernel_inv items used s" and "\<not> intr_context P (hw s)"
  obtains s' where "thread_yield P s = Inr s'" and "kernel_inv items used s'"
    and "view items yielding s' = s_yield (view items yielding s)"
proof -
  note core = inv [unfolded kernel_inv_def]
  from kernel_inv_current [OF inv] obtain th where th: "heap s (cpu s) = Some th"
    and cur: "thread_current s = Inr (cpu s)"
    and out: "cpu s \<notin> set (items (ready_list s)) \<union> set (items (ready_list_low s))" by blast
  let ?th = "th\<lparr>status := THREAD_READY,
    frames := in_thread_yield (intr_get_level P (hw s)) # frames th\<rparr>"
  let ?q = "\<lambda>s. if Some (cpu s) \<noteq> idle_thread s then
                if 0 \<le> sint (count th) then s\<lparr>ready_list := list_push_back P (ready_list s) (cpu s)\<rparr>
                else s\<lparr>ready_list_low := list_push_back P (ready_list_low s) (cpu s)\<rparr>
              else s"
  let ?s = "set_thread (cpu s) ?th (?q (intr_off P s))"
  from core_invD(1) [OF core th] have k: "thread_inv items (Some (cpu s)) {} s (cpu s) th" .
  have core': "core_inv items used None {} ?s"
    by (rule core_inv_upd [OF core th, where th' = ?th])
      (use core_invD(2-5,9) [OF core] k out in
        \<open>auto simp: state_defs thread_inv_def is_thread_def WAITING_TIME_def\<close>)
  have "cpu ?s = cpu s" "intr_get_level P (hw ?s) = INTR_OFF" by (simp_all add: state_defs)
  with core' obtain s' where "bind (schedule P ?s) (resume P) = Inr s'" "kernel_inv items used s'"
    "view items yielding s' = pick None (view items yielding ?s)"
    by (elim switch_ok [where dead = None]) (auto simp: state_defs)
  moreover have "pick None (view items yielding ?s) = s_yield (view items yielding s)"
    unfolding s_yield_def
    by (rule arg_cong [where f = "pick None"])
      (use th out in \<open>auto simp: state_defs enqueue_def intro!: sched_eqI\<close>)
  moreover have "thread_yield P s = bind (schedule P ?s) (resume P)"
    using assms cur th by (auto simp: thread_yield_def Let_def state_defs)
  ultimately show thesis using that by simp
qed

lemma thread_exit_inv:
  assumes inv: "kernel_inv items used s" and "\<not> intr_context P (hw s)"
    and not_idle: "idle_thread s \<noteq> Some (cpu s)"
  obtains s' where "thread_exit P s = Inr s'" and "kernel_inv items used s'"
    and "view items yielding s' = s_exit (initial_thread s = Some (cpu s)) (view items yielding s)"
proof -
  note core = inv [unfolded kernel_inv_def]
  from kernel_inv_current [OF inv] obtain th where th: "heap s (cpu s) = Some th"
    and cur: "thread_current s = Inr (cpu s)" and all: "cpu s \<in> set (items (all_list s))" by blast
  let ?th = "th\<lparr>status := THREAD_DYING\<rparr>"
  let ?s = "set_thread (cpu s) ?th
    ((intr_off P (printf (Finished (clock_count s) (tid th)) s))\<lparr>all_list := list_remove P (all_list s) (cpu s)\<rparr>)"
  from core_invD(1) [OF core th] have k: "thread_inv items (Some (cpu s)) {} s (cpu s) th" .
  have core': "core_inv items used None {cpu s} ?s"
    by (rule core_inv_upd [OF core th, where th' = ?th])
      (use core_invD(2-5,9) [OF core] k all not_idle in
        \<open>auto simp: state_defs thread_inv_def is_thread_def\<close>)
  have "cpu ?s = cpu s" "intr_get_level P (hw ?s) = INTR_OFF" by (simp_all add: state_defs)
  with core' obtain s' where "bind (schedule P ?s) (resume P) = Inr s'" "kernel_inv items used s'"
    "view items yielding s' = pick (if initial_thread s = Some (cpu s) then None else Some (cpu s))
      (view items yielding ?s)"
    by (elim switch_ok [where dead = "if initial_thread s = Some (cpu s) then None else Some (cpu s)"])
      (auto simp: state_defs)
  moreover have "view items yielding ?s = view items yielding s"
    using th by (auto simp: state_defs intro!: sched_eqI)
  ultimately show thesis
    using assms cur th that by (simp add: thread_exit_def s_exit_def Let_def state_defs)
qed

subsection \<open>Waking\<close>

lemma thread_unblock_inv:
  assumes inv: "kernel_inv items used s"
    and th: "heap s t = Some th" and blocked: "status th = THREAD_BLOCKED"
  obtains s' where "thread_unblock P t s = Inr s'" and "kernel_inv items used s'"
    and "cpu s' = cpu s" and "intr_get_level P (hw s') = intr_get_level P (hw s)"
    and "view items yielding s' = enqueue t (view items yielding s)"
proof -
  note core = inv [unfolded kernel_inv_def]
  from core_invD(1) [OF core th] have k: "thread_inv items (Some (cpu s)) {} s t th" .
  let ?th = "th\<lparr>status := THREAD_READY\<rparr>"
  from k blocked have out: "t \<notin> set (items (ready_list s))" "t \<notin> set (items (ready_list_low s))"
    and mag: "is_thread th" by (auto simp: thread_inv_def)
  let ?s = "(set_thread t ?th (if sint (count th) < 0
              then s\<lparr>ready_list_low := list_push_back P (ready_list_low s) t\<rparr>
              else s\<lparr>ready_list := list_push_back P (ready_list s) t\<rparr>))"
  have "core_inv items used (Some (cpu s)) {} ?s"
    by (rule core_inv_upd [OF core th, where th' = ?th])
      (use core_invD(2-5,9) [OF core] k out blocked in
        \<open>auto simp: state_defs thread_inv_def is_thread_def WAITING_TIME_def\<close>)
  moreover obtain s' where s': "thread_unblock P t s = Inr s'" "heap s' = heap ?s"
    "ready_list s' = ready_list ?s" "ready_list_low s' = ready_list_low ?s" "all_list s' = all_list ?s"
    "idle_thread s' = idle_thread ?s" "initial_thread s' = initial_thread ?s" "next_tid s' = next_tid ?s"
    "cpu s' = cpu s" "used (hw s') = used (hw s)" "intr_get_level P (hw s') = intr_get_level P (hw s)"
    "thread_ticks s' = thread_ticks s" "yielding (hw s') = yielding (hw s)"
    using th blocked mag by (simp add: thread_unblock_def Let_def state_defs)
  ultimately have "kernel_inv items used s'"
    unfolding kernel_inv_def s'(9) by (elim core_inv_frame) (auto simp: s' state_defs)
  moreover have "view items yielding s' = enqueue t (view items yielding s)"
    using th out by (auto simp: enqueue_def s' state_defs intro!: sched_eqI)
  ultimately show thesis using s' that by blast
qed

subsection \<open>Aging queue B\<close>

lemma age_thread_eq:
  assumes "heap s t = Some th" and "- 128 < sint (count th)"
  shows "age_thread P t s = Inr (if expires th
    then s\<lparr>heap := (heap s)(t \<mapsto> aged th), ready_list := list_push_back P (ready_list s) t,
           ready_list_low := list_remove P (ready_list_low s) t,
           console := console s @ [L2_to_L1 (clock_count s) (tid th)]\<rparr>
    else s\<lparr>heap := (heap s)(t \<mapsto> aged th)\<rparr>)"
  using assms sint_dec [of "count th"]
  by (simp add: age_thread_def aged_def expires_def state_defs Let_def)

lemma age_fold:
  assumes "distinct es" and "set es \<subseteq> set (items (ready_list_low s))"
    and "set es \<inter> set (items (ready_list s)) = {}" and "distinct (items (ready_list_low s))"
    and "\<And>t. t \<in> set es \<Longrightarrow> \<exists>th. heap s t = Some th \<and> - 128 < sint (count th)"
  shows "\<exists>rl ll. fold_res (\<lambda>_. False) (age_thread P) es s =
      Inr (s\<lparr>heap := aged_heap es (heap s), ready_list := rl, ready_list_low := ll,
        console := console s @ map (\<lambda>t. L2_to_L1 (clock_count s) (tid (the (heap s t)))) (promoted es s)\<rparr>) \<and>
    items rl = items (ready_list s) @ promoted es s \<and>
    items ll = filter (\<lambda>t. t \<notin> set (promoted es s)) (items (ready_list_low s))"
  using assms
proof (induction es arbitrary: s)
  case Nil
  have "aged_heap [] (heap s) = heap s" by (simp add: aged_heap_def fun_eq_iff)
  then show ?case
    by (intro exI [of _ "ready_list s"] exI [of _ "ready_list_low s"]) (simp add: promoted_def)
next
  case (Cons e es)
  from Cons.prems(5) [of e] obtain th where th: "heap s e = Some th" and c: "- 128 < sint (count th)"
    by auto
  define s1 where "s1 = (if expires th
    then s\<lparr>heap := (heap s)(e \<mapsto> aged th), ready_list := list_push_back P (ready_list s) e,
           ready_list_low := list_remove P (ready_list_low s) e,
           console := console s @ [L2_to_L1 (clock_count s) (tid th)]\<rparr>
    else s\<lparr>heap := (heap s)(e \<mapsto> aged th)\<rparr>)"
  have step: "age_thread P e s = Inr s1" unfolding s1_def by (rule age_thread_eq [OF th c])
  have e: "e \<notin> set es" "e \<in> set (items (ready_list_low s))" "e \<notin> set (items (ready_list s))"
    using Cons.prems by auto
  have same: "heap s1 t = heap s t" if "t \<noteq> e" for t using that by (simp add: s1_def)
  have same': "heap s1 t = heap s t" if "t \<in> set es" for t using that e(1) same by metis
  have h1: "heap s1 e = Some (aged th)" by (simp add: s1_def)
  have lists: "items (ready_list s1) = items (ready_list s) @ (if expires th then [e] else [])"
      "items (ready_list_low s1) = (if expires th then remove1 e else id) (items (ready_list_low s))"
    using e by (simp_all add: s1_def)
  have prom: "promoted (e # es) s = (if expires th then [e] else []) @ promoted es s1"
    using th same' by (auto simp: promoted_def intro!: filter_cong)
  have "\<exists>rl ll. fold_res (\<lambda>_. False) (age_thread P) es s1 =
      Inr (s1\<lparr>heap := aged_heap es (heap s1), ready_list := rl, ready_list_low := ll,
        console := console s1 @ map (\<lambda>t. L2_to_L1 (clock_count s1) (tid (the (heap s1 t)))) (promoted es s1)\<rparr>) \<and>
    items rl = items (ready_list s1) @ promoted es s1 \<and>
    items ll = filter (\<lambda>t. t \<notin> set (promoted es s1)) (items (ready_list_low s1))"
  proof (rule Cons.IH)
    show "set es \<subseteq> set (items (ready_list_low s1))" "set es \<inter> set (items (ready_list s1)) = {}"
        "distinct (items (ready_list_low s1))" "distinct es"
      using Cons.prems(1-4) e by (auto simp: lists)
    show "\<exists>th. heap s1 t = Some th \<and> - 128 < sint (count th)" if "t \<in> set es" for t
      using that Cons.prems(5) [of t] same' [OF that] by auto
  qed
  then obtain rl ll where run: "fold_res (\<lambda>_. False) (age_thread P) es s1 =
      Inr (s1\<lparr>heap := aged_heap es (heap s1), ready_list := rl, ready_list_low := ll,
        console := console s1 @ map (\<lambda>t. L2_to_L1 (clock_count s1) (tid (the (heap s1 t)))) (promoted es s1)\<rparr>)"
    and rl: "items rl = items (ready_list s1) @ promoted es s1"
    and ll: "items ll = filter (\<lambda>t. t \<notin> set (promoted es s1)) (items (ready_list_low s1))"
    by blast
  have heap: "aged_heap es (heap s1) = aged_heap (e # es) (heap s)"
    using e(1) th h1 same' same by (simp add: aged_heap_def fun_eq_iff)
  have con: "console s1 @ map (\<lambda>t. L2_to_L1 (clock_count s1) (tid (the (heap s1 t)))) (promoted es s1) =
      console s @ map (\<lambda>t. L2_to_L1 (clock_count s) (tid (the (heap s t)))) (promoted (e # es) s)"
    using th e same unfolding prom by (auto simp: s1_def promoted_def)
  have upd: "s1\<lparr>heap := m, ready_list := rl, ready_list_low := ll, console := cs\<rparr> =
      s\<lparr>heap := m, ready_list := rl, ready_list_low := ll, console := cs\<rparr>" for m cs
    by (simp add: s1_def)
  have "fold_res (\<lambda>_. False) (age_thread P) (e # es) s =
      Inr (s\<lparr>heap := aged_heap (e # es) (heap s), ready_list := rl, ready_list_low := ll,
        console := console s @ map (\<lambda>t. L2_to_L1 (clock_count s) (tid (the (heap s t)))) (promoted (e # es) s)\<rparr>)"
    using step run by (simp add: heap con upd)
  moreover have "items rl = items (ready_list s) @ promoted (e # es) s"
    by (simp add: rl lists prom)
  moreover have "items ll = filter (\<lambda>t. t \<notin> set (promoted (e # es) s)) (items (ready_list_low s))"
    using Cons.prems(4) by (auto simp: ll lists prom distinct_remove1_removeAll removeAll_filter_not_eq
        intro!: filter_cong)
  ultimately show ?case by blast
qed

lemma age_low_queue_eq:
  assumes "distinct (items (ready_list_low s))"
    and "set (items (ready_list_low s)) \<inter> set (items (ready_list s)) = {}"
    and counts: "\<And>t. t \<in> set (items (ready_list_low s)) \<Longrightarrow> \<exists>th. heap s t = Some th \<and> - 128 < sint (count th)"
    and fuel: "length (items (ready_list_low s)) \<le> fuel"
  obtains rl ll where "age_low_queue P fuel s =
      Inr (s\<lparr>heap := aged_heap (items (ready_list_low s)) (heap s), ready_list := rl, ready_list_low := ll,
        console := console s @ map (\<lambda>t. L2_to_L1 (clock_count s) (tid (the (heap s t))))
          (promoted (items (ready_list_low s)) s)\<rparr>)"
    and "items rl = items (ready_list s) @ promoted (items (ready_list_low s)) s"
    and "items ll = filter (\<lambda>t. \<not> expires (the (heap s t))) (items (ready_list_low s))"
proof -
  have "age_low_queue P fuel s =
      fold_res (\<lambda>_. False) (age_thread P) (items (ready_list_low s)) s"
    unfolding age_low_queue_def
    by (rule traverse_remove [where the_list = ready_list_low, OF _ assms(1) fuel])
      (auto simp: age_thread_def state_defs Let_def split: if_splits)
  moreover have "filter (\<lambda>t. t \<notin> set (promoted (items (ready_list_low s)) s)) (items (ready_list_low s)) =
      filter (\<lambda>t. \<not> expires (the (heap s t))) (items (ready_list_low s))"
    by (auto simp: promoted_def intro: filter_cong)
  ultimately show thesis
    using age_fold [OF assms(1) subset_refl assms(2,1) counts] that by auto
qed

subsection \<open>The tick\<close>

lemma age_low_queue_inv:
  assumes inv: "kernel_inv items used s" and fuel: "length (items (ready_list_low s)) \<le> fuel"
  obtains rl ll where "age_low_queue P fuel s =
      Inr (s\<lparr>heap := aged_heap (items (ready_list_low s)) (heap s), ready_list := rl, ready_list_low := ll,
        console := console s @ map (\<lambda>t. L2_to_L1 (clock_count s) (tid (the (heap s t))))
          (promoted (items (ready_list_low s)) s)\<rparr>)"
    and "items rl = items (ready_list s) @ promoted (items (ready_list_low s)) s"
    and "items ll = filter (\<lambda>t. \<not> expires (the (heap s t))) (items (ready_list_low s))"
proof -
  note core = inv [unfolded kernel_inv_def]
  have "\<exists>th. heap s t = Some th \<and> - 128 < sint (count th)" if "t \<in> set (items (ready_list_low s))" for t
    using core_invD(7) [OF core that] core_invD(1) [OF core] that
    by (fastforce simp: thread_inv_def WAITING_TIME_def)
  moreover have "set (items (ready_list_low s)) \<inter> set (items (ready_list s)) = {}"
    using core_invD(4) [OF core] by blast
  ultimately show thesis
    using age_low_queue_eq [OF core_invD(3) [OF core] _ _ fuel] that by metis
qed

lemma aged_inv:
  assumes inv: "kernel_inv items used s"
    and rl: "items rl = items (ready_list s) @ promoted (items (ready_list_low s)) s"
    and ll: "items ll = filter (\<lambda>t. \<not> expires (the (heap s t))) (items (ready_list_low s))"
  shows "kernel_inv items used
    (s\<lparr>heap := aged_heap (items (ready_list_low s)) (heap s), ready_list := rl, ready_list_low := ll, console := cs\<rparr>)"
    (is "kernel_inv items used ?s")
proof -
  note core = inv [unfolded kernel_inv_def]
  let ?L = "set (items (ready_list_low s))"
  have dom: "dom (heap ?s) = dom (heap s)" by (auto simp: aged_heap_def dom_def)
  have sets: "set (items rl) = set (items (ready_list s)) \<union> {t \<in> ?L. expires (the (heap s t))}"
      "set (items ll) = {t \<in> ?L. \<not> expires (the (heap s t))}"
    by (auto simp: rl ll promoted_def)
  have "thread_inv items (Some (cpu s)) {} ?s t x" if "heap ?s t = Some x" for t x
  proof (cases "t \<in> ?L")
    case True
    with that obtain th where th: "heap s t = Some th" and x: "x = aged th"
      by (auto simp: aged_heap_def)
    from core_invD(1) [OF core th] have k: "thread_inv items (Some (cpu s)) {} s t th" .
    from k True have "- 24 \<le> sint (count th)" by (simp add: thread_inv_def WAITING_TIME_def)
    with k True th sint_dec [of "count th"] show ?thesis
      by (auto simp: thread_inv_def x sets aged_def expires_def is_thread_def WAITING_TIME_def)
  next
    case False
    with that have "heap s t = Some x" by (simp add: aged_heap_def)
    from core_invD(1) [OF core this] False show ?thesis
      by (simp add: thread_inv_def sets)
  qed
  moreover have "distinct (items rl @ items ll)"
    using core_invD(2-4) [OF core] by (auto simp: rl ll promoted_def)
  moreover have "inj_on (\<lambda>t. tid (the (heap ?s t))) (dom (heap s)) =
      inj_on (\<lambda>t. tid (the (heap s t))) (dom (heap s))"
    by (rule inj_on_cong) (auto simp: aged_heap_def aged_def)
  moreover have "set (items rl) \<union> set (items ll) \<union> set (items (all_list s)) \<subseteq> dom (heap s)"
    using core by (auto simp: sets core_inv_def)
  ultimately show ?thesis
    using core unfolding kernel_inv_def core_inv_def dom by simp
qed

lemma aged_view:
  assumes "kernel_inv items used s"
    and rl: "items rl = items (ready_list s) @ promoted (items (ready_list_low s)) s"
    and ll: "items ll = filter (\<lambda>t. \<not> expires (the (heap s t))) (items (ready_list_low s))"
  shows "view items yielding
    (s\<lparr>heap := aged_heap (items (ready_list_low s)) (heap s), ready_list := rl, ready_list_low := ll, console := cs\<rparr>)
    = s_age (view items yielding s)"
proof -
  note core = assms(1) [unfolded kernel_inv_def]
  have low: "\<exists>th. heap s t = Some th \<and> - 24 \<le> sint (count th)" if "t \<in> set (items (ready_list_low s))" for t
    using core_invD(7) [OF core that] core_invD(1) [OF core] that
    by (fastforce simp: thread_inv_def WAITING_TIME_def)
  have flt: "filter (\<lambda>t. expires (the (heap s t))) (items (ready_list_low s)) =
      filter (\<lambda>t. the (map_option (\<lambda>th. sint (count th)) (heap s t)) \<le> - WAITING_TIME) (items (ready_list_low s))"
    "filter (\<lambda>t. \<not> expires (the (heap s t))) (items (ready_list_low s)) =
      filter (\<lambda>t. \<not> the (map_option (\<lambda>th. sint (count th)) (heap s t)) \<le> - WAITING_TIME) (items (ready_list_low s))"
    using low by (fastforce intro!: filter_cong simp: expires_def)+
  have cnt: "map_option (\<lambda>th. sint (count th)) (aged_heap (items (ready_list_low s)) (heap s) t) =
      (if t \<in> set (items (ready_list_low s))
       then map_option (\<lambda>c. if c \<le> - WAITING_TIME then 0 else c - 1) (map_option (\<lambda>th. sint (count th)) (heap s t))
       else map_option (\<lambda>th. sint (count th)) (heap s t))" for t
  proof (cases "t \<in> set (items (ready_list_low s))")
    case True
    from low [OF this] obtain th where "heap s t = Some th" "- 24 \<le> sint (count th)" by blast
    with True sint_dec [of "count th"] show ?thesis by (simp add: aged_heap_def aged_def expires_def)
  qed (simp add: aged_heap_def)
  show ?thesis
    unfolding s_age_def Let_def
    by (rule sched_eqI) (simp_all add: rl ll promoted_def flt cnt)
qed

lemma preempt_inv:
  assumes inv: "kernel_inv items used s" and ticks: "unat (thread_ticks s) + 1 < 2 ^ 32"
  obtains s' where "preempt P (cpu s) s = Inr s'" and "kernel_inv items used s'"
    and "cpu s' = cpu s" and "view items yielding s' = s_preempt (view items yielding s)"
proof -
  note core = inv [unfolded kernel_inv_def]
  from kernel_inv_current [OF inv] obtain th where th: "heap s (cpu s) = Some th"
    and out: "cpu s \<notin> set (items (ready_list s)) \<union> set (items (ready_list_low s))"
    and c: "- 1 \<le> sint (count th)" "sint (count th) \<le> 1" by blast
  from core_invD(1) [OF core th] have k: "thread_inv items (Some (cpu s)) {} s (cpu s) th" .
  have new: "core_inv items used (Some (cpu s)) {} (set_thread (cpu s) (th\<lparr>count := n\<rparr>) s)"
    if "- 1 \<le> sint n" "sint n \<le> 1" for n
    using core_invD(2-5,9) [OF core] k out that
      core_inv_upd [OF core th, of "set_thread (cpu s) (th\<lparr>count := n\<rparr>) s" "th\<lparr>count := n\<rparr>" "Some (cpu s)" "{}"]
    by (auto simp: state_defs thread_inv_def is_thread_def)
  have frame: "kernel_inv items used s'"
    if "core_inv items used (Some (cpu s)) {} s1" "heap s' = heap s1" "ready_list s' = ready_list s1"
      "ready_list_low s' = ready_list_low s1" "all_list s' = all_list s1" "idle_thread s' = idle_thread s1"
      "initial_thread s' = initial_thread s1" "next_tid s' = next_tid s1" "cpu s' = cpu s1" "cpu s1 = cpu s"
      "used (hw s1) \<subseteq> used (hw s')" for s1 s'
    using that core_inv_frame [OF that(1), of s'] by (simp add: kernel_inv_def)
  have inc: "sint (count th + 1) = sint (count th) + 1" using c by (intro sint_inc) simp
  have ticks': "unat (thread_ticks s + 1) = Suc (unat (thread_ticks s))"
    using ticks by (simp add: unat_word_ariths)
  have slices: "TIME_SLICE \<le> thread_ticks s + 1 \<longleftrightarrow> 4 \<le> Suc (unat (thread_ticks s))"
      "TIME_SLICE_LOW \<le> thread_ticks s + 1 \<longleftrightarrow> 8 \<le> Suc (unat (thread_ticks s))"
    by (simp_all add: word_le_nat_alt ticks' TIME_SLICE_def TIME_SLICE_LOW_def)
  have view: "view items yielding (projr (preempt P (cpu s) s)) = s_preempt (view items yielding s)"
    using th inc
    by (auto simp: preempt_def s_preempt_def Let_def state_defs slices ticks' intro!: sched_eqI)
  show thesis
  proof (cases "sint (count th) < 0 \<or> \<not> TIME_SLICE \<le> thread_ticks s + 1")
    case True
    with th view show thesis
      by (intro that [of "projr (preempt P (cpu s) s)"] frame [OF core])
        (auto simp: preempt_def Let_def state_defs)
  next
    case False
    show thesis
    proof (cases "1 \<le> sint (count th)")
      case True
      with False th view show thesis
        by (intro that [of "projr (preempt P (cpu s) s)"] frame [OF new [of "-1"]])
          (auto simp: preempt_def Let_def state_defs)
    next
      case low: False
      with False th inc view show thesis
        by (intro that [of "projr (preempt P (cpu s) s)"] frame [OF new [of "count th + 1"]])
          (auto simp: preempt_def Let_def state_defs)
    qed
  qed
qed

lemma count_tick_inv:
  assumes inv: "kernel_inv items used s" and "clock_room s"
  obtains s' where "count_tick cur s = Inr s'" and "kernel_inv items used s'"
    and "s' = s\<lparr>idle_ticks := idle_ticks s', kernel_ticks := kernel_ticks s', clock_count := clock_count s + 1\<rparr>"
proof -
  let ?s = "s\<lparr>idle_ticks := (if Some cur = idle_thread s then idle_ticks s + 1 else idle_ticks s),
    kernel_ticks := (if Some cur = idle_thread s then kernel_ticks s else kernel_ticks s + 1),
    clock_count := clock_count s + 1\<rparr>"
  have "count_tick cur s = Inr ?s" using assms(2) by (simp add: count_tick_def sinc_def clock_room_def)
  moreover have "kernel_inv items used ?s"
    using inv unfolding kernel_inv_def by (auto elim: core_inv_frame)
  ultimately show thesis by (intro that [of ?s]) simp_all
qed

lemma thread_tick_inv:
  assumes inv: "kernel_inv items used s" and room: "clock_room s"
    and fuel: "length (items (ready_list_low s)) \<le> fuel"
  obtains s' where "thread_tick P fuel s = Inr s'" and "kernel_inv items used s'" and "cpu s' = cpu s"
    and "view items yielding s' = s_tick (view items yielding s)"
proof -
  from kernel_inv_current [OF inv] have cur: "thread_current s = Inr (cpu s)" by blast
  from count_tick_inv [OF inv room] obtain s1 where s1: "count_tick (cpu s) s = Inr s1"
    "kernel_inv items used s1" and eq: "s1 = s\<lparr>idle_ticks := idle_ticks s1, kernel_ticks := kernel_ticks s1,
      clock_count := clock_count s + 1\<rparr>" .
  have same: "cpu s1 = cpu s" "ready_list_low s1 = ready_list_low s" "thread_ticks s1 = thread_ticks s"
    "view items yielding s1 = view items yielding s"
    by (subst eq, simp add: view_def)+
  from kernel_inv_current [OF s1(2)] obtain th where th: "heap s1 (cpu s) = Some th"
    unfolding same by blast
  have c: "the (cnt (view items yielding s) (cpu s)) = sint (count th)"
    using th unfolding same(4) [symmetric] by simp
  obtain s2 where s2: "(if 0 \<le> sint (count th) then age_low_queue P fuel s1 else Inr s1) = Inr s2"
    "kernel_inv items used s2" "cpu s2 = cpu s" "thread_ticks s2 = thread_ticks s"
    "view items yielding s2 = (if 0 \<le> sint (count th) then s_age (view items yielding s) else view items yielding s)"
  proof (cases "0 \<le> sint (count th)")
    case True
    from fuel have "length (items (ready_list_low s1)) \<le> fuel" by (simp add: same)
    from age_low_queue_inv [OF s1(2) this] obtain rl ll where
      age: "age_low_queue P fuel s1 = Inr (s1\<lparr>heap := aged_heap (items (ready_list_low s1)) (heap s1),
        ready_list := rl, ready_list_low := ll,
        console := console s1 @ map (\<lambda>t. L2_to_L1 (clock_count s1) (tid (the (heap s1 t))))
          (promoted (items (ready_list_low s1)) s1)\<rparr>)" (is "_ = Inr ?s2")
      and "items rl = items (ready_list s1) @ promoted (items (ready_list_low s1)) s1"
      and "items ll = filter (\<lambda>t. \<not> expires (the (heap s1 t))) (items (ready_list_low s1))" .
    from aged_inv [OF s1(2) this(2,3)] aged_view [OF s1(2) this(2,3)] age True same show thesis
      by (intro that [of ?s2]) simp_all
  qed (use s1 same that in simp)
  from room have "unat (thread_ticks s2) + 1 < 2 ^ 32" by (simp add: s2(4) clock_room_def)
  from preempt_inv [OF s2(2) this] obtain s3 where "preempt P (cpu s) s2 = Inr s3" "kernel_inv items used s3"
    "cpu s3 = cpu s" "view items yielding s3 = s_preempt (view items yielding s2)"
    unfolding s2(3) .
  with cur s1 th s2 c that show thesis by (simp add: thread_tick_def s_tick_def)
qed

subsection \<open>Creating a thread\<close>

lemma thread_create_eq:
  assumes "PRI_MIN \<le> prio" and "prio \<le> PRI_MAX" and "next_tid s + 1 < 2 ^ 31"
    and page: "palloc_get_page P (hw s) = (Some t, h)"
  shows "thread_create P (Some nm) prio (Some f) aux s =
    bind (thread_unblock P t
      (s\<lparr>all_list := list_push_back P (all_list s) t, next_tid := next_tid s + 1,
         heap := (heap s)(t \<mapsto> new_thread P t (next_tid s) nm prio f aux),
         hw := intr_set_level P (intr_get_level P h) (snd (intr_disable P h)),
         console := console s @ [Created (clock_count s) (next_tid s)]\<rparr>))
    (\<lambda>s'. Inr (next_tid s, s'))"
  using assms
  by (simp add: thread_create_def init_thread_def allocate_tid_def sinc_def alloc_frame_def state_defs
      is_thread_def new_thread_def sizeof_kernel_thread_frame_def Let_def)

lemma create_prepared_inv:
  assumes inv: "kernel_inv items used s"
    and p: "p \<notin> used (hw s)" and h: "used h = insert p (used (hw s))"
    and x: "is_thread x" "tid x = next_tid s" "status x = THREAD_BLOCKED" "resumable (frames x)" "count x = 0"
  shows "kernel_inv items used
    (s\<lparr>all_list := list_push_back P (all_list s) p, next_tid := next_tid s + 1,
       heap := (heap s)(p \<mapsto> x), hw := h, console := cs\<rparr>)" (is "kernel_inv items used ?s")
proof -
  note core = inv [unfolded kernel_inv_def]
  have tids: "1 \<le> next_tid s"
    using core core_invD(1) [OF core] by (fastforce simp: core_inv_def thread_inv_def)
  have new: "p \<notin> dom (heap s)" using core p by (auto simp: core_inv_def)
  with core have out: "p \<notin> set (items (all_list s))" "p \<notin> set (items (ready_list s))"
      "p \<notin> set (items (ready_list_low s))" "cpu s \<noteq> p" "p \<noteq> cpu s"
    by (auto simp: core_inv_def)
  have all: "items (list_push_back P (all_list s) p) = items (all_list s) @ [p]" using out by simp
  have "thread_inv items (Some (cpu s)) {} ?s t y" if "heap ?s t = Some y" for t y
  proof (cases "t = p")
    case True
    with that x out tids show ?thesis by (simp add: thread_inv_def all)
  next
    case False
    with that have "heap s t = Some y" by simp
    from core_invD(1) [OF core this] False show ?thesis by (simp add: thread_inv_def all)
  qed
  moreover have "inj_on (\<lambda>t. tid (the (heap ?s t))) (dom (heap ?s))"
  proof -
    have less: "tid (the (heap s t)) < next_tid s" if "t \<in> dom (heap s)" for t
      using core_invD(1) [OF core] that by (fastforce simp: thread_inv_def)
    have "inj_on (\<lambda>t. tid (the (heap ?s t))) (dom (heap s))"
      using core new by (subst inj_on_cong [where g = "\<lambda>t. tid (the (heap s t))"]) (auto simp: core_inv_def)
    moreover have "tid (the (heap ?s p)) \<notin> (\<lambda>t. tid (the (heap ?s t))) ` (dom (heap s))"
    proof
      assume "tid (the (heap ?s p)) \<in> (\<lambda>t. tid (the (heap ?s t))) ` (dom (heap s))"
      then obtain t where t: "t \<in> dom (heap s)" "tid (the (heap ?s p)) = tid (the (heap ?s t))" by blast
      with new have "t \<noteq> p" by blast
      with t less [of t] x(2) show False by simp
    qed
    moreover have "dom (heap ?s) = insert p (dom (heap s))" by simp
    ultimately show ?thesis using new by (simp add: Diff_insert_absorb)
  qed
  ultimately show ?thesis
    using core out unfolding kernel_inv_def core_inv_def by (auto simp: all h)
qed

lemma thread_create_inv:
  assumes inv: "kernel_inv items used s" and tids: "next_tid s + 1 < 2 ^ 31"
    and prio: "PRI_MIN \<le> prio" "prio \<le> PRI_MAX"
  obtains r s' where "thread_create P (Some nm) prio (Some f) aux s = Inr (r, s')"
    and "kernel_inv items used s'" and "cpu s' = cpu s"
    and "r = (if fst (palloc_get_page P (hw s)) = None then TID_ERROR else next_tid s)"
    and "view items yielding s' = (case fst (palloc_get_page P (hw s)) of
           None \<Rightarrow> view items yielding s
         | Some p \<Rightarrow> (view items yielding s)\<lparr>hi := items (ready_list s) @ [p],
             cnt := (cnt (view items yielding s))(p \<mapsto> 0)\<rparr>)"
proof (cases "palloc_get_page P (hw s)")
  case page: (Pair po h)
  show thesis
  proof (cases po)
    case None
    with page have "thread_create P (Some nm) prio (Some f) aux s = Inr (TID_ERROR, s\<lparr>hw := h\<rparr>)"
      by (simp add: thread_create_def)
    moreover have "kernel_inv items used (s\<lparr>hw := h\<rparr>)"
      using inv get_page_None [of "hw s" h] page None unfolding kernel_inv_def
      by (auto elim!: core_inv_frame)
    moreover have "view items yielding (s\<lparr>hw := h\<rparr>) = view items yielding s"
      using get_page_yielding [of "hw s"] page by (simp add: view_def)
    ultimately show thesis using page None by (intro that [of TID_ERROR "s\<lparr>hw := h\<rparr>"]) auto
  next
    case (Some p)
    let ?x = "new_thread P p (next_tid s) nm prio f aux"
    let ?h = "intr_set_level P (intr_get_level P h) (snd (intr_disable P h))"
    let ?s = "s\<lparr>all_list := list_push_back P (all_list s) p, next_tid := next_tid s + 1,
      heap := (heap s)(p \<mapsto> ?x), hw := ?h, console := console s @ [Created (clock_count s) (next_tid s)]\<rparr>"
    from get_page_Some [of "hw s" p h] page Some have "p \<notin> used (hw s)" "used ?h = insert p (used (hw s))"
      by simp_all
    then have "kernel_inv items used ?s"
      by (intro create_prepared_inv [OF inv]) (simp_all add: new_thread_def is_thread_def)
    moreover have "heap ?s p = Some ?x" "status ?x = THREAD_BLOCKED" by (simp_all add: new_thread_def)
    ultimately obtain s' where "thread_unblock P p ?s = Inr s'" "kernel_inv items used s'" "cpu s' = cpu ?s"
      "view items yielding s' = enqueue p (view items yielding ?s)"
      using thread_unblock_inv [of ?s p ?x] by metis
    moreover have "enqueue p (view items yielding ?s) = (view items yielding s)\<lparr>hi := items (ready_list s) @ [p],
        cnt := (cnt (view items yielding s))(p \<mapsto> 0)\<rparr>"
      using get_page_yielding [of "hw s"] page by (auto simp: enqueue_def new_thread_def intro!: sched_eqI)
    ultimately show thesis
      using thread_create_eq [OF prio tids, of p h nm f aux] page Some
      by (intro that [of "next_tid s" s']) simp_all
  qed
qed

text \<open>The first state: only the boot thread runs.  The idle thread is not there yet.\<close>

lemma thread_init_eq:
  assumes "intr_get_level P (hw s) = INTR_OFF" and "next_tid s = 1"
  shows "thread_init P s = Inr (s\<lparr>ready_list := list_init P, ready_list_low := list_init P,
    initial_thread := Some (cpu s), all_list := list_push_back P (list_init P) (cpu s), next_tid := 2,
    heap := (heap s)(cpu s \<mapsto>
      \<lparr>tid = 1, status = THREAD_RUNNING, name = ''main'', stack = cpu s + PGSIZE P, priority = PRI_DEFAULT,
       count = 0, magic = THREAD_MAGIC, frames = []\<rparr>)\<rparr>)"
  using assms
  by (simp add: thread_init_def init_thread_def allocate_tid_def sinc_def state_defs Let_def
      PRI_MIN_def PRI_MAX_def PRI_DEFAULT_def)

end

end
