(* ===== verification/Mlfq_Props.thy ===== *)
theory Mlfq_Props
  imports Mlfq_Safe
begin

text \<open>
  The two-level scheduler as a running system: how it boots, the steps it makes, and the
  properties that hold along every run.
\<close>

subsection \<open>Boot\<close>

text \<open>
  From the loader to the idle thread's loop: `thread_init`, `thread_start` up to its
  `sema_down` on a semaphore of value 0, which blocks the initial thread, then the
  idle thread's first code with the `sema_up` that wakes it.
\<close>

definition boot :: "('l, 'h) pintos \<Rightarrow> addr \<Rightarrow> addr \<Rightarrow> ('l, 'h) kernel \<Rightarrow> ('l, 'h) kernel res" where
  "boot P idle_code idle_started s =
     bind (thread_init P s) (\<lambda>s1.
     bind (thread_start P idle_code idle_started (\<lambda>s. thread_block P (intr_off P s)) s1)
     (idle_begin (thread_unblock P (cpu s))))"

text \<open>What the loader leaves: interrupts off, no thread, a page for the boot stack.\<close>

definition loaded :: "('l, 'h) pintos \<Rightarrow> ('h \<Rightarrow> addr set) \<Rightarrow> ('l, 'h) kernel \<Rightarrow> bool" where
  "loaded P used s \<longleftrightarrow> intr_get_level P (hw s) = INTR_OFF \<and> \<not> intr_context P (hw s) \<and>
     heap s = Map.empty \<and> next_tid s = 1 \<and> idle_thread s = None \<and> cpu s \<in> used (hw s) \<and>
     fst (palloc_get_page P (hw s)) \<noteq> None"

subsection \<open>Steps\<close>

datatype op =
    Tick | Yield | Block | Unblock addr | Create "string option" int "addr option" addr | Exit
  | Set_priority int | Machine

text \<open>
  One step of the system: an operation of the running thread, the timer interrupt, or the machine (interrupts
  masked or taken, pages used by others).  The running thread exits only if it is not the idle
  thread, whose code is an endless loop.  Fuel for the tick is as long as queue B.
\<close>

inductive mlfq_step ::
  "('l, 'h) pintos \<Rightarrow> ('l \<Rightarrow> addr list) \<Rightarrow> ('h \<Rightarrow> addr set) \<Rightarrow> op \<Rightarrow> ('l, 'h) kernel \<Rightarrow> ('l, 'h) kernel \<Rightarrow> bool"
  for P :: "('l, 'h) pintos" and items :: "'l \<Rightarrow> addr list" and used :: "'h \<Rightarrow> addr set"
where
  tick: "clock_room s \<Longrightarrow> length (items (ready_list_low s)) \<le> n \<Longrightarrow> thread_tick P n s = Inr s'
    \<Longrightarrow> mlfq_step P items used Tick s s'"
| yield: "thread_yield P s = Inr s' \<Longrightarrow> mlfq_step P items used Yield s s'"
| block: "thread_block P s = Inr s' \<Longrightarrow> mlfq_step P items used Block s s'"
| unblock: "thread_unblock P t s = Inr s' \<Longrightarrow> mlfq_step P items used (Unblock t) s s'"
| create: "thread_create P nm prio f aux s = Inr (r, s')
    \<Longrightarrow> mlfq_step P items used (Create nm prio f aux) s s'"
| exit: "idle_thread s \<noteq> Some (cpu s) \<Longrightarrow> thread_exit P s = Inr s' \<Longrightarrow> mlfq_step P items used Exit s s'"
| set_priority: "thread_set_priority p s = Inr s' \<Longrightarrow> mlfq_step P items used (Set_priority p) s s'"
| machine: "used (hw s) \<subseteq> used h \<Longrightarrow> mlfq_step P items used Machine s (s\<lparr>hw := h\<rparr>)"

inductive_cases tickE: "mlfq_step P items used Tick s s'"

definition mlfq_start ::
  "('l, 'h) pintos \<Rightarrow> ('h \<Rightarrow> addr set) \<Rightarrow> ('l, 'h) kernel \<Rightarrow> bool"
where
  "mlfq_start P used s \<longleftrightarrow> (\<exists>s0 code aux. loaded P used s0 \<and> boot P code aux s0 = Inr s)"

context pintos_kernel
begin

lemma thread_unblock_eq:
  assumes "heap s t = Some th" and "status th = THREAD_BLOCKED" and "is_thread th" and "count th = 0"
  shows "thread_unblock P t s = Inr (s\<lparr>ready_list := list_push_back P (ready_list s) t,
    heap := (heap s)(t \<mapsto> th\<lparr>status := THREAD_READY\<rparr>),
    hw := intr_set_level P (intr_get_level P (hw s)) (snd (intr_disable P (hw s))),
    console := console s @ [Blocked_to_L1 (clock_count s) (tid th)]\<rparr>)"
  using assms by (simp add: thread_unblock_def state_defs Let_def)

text \<open>The first switch: the initial thread blocks and the idle thread starts.\<close>

lemma first_switch:
  assumes ready: "items (ready_list s) = [p]" and off: "intr_get_level P (hw s) = INTR_OFF"
    and ctx: "\<not> intr_context P (hw s)"
    and main: "heap s (cpu s) = Some m" "is_thread m" "status m = THREAD_RUNNING"
    and new: "heap s p = Some x" "is_thread x" "count x = 0" "p \<noteq> cpu s"
      "frames x = switch_threads_frame switch_entry_code 0 # switch_entry_frame kernel_thread_code
        # kernel_thread_frame None (Some f) aux # fs"
  obtains l where "items l = []" and "thread_block P s = Inr (s\<lparr>ready_list := l,
      heap := (heap s)(cpu s \<mapsto> m\<lparr>status := THREAD_BLOCKED, frames := in_thread_block # frames m\<rparr>,
        p \<mapsto> x\<lparr>status := THREAD_RUNNING, frames := fs\<rparr>),
      thread_ticks := 0, cpu := p, hw := intr_enable P (hw s)\<rparr>)"
proof -
  from pop_Cons [OF ready] obtain l where l: "list_pop_front P (ready_list s) = (p, l)" "items l = []" .
  have "thread_current s = Inr (cpu s)" using main by (simp add: thread_current_def running_thread_def)
  with l assms have "thread_block P s = Inr (s\<lparr>ready_list := l,
      heap := (heap s)(cpu s \<mapsto> m\<lparr>status := THREAD_BLOCKED, frames := in_thread_block # frames m\<rparr>,
        p \<mapsto> x\<lparr>status := THREAD_RUNNING, frames := fs\<rparr>),
      thread_ticks := 0, cpu := p, hw := intr_enable P (hw s)\<rparr>)"
    by (simp add: thread_block_def schedule_def next_thread_to_run_def thread_schedule_tail_def resume_def
        kernel_thread_def state_defs Let_def)
  with l(2) that show thesis by blast
qed

text \<open>Two threads, the first ready and the second, the idle thread, running.\<close>

lemma two_threads_inv:
  assumes heap: "heap z = [c \<mapsto> m, p \<mapsto> x]" and ne: "c \<noteq> p"
    and lists: "items (ready_list z) = [c]" "items (ready_list_low z) = []" "items (all_list z) = [c, p]"
    and z: "cpu z = p" "idle_thread z = Some p" "next_tid z = 3" "{c, p} \<subseteq> used (hw z)"
    and m: "is_thread m" "tid m = 1" "status m = THREAD_READY" "count m = 0" "resumable (frames m)"
    and x: "is_thread x" "tid x = 2" "status x = THREAD_RUNNING" "count x = 0"
  shows "kernel_inv items used z"
proof -
  have "thread_inv items (Some p) {} z t th" if "heap z t = Some th" for t th
    using that ne m x z lists by (cases "t = p"; cases "t = c") (auto simp: thread_inv_def heap WAITING_TIME_def)
  moreover have "dom (heap z) = {c, p}" by (auto simp: heap)
  moreover have "inj_on (\<lambda>t. tid (the (heap z t))) {c, p}" using ne m x by (auto simp: heap inj_on_def)
  ultimately show ?thesis
    using ne lists z unfolding kernel_inv_def core_inv_def by simp
qed

lemma boot_inv:
  assumes "loaded P used s"
  obtains p s' where "boot P code aux s = Inr s'" and "kernel_inv items used s'"
    and "fst (palloc_get_page P (hw s)) = Some p" and "cpu s' = p" and "idle_thread s' = Some p"
    and "items (ready_list s') = [cpu s]" and "items (ready_list_low s') = []"
    and "items (all_list s') = [cpu s, p]" and "intr_get_level P (hw s') = INTR_ON"
proof -
  from assms have off: "intr_get_level P (hw s) = INTR_OFF" and ctx: "\<not> intr_context P (hw s)"
    and empty: "heap s = Map.empty" and tid: "next_tid s = 1" and idle: "idle_thread s = None"
    and cpu: "cpu s \<in> used (hw s)" by (auto simp: loaded_def)
  from assms obtain p h where page: "palloc_get_page P (hw s) = (Some p, h)"
    by (cases "palloc_get_page P (hw s)") (auto simp: loaded_def)
  from get_page_Some [OF page] cpu have p: "p \<noteq> cpu s" "cpu s \<noteq> p" "used h = insert p (used (hw s))" by auto
  have hh: "intr_get_level P h = INTR_OFF" "\<not> intr_context P h"
    using get_page_level [of "hw s"] get_page_context [of "hw s"] off ctx page by simp_all
  define main where "main = \<lparr>tid = 1, status = THREAD_RUNNING, name = ''main'', stack = cpu s + PGSIZE P,
    priority = PRI_DEFAULT, count = 0, magic = THREAD_MAGIC, frames = []\<rparr>"
  define s1 where "s1 = s\<lparr>ready_list := list_init P, ready_list_low := list_init P,
    initial_thread := Some (cpu s), all_list := list_push_back P (list_init P) (cpu s), next_tid := 2,
    heap := (heap s)(cpu s \<mapsto> main)\<rparr>"
  have init: "thread_init P s = Inr s1" unfolding s1_def main_def by (rule thread_init_eq [OF off tid])
  define x where "x = new_thread P p 2 ''idle'' PRI_MIN code aux"
  define s2 where "s2 = s1\<lparr>all_list := list_push_back P (all_list s1) p, next_tid := 3,
         heap := (heap s1)(p \<mapsto> x), hw := intr_set_level P (intr_get_level P h) (snd (intr_disable P h)),
         console := console s1 @ [Created (clock_count s1) 2]\<rparr>"
  have x: "status x = THREAD_BLOCKED" "is_thread x" "count x = 0" "tid x = 2"
    by (simp_all add: x_def new_thread_def is_thread_def)
  have create: "thread_create P (Some ''idle'') PRI_MIN (Some code) aux s1 =
      bind (thread_unblock P p s2) (\<lambda>s'. Inr (2, s'))"
    using thread_create_eq [of PRI_MIN s1 p h "''idle''" code aux] page
    by (simp add: s1_def s2_def x_def PRI_MIN_def PRI_MAX_def)
  define s3 where "s3 = s2\<lparr>ready_list := list_push_back P (ready_list s2) p,
    heap := (heap s2)(p \<mapsto> x\<lparr>status := THREAD_READY\<rparr>),
    hw := intr_set_level P (intr_get_level P (hw s2)) (snd (intr_disable P (hw s2))),
    console := console s2 @ [Blocked_to_L1 (clock_count s2) (tid x)]\<rparr>"
  have unblock: "thread_unblock P p s2 = Inr s3"
    unfolding s3_def by (rule thread_unblock_eq) (simp_all add: s2_def x)
  define s4 where "s4 = intr_off P (s3\<lparr>hw := intr_enable P (hw s3)\<rparr>)"
  have s4: "items (ready_list s4) = [p]" "intr_get_level P (hw s4) = INTR_OFF" "\<not> intr_context P (hw s4)"
    "cpu s4 = cpu s" "heap s4 (cpu s) = Some main" "heap s4 p = Some (x\<lparr>status := THREAD_READY\<rparr>)"
    "items (ready_list_low s4) = []" "items (all_list s4) = [cpu s, p]"
    "heap s4 = [cpu s \<mapsto> main, p \<mapsto> x\<lparr>status := THREAD_READY\<rparr>]" "used (hw s4) = insert p (used (hw s))"
    "next_tid s4 = 3" "initial_thread s4 = Some (cpu s)"
    using hh p empty by (simp_all add: s4_def s3_def s2_def s1_def state_defs)
  from first_switch [OF s4(1-3), of main "x\<lparr>status := THREAD_READY\<rparr>" code aux "[]"] s4 p x
  obtain l where l: "items l = []" and block: "thread_block P s4 = Inr (s4\<lparr>ready_list := l,
      heap := (heap s4)(cpu s \<mapsto> main\<lparr>status := THREAD_BLOCKED, frames := [in_thread_block]\<rparr>,
        p \<mapsto> x\<lparr>status := THREAD_RUNNING, frames := []\<rparr>),
      thread_ticks := 0, cpu := p, hw := intr_enable P (hw s4)\<rparr>)" (is "_ = Inr ?s5")
    by (auto simp: main_def is_thread_def x_def new_thread_def)
  let ?s6 = "?s5\<lparr>idle_thread := Some p\<rparr>"
  let ?m = "main\<lparr>status := THREAD_BLOCKED, frames := [in_thread_block]\<rparr>"
  have wake: "thread_unblock P (cpu s) ?s6 = Inr (?s6\<lparr>ready_list := list_push_back P l (cpu s),
    heap := (heap ?s6)(cpu s \<mapsto> ?m\<lparr>status := THREAD_READY\<rparr>),
    hw := intr_set_level P (intr_get_level P (hw ?s6)) (snd (intr_disable P (hw ?s6))),
    console := console ?s6 @ [Blocked_to_L1 (clock_count ?s6) (tid ?m)]\<rparr>)" (is "_ = Inr ?s7")
    using thread_unblock_eq [of ?s6 "cpu s" ?m] p by (simp add: main_def is_thread_def)
  have "thread_current ?s5 = Inr p"
    using x by (simp add: thread_current_def running_thread_def is_thread_def)
  then have run: "boot P code aux s = Inr ?s7"
    using init create unblock block wake
    by (simp add: boot_def thread_start_def idle_begin_def s4_def)
  have lists: "items (ready_list ?s7) = [cpu s]" "items (ready_list_low ?s7) = []"
      "items (all_list ?s7) = [cpu s, p]"
    and hw: "used (hw ?s7) = insert p (used (hw s))"
    and rest: "cpu ?s7 = p" "idle_thread ?s7 = Some p" "next_tid ?s7 = 3"
      "intr_get_level P (hw ?s7) = INTR_ON"
    using l s4 by simp_all
  have heap: "heap ?s7 = [cpu s \<mapsto> ?m\<lparr>status := THREAD_READY\<rparr>, p \<mapsto> x\<lparr>status := THREAD_RUNNING, frames := []\<rparr>]"
    using s4(9) p by (auto simp: fun_eq_iff)
  have pages: "{cpu s, p} \<subseteq> used (hw ?s7)" unfolding hw using cpu by blast
  have "kernel_inv items used ?s7"
    using x by (intro two_threads_inv [OF heap p(2) lists rest(1-3) pages]) (simp_all add: main_def is_thread_def)
  with run lists rest page that show thesis by auto
qed

subsection \<open>Every step keeps the invariant\<close>

lemma thread_create_Inr:
  assumes "thread_create P nm prio f aux s = Inr (r, s')"
  obtains (none) h where "palloc_get_page P (hw s) = (None, h)" and "s' = s\<lparr>hw := h\<rparr>"
  | (some) n c where "nm = Some n" and "f = Some c" and "PRI_MIN \<le> prio" and "prio \<le> PRI_MAX"
      and "next_tid s + 1 < 2 ^ 31"
proof (cases "palloc_get_page P (hw s)")
  case (Pair po h)
  show thesis
  proof (cases po)
    case None
    with Pair assms none show thesis by (auto simp: thread_create_def)
  next
    case (Some p)
    with Pair assms have "f \<noteq> None" "nm \<noteq> None" "PRI_MIN \<le> prio" "prio \<le> PRI_MAX" "next_tid s + 1 < 2 ^ 31"
      by (auto simp: thread_create_def init_thread_def allocate_tid_def sinc_def state_defs
          split: option.splits if_splits)
    with some show thesis by auto
  qed
qed

lemma mlfq_step_inv:
  assumes "mlfq_step P items used op s s'" and inv: "kernel_inv items used s"
  shows "kernel_inv items used s'"
  using assms(1)
proof cases
  case (tick n)
  from thread_tick_inv [OF inv tick(2,3)] obtain t where "thread_tick P n s = Inr t" "kernel_inv items used t" .
  with tick show ?thesis by simp
next
  case yield
  then have "\<not> intr_context P (hw s)" by (auto simp: thread_yield_def)
  from thread_yield_inv [OF inv this] obtain t where "thread_yield P s = Inr t" "kernel_inv items used t" .
  with yield show ?thesis by simp
next
  case block
  then have "\<not> intr_context P (hw s)" "intr_get_level P (hw s) = INTR_OFF" by (auto simp: thread_block_def)
  from thread_block_inv [OF inv this] obtain t where "thread_block P s = Inr t" "kernel_inv items used t" .
  with block show ?thesis by simp
next
  case (unblock t)
  then obtain th where "heap s t = Some th" "status th = THREAD_BLOCKED" by (auto simp: thread_unblock_def Let_def)
  from thread_unblock_inv [OF inv this] obtain u where "thread_unblock P t s = Inr u" "kernel_inv items used u" .
  with unblock show ?thesis by simp
next
  case (create nm prio f aux r)
  from create(2) show ?thesis
  proof (cases rule: thread_create_Inr)
    case (none h)
    with inv get_page_None [of "hw s" h] show ?thesis
      unfolding kernel_inv_def by (auto elim!: core_inv_frame)
  next
    case (some n c)
    from thread_create_inv [OF inv some(5,3,4), of n c aux] obtain r' t
      where "thread_create P (Some n) prio (Some c) aux s = Inr (r', t)" "kernel_inv items used t" .
    with create some show ?thesis by simp
  qed
next
  case exit
  then have "\<not> intr_context P (hw s)" by (auto simp: thread_exit_def)
  from thread_exit_inv [OF inv this exit(2)] obtain t where "thread_exit P s = Inr t" "kernel_inv items used t" .
  with exit show ?thesis by simp
next
  case (set_priority p)
  note core = inv [unfolded kernel_inv_def]
  from kernel_inv_current [OF inv] obtain th where th: "heap s (cpu s) = Some th"
    and cur: "thread_current s = Inr (cpu s)" by blast
  from core_invD(1) [OF core th] have k: "thread_inv items (Some (cpu s)) {} s (cpu s) th" .
  from set_priority(2) th cur have s': "s' = set_thread (cpu s) (th\<lparr>priority := p\<rparr>) s"
    by (simp add: thread_set_priority_def)
  have "core_inv items used (Some (cpu s)) {} s'"
    by (rule core_inv_upd [OF core th, where th' = "th\<lparr>priority := p\<rparr>"])
      (use core_invD(2-5,9) [OF core] k in \<open>auto simp: s' state_defs thread_inv_def is_thread_def\<close>)
  then show ?thesis by (simp add: kernel_inv_def s' state_defs)
next
  case (machine h)
  with inv show ?thesis unfolding kernel_inv_def by (auto elim!: core_inv_frame)
qed

end

sublocale pintos_kernel \<subseteq> mlfq: transition_system
  "mlfq_start P used" "\<lambda>s s'. \<exists>op. mlfq_step P items used op s s'" "kernel_inv items used"
proof unfold_locales
  fix s
  assume "mlfq_start P used s"
  then obtain s0 code aux where "loaded P used s0" "boot P code aux s0 = Inr s" by (auto simp: mlfq_start_def)
  with boot_inv [of s0 code aux] show "kernel_inv items used s" by auto
next
  fix s t
  assume "kernel_inv items used s" "\<exists>op. mlfq_step P items used op s t"
  then show "kernel_inv items used t" using mlfq_step_inv by blast
qed

end
