(* ===== verification/Mlfq_Sim.thy ===== *)
theory Mlfq_Sim
  imports Mlfq_Props
begin

text \<open>
  The system as a refinement of the abstract scheduler of `Mlfq_Spec`: every step of the kernel is, through
  the view, the abstract step of the same operation.
\<close>

text \<open>
  A call of `thread_create` may find no page, and otherwise adds a thread unknown before; what the machine does may only ask for
  a switch.
\<close>

inductive sched_step :: "op \<Rightarrow> sched \<Rightarrow> sched \<Rightarrow> bool" where
  sched_tick: "sched_step Tick q (s_tick q)"
| sched_yield: "sched_step Yield q (s_yield q)"
| sched_block: "sched_step Block q (s_block q)"
| sched_unblock: "cnt q t \<noteq> None \<Longrightarrow> sched_step (Unblock t) q (enqueue t q)"
| sched_create: "cnt q p = None \<Longrightarrow> sched_step (Create nm prio f aux) q (q\<lparr>hi := hi q @ [p], cnt := (cnt q)(p \<mapsto> 0)\<rparr>)"
| sched_no_page: "sched_step (Create nm prio f aux) q q"
| sched_exit: "idle q \<noteq> Some (running q) \<Longrightarrow> sched_step Exit q (s_exit keep q)"
| sched_set_priority: "sched_step (Set_priority p) q q"
| sched_machine: "sched_step Machine q (q\<lparr>resched := b\<rparr>)"

inductive_cases sched_stepE: "sched_step a q q'"

text \<open>A run, with the operations it makes.\<close>

inductive trace :: "('a \<Rightarrow> 's \<Rightarrow> 's \<Rightarrow> bool) \<Rightarrow> 'a list \<Rightarrow> 's \<Rightarrow> 's \<Rightarrow> bool"
  for step :: "'a \<Rightarrow> 's \<Rightarrow> 's \<Rightarrow> bool"
where
  trace_Nil: "trace step [] s s"
| trace_Cons: "step a s t \<Longrightarrow> trace step as t u \<Longrightarrow> trace step (a # as) s u"

context pintos_kernel
begin

lemma step_view:
  assumes inv: "kernel_inv items used s" and step: "mlfq_step P items used a s s'"
  shows "sched_step a (view items yielding s) (view items yielding s')"
  using step
proof cases
  case (tick n)
  from thread_tick_inv [OF inv tick(2,3)] tick(4) have "view items yielding s' = s_tick (view items yielding s)" by auto
  then show ?thesis using tick(1) by (simp add: sched_tick)
next
  case yield
  then have "\<not> intr_context P (hw s)" by (auto simp: thread_yield_def)
  from thread_yield_inv [OF inv this] yield have "view items yielding s' = s_yield (view items yielding s)" by auto
  then show ?thesis using yield(1) by (simp add: sched_yield)
next
  case block
  then have "\<not> intr_context P (hw s)" "intr_get_level P (hw s) = INTR_OFF" by (auto simp: thread_block_def)
  from thread_block_inv [OF inv this] block have "view items yielding s' = s_block (view items yielding s)" by auto
  then show ?thesis using block(1) by (simp add: sched_block)
next
  case (unblock t)
  then obtain x where x: "heap s t = Some x" "status x = THREAD_BLOCKED" by (auto simp: thread_unblock_def Let_def)
  from thread_unblock_inv [OF inv this] unblock have "view items yielding s' = enqueue t (view items yielding s)" by auto
  then show ?thesis using unblock(1) x(1) by (simp add: sched_unblock)
next
  case (create nm prio f aux r)
  from create(2) show ?thesis
  proof (cases rule: thread_create_Inr)
    case (none h)
    with get_page_yielding [of "hw s"] have "view items yielding s' = view items yielding s" by (simp add: view_def)
    then show ?thesis using create(1) by (simp add: sched_no_page)
  next
    case (some n c)
    from thread_create_inv [OF inv some(5,3,4), of n c aux] create(2) some(1,2)
    have v: "view items yielding s' = (case fst (palloc_get_page P (hw s)) of
         None \<Rightarrow> view items yielding s
       | Some p \<Rightarrow> (view items yielding s)\<lparr>hi := items (ready_list s) @ [p],
           cnt := (cnt (view items yielding s))(p \<mapsto> 0)\<rparr>)" by auto
    show ?thesis
    proof (cases "palloc_get_page P (hw s)")
      case (Pair po h)
      show ?thesis
      proof (cases po)
        case None
        with v Pair create(1) show ?thesis by (simp add: sched_no_page)
      next
        case (Some p)
        with Pair get_page_Some [of "hw s" p h] have "p \<notin> used (hw s)" by simp
        with inv have "heap s p = None" by (auto simp: kernel_inv_def core_inv_def)
        with v Pair Some create(1) sched_create [of "view items yielding s" p nm prio f aux] show ?thesis by simp
      qed
    qed
  qed
next
  case exit
  then have "\<not> intr_context P (hw s)" by (auto simp: thread_exit_def)
  from thread_exit_inv [OF inv this exit(2)] exit
  have "view items yielding s' = s_exit (initial_thread s = Some (cpu s)) (view items yielding s)" by auto
  then show ?thesis using exit(1,2) by (simp add: sched_exit)
next
  case (set_priority p)
  then have "view items yielding s' = view items yielding s"
    by (auto simp: thread_set_priority_def thread_current_def running_thread_def Let_def set_thread_def view_def fun_eq_iff)
  then show ?thesis using set_priority(1) by (simp add: sched_set_priority)
next
  case (machine h)
  then have "view items yielding s' = (view items yielding s)\<lparr>resched := yielding h\<rparr>" by (simp add: view_def)
  then show ?thesis using machine(1) by (simp add: sched_machine)
qed

lemma trace_view:
  "trace (mlfq_step P items used) as s s' \<Longrightarrow> kernel_inv items used s \<Longrightarrow>
    trace sched_step as (view items yielding s) (view items yielding s') \<and> kernel_inv items used s'"
proof (induction rule: trace.induct)
  case (trace_Cons a s t as u)
  with step_view mlfq_step_inv show ?case by (blast intro: trace.trace_Cons)
qed (simp add: trace_Nil)

end

end
