(* ===== verification/Mlfq_Wait.thy ===== *)
theory Mlfq_Wait
  imports Mlfq_Sim
begin

text \<open>
  How long a thread can stay in queue B: runs of the system during which it stays there, with
  the number of timer ticks that hit a thread of queue A.
\<close>

definition runs_A :: "('l, 'h) kernel \<Rightarrow> bool" where
  "runs_A s \<longleftrightarrow> (\<exists>th. heap s (cpu s) = Some th \<and> 0 \<le> sint (count th))"

inductive waits ::
  "('l, 'h) pintos \<Rightarrow> ('l \<Rightarrow> addr list) \<Rightarrow> ('h \<Rightarrow> addr set) \<Rightarrow> addr \<Rightarrow> ('l, 'h) kernel \<Rightarrow> nat
    \<Rightarrow> ('l, 'h) kernel \<Rightarrow> bool"
  for P :: "('l, 'h) pintos" and items :: "'l \<Rightarrow> addr list" and used :: "'h \<Rightarrow> addr set"
    and t :: addr and s :: "('l, 'h) kernel"
where
  waits_start: "t \<in> set (items (ready_list_low s)) \<Longrightarrow> waits P items used t s 0 s"
| waits_step: "waits P items used t s k u \<Longrightarrow> mlfq_step P items used op u v \<Longrightarrow>
    t \<in> set (items (ready_list_low v)) \<Longrightarrow>
    waits P items used t s (if op = Tick \<and> runs_A u then Suc k else k) v"

definition wait_count :: "addr \<Rightarrow> ('l, 'h) kernel \<Rightarrow> int" where
  "wait_count t s = sint (count (the (heap s t)))"

lemma pick_cnt:
  "cnt (pick dead q) t = (if dead = Some t then None
     else if t = running (pick dead q) then map_option (max (-1)) (cnt q t) else cnt q t)"
  by (auto simp: pick_def Let_def split: list.splits option.splits)

lemma pick_lo: "set (lo (pick dead q)) \<subseteq> set (lo q)"
  by (auto simp: pick_def Let_def split: list.splits)

context pintos_kernel
begin

lemma low_thread:
  assumes inv: "kernel_inv items used s" and t: "t \<in> set (items (ready_list_low s))"
  obtains th where "heap s t = Some th" and "status th = THREAD_READY"
    and "- WAITING_TIME \<le> sint (count th)" and "sint (count th) < 0" and "t \<noteq> cpu s"
    and "t \<notin> set (items (ready_list s))"
proof -
  note core = inv [unfolded kernel_inv_def]
  from core_invD(7) [OF core t] obtain th where th: "heap s t = Some th" by blast
  from core_invD(1) [OF core th] t core_invD(4) [OF core] th that show thesis
    by (auto simp: thread_inv_def)
qed

lemma wait_count_view:
  "heap s t \<noteq> None \<Longrightarrow> wait_count t s = the (cnt (view items yielding s) t)"
  by (auto simp: wait_count_def)

lemma pick_wait:
  assumes inv: "kernel_inv items used s" and inv': "kernel_inv items used s'"
    and v: "view items yielding s' = pick dead q"
    and q: "cnt q t = cnt (view items yielding s) t"
    and t: "t \<in> set (items (ready_list_low s))" "t \<in> set (items (ready_list_low s'))"
  shows "wait_count t s' = wait_count t s"
proof -
  from low_thread [OF inv t(1)] obtain th where th: "heap s t = Some th" by blast
  from low_thread [OF inv' t(2)] obtain th' where th': "heap s' t = Some th'" "t \<noteq> cpu s'" by blast
  have run: "running (pick dead q) = cpu s'" and "cnt (pick dead q) t = Some (sint (count th'))"
    using th' by (simp_all add: v [symmetric])
  then have "cnt q t = Some (sint (count th'))" using th'(2) by (auto simp: pick_cnt split: if_splits)
  then show ?thesis using th th' q by (simp add: wait_count_def)
qed

lemma wait_step:
  assumes inv: "kernel_inv items used s" and step: "mlfq_step P items used op s s'"
    and t: "t \<in> set (items (ready_list_low s))" "t \<in> set (items (ready_list_low s'))"
  shows "wait_count t s' = wait_count t s - (if op = Tick \<and> runs_A s then 1 else 0)"
proof -
  note inv' = mlfq_step_inv [OF step inv]
  from low_thread [OF inv t(1)] obtain th where th: "heap s t = Some th" "status th = THREAD_READY"
    "sint (count th) < 0" "t \<noteq> cpu s" .
  from low_thread [OF inv' t(2)] obtain th' where th': "heap s' t = Some th'" .
  have same: "wait_count t s' = wait_count t s"
    if "cnt (view items yielding s') t = cnt (view items yielding s) t"
    using that th(1) th' by (simp add: wait_count_def)
  note picked = pick_wait [OF inv inv' _ _ t]
  let ?q = "view items yielding s" and ?q' = "view items yielding s'"
  from step_view [OF inv step] show ?thesis
  proof (cases rule: sched_step.cases)
    case sched_tick
    from kernel_inv_current [OF inv] obtain c where c: "heap s (cpu s) = Some c" by blast
    have "cnt (s_preempt q) t = cnt q t" if "t \<noteq> running q" for q
      using that by (simp add: s_preempt_def Let_def)
    moreover have "running (s_age q) = running q" for q by (simp add: s_age_def Let_def)
    ultimately have "cnt ?q' t = cnt (if runs_A s then s_age ?q else ?q) t"
      using th(4) c by (simp add: sched_tick s_tick_def runs_A_def)
    then show ?thesis using same sched_tick(1) th(1) th' t low_thread [OF inv' t(2)]
      by (auto simp: s_age_def Let_def wait_count_def split: if_splits)
  next
    case sched_yield
    then show ?thesis using picked by (auto simp: s_yield_def enqueue_def)
  next
    case sched_block
    then show ?thesis using picked by (auto simp: s_block_def)
  next
    case (sched_unblock u)
    then show ?thesis using same by (auto simp: enqueue_def)
  next
    case (sched_create p)
    then show ?thesis using same th(1) by (cases "p = t") auto
  next
    case (sched_exit keep)
    then show ?thesis using picked by (auto simp: s_exit_def)
  next
    case (sched_machine b)
    then have "cnt ?q' t = cnt ?q t" unfolding sched_machine(2) by simp
    then show ?thesis using same sched_machine by simp
  qed (use same in simp_all)
qed

text \<open>A thread of queue B is promoted after at most 23 ticks that found a thread of queue A running.\<close>

lemma waits_count:
  assumes "waits P items used t s k s'" and inv: "kernel_inv items used s"
  shows "kernel_inv items used s' \<and> t \<in> set (items (ready_list_low s)) \<and> t \<in> set (items (ready_list_low s')) \<and>
    wait_count t s' = wait_count t s - int k"
  using assms(1)
proof (induction rule: waits.induct)
  case waits_start
  with inv show ?case by simp
next
  case (waits_step k u op v)
  then have inv_u: "kernel_inv items used u" and tu: "t \<in> set (items (ready_list_low u))" by simp_all
  from mlfq_step_inv [OF waits_step.hyps(2) inv_u] wait_step [OF inv_u waits_step.hyps(2) tu waits_step.hyps(3)]
    waits_step.IH waits_step.hyps(3)
  show ?case by simp
qed

lemma wait_bound:
  assumes "waits P items used t s k s'" and inv: "kernel_inv items used s"
  shows "k < nat WAITING_TIME"
proof -
  note w = waits_count [OF assms]
  then have t: "t \<in> set (items (ready_list_low s))" and t': "t \<in> set (items (ready_list_low s'))"
    and inv': "kernel_inv items used s'" by simp_all
  from low_thread [OF inv t] obtain th where "heap s t = Some th" "sint (count th) < 0" .
  then have "wait_count t s < 0" by (simp add: wait_count_def)
  moreover from low_thread [OF inv' t'] obtain th' where "heap s' t = Some th'" "- WAITING_TIME \<le> sint (count th')" .
  then have "- WAITING_TIME \<le> wait_count t s'" by (simp add: wait_count_def)
  ultimately show ?thesis using w by (simp add: WAITING_TIME_def)
qed

subsection \<open>Time slices\<close>

lemma tick_view:
  assumes step: "mlfq_step P items used Tick s s'" and inv: "kernel_inv items used s"
  shows "kernel_inv items used s' \<and> view items yielding s' = s_tick (view items yielding s)"
  using step
proof cases
  case (tick n)
  from thread_tick_inv [OF inv tick(1,2)] tick(3) show ?thesis by auto
qed

lemma ticks_inv:
  assumes "(mlfq_step P items used Tick ^^ n) s s'" and inv: "kernel_inv items used s"
  shows "kernel_inv items used s' \<and> view items yielding s' = (s_tick ^^ n) (view items yielding s)"
  using assms(1)
proof (induction n arbitrary: s')
  case 0
  with inv show ?case by simp
next
  case (Suc n)
  from Suc.prems obtain u where u: "(mlfq_step P items used Tick ^^ n) s u" "mlfq_step P items used Tick u s'"
    by auto
  from Suc.IH [OF u(1)] tick_view [OF u(2)] show ?case by simp
qed

end

lemma slice_A:
  assumes "slice q = 0" and "cnt q (running q) = Some c" and "c = 0 \<or> c = 1" and "running q \<notin> set (lo q)"
    and "n \<le> 4" and "\<not> resched q"
  shows "running ((s_tick ^^ n) q) = running q \<and> running q \<notin> set (lo ((s_tick ^^ n) q)) \<and>
    slice ((s_tick ^^ n) q) = n \<and> (resched ((s_tick ^^ n) q) \<longleftrightarrow> n = 4) \<and>
    cnt ((s_tick ^^ n) q) (running q) = Some (if n < 4 then c else if c = 0 then 1 else -1)"
  using assms(5)
proof (induction n)
  case 0
  with assms show ?case by simp
next
  case (Suc n)
  then have "n < 4" by simp
  with Suc assms(3) show ?case
    by (auto simp: s_tick_def s_preempt_def s_age_def Let_def)
qed

lemma slice_B:
  assumes "slice q = 0" and "cnt q (running q) = Some c" and "c < 0" and "hi q = []" and "n \<le> 8" and "\<not> resched q"
  shows "(s_tick ^^ n) q = q\<lparr>slice := n, resched := (n = 8)\<rparr>"
  using assms(5)
proof (induction n)
  case 0
  with assms show ?case by simp
next
  case (Suc n)
  then have "n < 8" by simp
  with Suc assms show ?case
    by (simp add: s_tick_def s_preempt_def Let_def)
qed

subsection \<open>Strict priority of queue A\<close>

context pintos_kernel
begin

lemma pick_strict:
  assumes "view items yielding s' = pick dead q" and "kernel_inv items used s'"
    and "hi q = items (ready_list s) @ xs" and "\<And>t. t \<in> set (hi q) \<Longrightarrow> \<exists>c. cnt q t = Some c \<and> 0 \<le> c"
  shows "runs_A s' \<or> items (ready_list s') = [] \<and> items (ready_list s) = []"
proof (cases "hi q")
  case Nil
  then have "hi (pick dead q) = []" by (simp add: pick_def Let_def split: list.splits)
  with Nil assms(1,3) show ?thesis by (metis append_is_Nil_conv view_sel(3))
next
  case (Cons t ts)
  then have run: "running (pick dead q) = t" by (simp add: pick_def Let_def)
  from assms(4) [of t] Cons obtain c where c: "cnt q t = Some c" "0 \<le> c" by auto
  from run assms(1) have t: "cpu s' = t" by (metis view_sel(1))
  from assms(2) obtain th where th: "heap s' (cpu s') = Some th" by (rule kernel_inv_current)
  then have "cnt (pick dead q) t = Some (sint (count th))"
    by (simp add: assms(1) [symmetric] t [symmetric])
  with c run have "0 \<le> sint (count th)" by (auto simp: pick_cnt split: if_splits)
  with th show ?thesis by (simp add: runs_A_def)
qed

lemma switch_strict:
  assumes step: "mlfq_step P items used op s s'" and op: "op = Yield \<or> op = Block \<or> op = Exit"
    and inv: "kernel_inv items used s"
  shows "runs_A s' \<or> items (ready_list s') = [] \<and> items (ready_list s) = []"
proof -
  note core = inv [unfolded kernel_inv_def]
  note inv' = mlfq_step_inv [OF step inv]
  have hi: "\<exists>c. cnt (view items yielding s) t = Some c \<and> 0 \<le> c" if "t \<in> set (items (ready_list s))" for t
    using core_invD(6) [OF core that] core_invD(1) [OF core] that by (auto simp: thread_inv_def)
  from step show ?thesis
  proof cases
    case yield
    then have "\<not> intr_context P (hw s)" by (auto simp: thread_yield_def)
    from thread_yield_inv [OF inv this] yield
    have v: "view items yielding s' = s_yield (view items yielding s)" by auto
    from kernel_inv_current [OF inv] obtain th where th: "heap s (cpu s) = Some th" by blast
    show ?thesis
      by (rule pick_strict [OF v [unfolded s_yield_def] inv',
            of s "if Some (cpu s) = idle_thread s \<or> sint (count th) < 0 then [] else [cpu s]"])
        (use hi th in \<open>auto simp: enqueue_def split: if_splits\<close>)
  next
    case block
    then have "\<not> intr_context P (hw s)" "intr_get_level P (hw s) = INTR_OFF" by (auto simp: thread_block_def)
    from thread_block_inv [OF inv this] block
    have v: "view items yielding s' = s_block (view items yielding s)" by auto
    show ?thesis by (rule pick_strict [OF v [unfolded s_block_def] inv', of s "[]"]) (use hi in auto)
  next
    case exit
    then have "\<not> intr_context P (hw s)" by (auto simp: thread_exit_def)
    from thread_exit_inv [OF inv this exit(2)] exit
    have v: "view items yielding s' = s_exit (initial_thread s = Some (cpu s)) (view items yielding s)" by auto
    show ?thesis by (rule pick_strict [OF v [unfolded s_exit_def] inv', of s "[]"]) (use hi in auto)
  qed (use op in simp_all)
qed

lemma reachable_inv:
  "reach (mlfq_start P used) (\<lambda>s s'. \<exists>op. mlfq_step P items used op s s') s \<Longrightarrow> kernel_inv items used s"
  by (rule mlfq.reach_inv)

subsection \<open>When a call fails\<close>

lemma calls_fail_iff:
  assumes inv: "kernel_inv items used s"
  shows "thread_block P s = Inl f \<longleftrightarrow> f = Panic \<and> (intr_context P (hw s) \<or> intr_get_level P (hw s) \<noteq> INTR_OFF)"
    and "thread_yield P s = Inl f \<longleftrightarrow> f = Panic \<and> intr_context P (hw s)"
    and "thread_unblock P t s = Inl f \<longleftrightarrow>
      (case heap s t of None \<Rightarrow> f = Bad_deref | Some th \<Rightarrow> f = Panic \<and> status th \<noteq> THREAD_BLOCKED)"
proof -
  from kernel_inv_current [OF inv] have cur: "thread_current s = Inr (cpu s)" by blast
  show "thread_block P s = Inl f \<longleftrightarrow> f = Panic \<and> (intr_context P (hw s) \<or> intr_get_level P (hw s) \<noteq> INTR_OFF)"
  proof (cases "intr_context P (hw s) \<or> intr_get_level P (hw s) \<noteq> INTR_OFF")
    case True
    then show ?thesis by (auto simp: thread_block_def ASSERT_def)
  next
    case False
    with thread_block_inv [OF inv] show ?thesis by fastforce
  qed
  show "thread_yield P s = Inl f \<longleftrightarrow> f = Panic \<and> intr_context P (hw s)"
  proof (cases "intr_context P (hw s)")
    case True
    with cur show ?thesis by (auto simp: thread_yield_def)
  next
    case False
    with thread_yield_inv [OF inv] show ?thesis by fastforce
  qed
  show "thread_unblock P t s = Inl f \<longleftrightarrow>
      (case heap s t of None \<Rightarrow> f = Bad_deref | Some th \<Rightarrow> f = Panic \<and> status th \<noteq> THREAD_BLOCKED)"
  proof (cases "heap s t")
    case None
    then show ?thesis by (auto simp: thread_unblock_def)
  next
    case (Some th)
    with core_invD(1) [OF inv [unfolded kernel_inv_def] Some] show ?thesis
      by (cases "status th = THREAD_BLOCKED") (auto simp: thread_unblock_def thread_inv_def Let_def)
  qed
qed

end

end
