(* ===== verification/Mlfq_Main.thy ===== *)
theory Mlfq_Main
  imports Mlfq_Wait
begin

text \<open>
  The properties of the two-level scheduler, over any Pintos services that keep their headers'
  promises, each with a witness on the implementation `ref_pintos`.
\<close>

subsection \<open>A concrete system\<close>

definition demo_loaded :: "(ref_list, ref_hw) kernel" where
  "demo_loaded = \<lparr>heap = Map.empty, ready_list = list_init ref_pintos, ready_list_low = list_init ref_pintos,
     all_list = list_init ref_pintos, idle_thread = None, initial_thread = None, next_tid = 1,
     idle_ticks = 0, kernel_ticks = 0, user_ticks = 0, clock_count = 0, thread_ticks = 0, cpu = 4096,
     hw = \<lparr>level = INTR_OFF, in_interrupt = False, yield_flag = False,
           free_pages = [8192, 12288, 16384], next_block = 0\<rparr>,
     console = []\<rparr>"

lemma demo_loaded: "loaded ref_pintos ref_used demo_loaded"
  by (simp add: loaded_def demo_loaded_def ref_used_def ref_get_page_def)

definition demo :: "(ref_list, ref_hw) kernel" where
  "demo = projr (boot ref_pintos 100 200 demo_loaded)"

lemma demo_boot:
  "boot ref_pintos 100 200 demo_loaded = Inr demo" "kernel_inv fst ref_used demo"
  "cpu demo = 8192" "idle_thread demo = Some 8192" "fst (ready_list demo) = [4096]"
  "fst (ready_list_low demo) = []" "fst (all_list demo) = [4096, 8192]"
proof -
  from ref_kernel.boot_inv [OF demo_loaded, of 100 200] obtain p s'
    where "boot ref_pintos 100 200 demo_loaded = Inr s'" "kernel_inv fst ref_used s'"
      "fst (palloc_get_page ref_pintos (hw demo_loaded)) = Some p" "cpu s' = p" "idle_thread s' = Some p"
      "fst (ready_list s') = [cpu demo_loaded]" "fst (ready_list_low s') = []"
      "fst (all_list s') = [cpu demo_loaded, p]" by metis
  then show "boot ref_pintos 100 200 demo_loaded = Inr demo" "kernel_inv fst ref_used demo"
    "cpu demo = 8192" "idle_thread demo = Some 8192" "fst (ready_list demo) = [4096]"
    "fst (ready_list_low demo) = []" "fst (all_list demo) = [4096, 8192]"
    by (simp_all add: demo_def demo_loaded_def ref_get_page_def)
qed

text \<open>
  A later state: the initial thread runs in the last tick of its slice, a worker waits in
  queue B with count `c`, another thread is blocked.
\<close>

definition demo_thread :: "tid_t \<Rightarrow> thread_status \<Rightarrow> 8 word \<Rightarrow> frame list \<Rightarrow> thread" where
  "demo_thread n st c fs = \<lparr>tid = n, status = st, name = ''t'', stack = 0, priority = 31, count = c,
     magic = THREAD_MAGIC, frames = fs\<rparr>"

definition demo_low :: "8 word \<Rightarrow> (ref_list, ref_hw) kernel" where
  "demo_low c = \<lparr>heap = [4096 \<mapsto> demo_thread 1 THREAD_RUNNING 0 [],
       8192 \<mapsto> demo_thread 2 THREAD_BLOCKED 0 [in_thread_block],
       12288 \<mapsto> demo_thread 3 THREAD_READY c [in_thread_yield INTR_ON],
       16384 \<mapsto> demo_thread 4 THREAD_BLOCKED 1 [in_thread_block]],
     ready_list = ([], \<lambda>_. None), ready_list_low = ([12288], \<lambda>_. None),
     all_list = ([4096, 8192, 12288, 16384], \<lambda>_. None),
     idle_thread = Some 8192, initial_thread = Some 4096, next_tid = 5,
     idle_ticks = 0, kernel_ticks = 30, user_ticks = 0, clock_count = 30, thread_ticks = 0, cpu = 4096,
     hw = \<lparr>level = INTR_OFF, in_interrupt = False, yield_flag = False, free_pages = [20480], next_block = 0\<rparr>,
     console = []\<rparr>"

lemma demo_thread_sel [simp]:
  "tid (demo_thread n st c fs) = n" "status (demo_thread n st c fs) = st"
  "count (demo_thread n st c fs) = c" "frames (demo_thread n st c fs) = fs"
  "is_thread (demo_thread n st c fs)"
  by (simp_all add: demo_thread_def is_thread_def)

lemma demo_low_sel [simp]:
  "heap (demo_low c) = [4096 \<mapsto> demo_thread 1 THREAD_RUNNING 0 [],
       8192 \<mapsto> demo_thread 2 THREAD_BLOCKED 0 [in_thread_block],
       12288 \<mapsto> demo_thread 3 THREAD_READY c [in_thread_yield INTR_ON],
       16384 \<mapsto> demo_thread 4 THREAD_BLOCKED 1 [in_thread_block]]"
  "ready_list (demo_low c) = ([], \<lambda>_. None)" "ready_list_low (demo_low c) = ([12288], \<lambda>_. None)"
  "all_list (demo_low c) = ([4096, 8192, 12288, 16384], \<lambda>_. None)"
  "idle_thread (demo_low c) = Some 8192" "initial_thread (demo_low c) = Some 4096" "next_tid (demo_low c) = 5"
  "cpu (demo_low c) = 4096" "intr_get_level ref_pintos (hw (demo_low c)) = INTR_OFF"
  "intr_context ref_pintos (hw (demo_low c)) = False" "free_pages (hw (demo_low c)) = [20480]"
  "thread_ticks (demo_low c) = 0" "yield_flag (hw (demo_low c)) = False" "clock_count (demo_low c) = 30"
  by (simp_all add: demo_low_def)

lemma demo_low_inv: 
  assumes "c = -24 \<or> c = -1"
  shows "kernel_inv fst ref_used (demo_low c)"
proof -
  from assms have "sint c < 0" "- WAITING_TIME \<le> sint c" by (auto simp: WAITING_TIME_def)
  then have "thread_inv fst (Some 4096) {} (demo_low c) t th" if "heap (demo_low c) t = Some th" for t th
    using that by (auto simp: thread_inv_def WAITING_TIME_def split: if_splits)
  then show ?thesis
    by (auto simp: kernel_inv_def core_inv_def inj_on_def ref_used_def)
qed

lemmas demo_inv = demo_low_inv [of "-1", simplified]
lemmas demo_inv24 = demo_low_inv [of "-24", simplified]

lemma demo_low_room: "clock_room (demo_low c)"
  by (simp add: clock_room_def demo_low_def)


lemma demo_reach:
  "reach (mlfq_start ref_pintos ref_used) (\<lambda>s s'. \<exists>op. mlfq_step ref_pintos fst ref_used op s s') demo"
  using demo_loaded demo_boot(1) by (intro reach_start) (auto simp: mlfq_start_def)

subsection \<open>Properties\<close>

text \<open>C1: booting from what the loader leaves succeeds: `thread_init`, `thread_start` and
  the idle thread's first code run without a failed ASSERT, and end in a well-formed state in which
  the idle thread runs with interrupts on, the initial thread waits in queue A and queue B is empty.\<close>

theorem mlfq_boot:
  assumes "pintos_kernel P items used blocks yielding" and "loaded P used s"
  shows "\<exists>s' p. boot P code aux s = Inr s' \<and> kernel_inv items used s' \<and> cpu s' = p \<and> idle_thread s' = Some p \<and>
    p \<noteq> cpu s \<and> items (ready_list s') = [cpu s] \<and> items (ready_list_low s') = [] \<and>
    items (all_list s') = [cpu s, p] \<and> intr_get_level P (hw s') = INTR_ON"
proof -
  from pintos_kernel.boot_inv [OF assms, of code aux] obtain p s' where b:
    "boot P code aux s = Inr s'" "kernel_inv items used s'" "cpu s' = p" "idle_thread s' = Some p"
    "items (ready_list s') = [cpu s]" "items (ready_list_low s') = []" "items (all_list s') = [cpu s, p]"
    "intr_get_level P (hw s') = INTR_ON" by metis
  moreover from b(2,7) have "p \<noteq> cpu s" by (auto simp: kernel_inv_def core_inv_def)
  ultimately show ?thesis by blast
qed

theorem mlfq_boot_witness:
  "\<exists>s' p. boot ref_pintos 100 200 demo_loaded = Inr s' \<and> kernel_inv fst ref_used s' \<and> cpu s' = p \<and> idle_thread s' = Some p \<and>
    p \<noteq> cpu demo_loaded \<and> fst (ready_list s') = [cpu demo_loaded] \<and> fst (ready_list_low s') = [] \<and>
    fst (all_list s') = [cpu demo_loaded, p] \<and> intr_get_level ref_pintos (hw s') = INTR_ON"
  by (rule mlfq_boot [OF ref_pintos_kernel demo_loaded])

text \<open>C2: along every run from boot (ticks, yields, blocks, wake-ups, creations, exits in any order) the
  state stays well formed: exactly the running thread is THREAD_RUNNING, every ready thread other
  than the idle thread is in exactly one of the two queues, queue A holds only counts of at least 0 and queue B
  only counts from -24 to -1, thread ids differ, and no list holds a freed thread.\<close>

theorem mlfq_reachable_inv:
  assumes "pintos_kernel P items used blocks yielding"
    and "reach (mlfq_start P used) (\<lambda>s s'. \<exists>op. mlfq_step P items used op s s') s"
  shows "kernel_inv items used s"
  by (rule pintos_kernel.reachable_inv [OF assms])

theorem mlfq_reachable_inv_witness: "kernel_inv fst ref_used demo"
  by (rule mlfq_reachable_inv [OF ref_pintos_kernel demo_reach])

text \<open>C3: a timer tick, as long as the tick counters have room for one more, ends without a fault and refines the abstract tick: when a thread of queue A is running, it
  counts every thread of queue B one tick down and moves those whose count then is below -24 to the end of queue A, in order, with count 0; otherwise, also when
  queue A holds threads, it leaves them; then it charges the running thread and asks for a switch at the end of its slice.  The comment
  in the code says otherwise: it promotes at -24, and whenever queue A is not empty; a thread with count -23 stays in queue B, with count -24.  Fuel as long as
  queue B is enough for the aging loop.  The services are those of `Pintos_Lib`: in particular `list_next` of an element just removed still gives its
  old successor, on which the loop relies, though list.h leaves that undefined.\<close>

theorem mlfq_tick_refines:
  assumes "pintos_kernel P items used blocks yielding" and "kernel_inv items used s" and "clock_room s"
    and "length (items (ready_list_low s)) \<le> fuel"
  shows "\<exists>s'. thread_tick P fuel s = Inr s' \<and> kernel_inv items used s' \<and>
    view items yielding s' = s_tick (view items yielding s)"
  using pintos_kernel.thread_tick_inv [OF assms] by metis

theorem mlfq_tick_refines_witness:
  "\<exists>s'. thread_tick ref_pintos 1 (demo_low (-24)) = Inr s' \<and> kernel_inv fst ref_used s' \<and>
    view fst yield_flag s' = s_tick (view fst yield_flag (demo_low (-24)))"
  by (rule mlfq_tick_refines [OF ref_pintos_kernel demo_inv24 demo_low_room]) simp_all

text \<open>`thread_yield` outside an interrupt never faults; the thread goes to the end of the queue its
  count names (the idle thread to none), and the next thread is the first of queue A, else
  the first of queue B, else the idle thread.\<close>

theorem mlfq_yield_refines:
  assumes "pintos_kernel P items used blocks yielding" and "kernel_inv items used s"
    and "\<not> intr_context P (hw s)"
  shows "\<exists>s'. thread_yield P s = Inr s' \<and> kernel_inv items used s' \<and>
    view items yielding s' = s_yield (view items yielding s)"
  using pintos_kernel.thread_yield_inv [OF assms] by metis

theorem mlfq_yield_refines_witness:
  "\<exists>s'. thread_yield ref_pintos (demo_low (-1)) = Inr s' \<and> kernel_inv fst ref_used s' \<and>
    view fst yield_flag s' = s_yield (view fst yield_flag (demo_low (-1)))"
  by (rule mlfq_yield_refines [OF ref_pintos_kernel demo_inv])
    (use demo_low_sel(10) [of "-1"] in simp_all)

text \<open>`thread_block`, called outside an interrupt with interrupts off, never faults; the
  thread leaves the CPU and is in no queue, and the next thread is picked.\<close>

theorem mlfq_block_refines:
  assumes "pintos_kernel P items used blocks yielding" and "kernel_inv items used s"
    and "\<not> intr_context P (hw s)" and "intr_get_level P (hw s) = INTR_OFF"
  shows "\<exists>s'. thread_block P s = Inr s' \<and> kernel_inv items used s' \<and>
    view items yielding s' = s_block (view items yielding s)"
  using pintos_kernel.thread_block_inv [OF assms] by metis

theorem mlfq_block_refines_witness:
  "\<exists>s'. thread_block ref_pintos (demo_low (-1)) = Inr s' \<and> kernel_inv fst ref_used s' \<and>
    view fst yield_flag s' = s_block (view fst yield_flag (demo_low (-1)))"
  by (rule mlfq_block_refines [OF ref_pintos_kernel demo_inv])
    (use demo_low_sel(9,10) [of "-1"] in simp_all)

text \<open>`thread_exit` of any thread but the idle thread never faults; the page of the exiting thread is
  freed by its successor (the initial thread's is kept) and the next thread is picked.\<close>

theorem mlfq_exit_refines:
  assumes "pintos_kernel P items used blocks yielding" and "kernel_inv items used s"
    and "\<not> intr_context P (hw s)" and "idle_thread s \<noteq> Some (cpu s)"
  shows "\<exists>s'. thread_exit P s = Inr s' \<and> kernel_inv items used s' \<and>
    view items yielding s' = s_exit (initial_thread s = Some (cpu s)) (view items yielding s)"
  using pintos_kernel.thread_exit_inv [OF assms] by metis

theorem mlfq_exit_refines_witness:
  "\<exists>s'. thread_exit ref_pintos (demo_low (-1)) = Inr s' \<and> kernel_inv fst ref_used s' \<and>
    view fst yield_flag s' = s_exit (initial_thread (demo_low (-1)) = Some (cpu (demo_low (-1))))
      (view fst yield_flag (demo_low (-1)))"
  by (rule mlfq_exit_refines [OF ref_pintos_kernel demo_inv])
    (use demo_low_sel(10) [of "-1"] in simp_all)

text \<open>`thread_unblock` of a blocked thread never faults, puts the thread at the end of the queue
  its count names, leaves the interrupt level as it was and does not preempt the running thread.\<close>

theorem mlfq_unblock_refines:
  assumes "pintos_kernel P items used blocks yielding" and "kernel_inv items used s"
    and "heap s t = Some th" and "status th = THREAD_BLOCKED"
  shows "\<exists>s'. thread_unblock P t s = Inr s' \<and> kernel_inv items used s' \<and> cpu s' = cpu s \<and>
    intr_get_level P (hw s') = intr_get_level P (hw s) \<and>
    view items yielding s' = enqueue t (view items yielding s)"
  using pintos_kernel.thread_unblock_inv [OF assms] by metis

theorem mlfq_unblock_refines_witness:
  "\<exists>s'. thread_unblock ref_pintos 16384 (demo_low (-1)) = Inr s' \<and> kernel_inv fst ref_used s' \<and>
    cpu s' = cpu (demo_low (-1)) \<and>
    intr_get_level ref_pintos (hw s') = intr_get_level ref_pintos (hw (demo_low (-1))) \<and>
    view fst yield_flag s' = enqueue 16384 (view fst yield_flag (demo_low (-1)))"
  by (rule mlfq_unblock_refines [OF ref_pintos_kernel demo_inv, of 16384 "demo_thread 4 THREAD_BLOCKED 1 [in_thread_block]"]) simp_all

text \<open>C8: the calls refine the specification and never fault: `thread_yield` outside an interrupt puts the thread at the end of the queue its count names (the idle
  thread into none) and the next thread is the first of queue A, else the first of queue B, else the idle thread; `thread_block`, outside an interrupt with interrupts off, takes the thread off the CPU
  into no queue, and the next thread is picked; `thread_exit` of any thread but the idle thread ends it, its page is freed by its
  successor (the initial thread's is kept) and the next thread is picked; `thread_unblock` of a blocked thread puts it at the end of the queue its
  count names, leaves the interrupt level as it was and does not preempt the running thread.\<close>

theorem mlfq_calls_refine:
  assumes "pintos_kernel P items used blocks yielding" and "kernel_inv items used s"
  shows "(\<not> intr_context P (hw s) \<longrightarrow>
      (\<exists>s'. thread_yield P s = Inr s' \<and> kernel_inv items used s' \<and> view items yielding s' = s_yield (view items yielding s))) \<and>
    (\<not> intr_context P (hw s) \<and> intr_get_level P (hw s) = INTR_OFF \<longrightarrow>
      (\<exists>s'. thread_block P s = Inr s' \<and> kernel_inv items used s' \<and> view items yielding s' = s_block (view items yielding s))) \<and>
    (\<not> intr_context P (hw s) \<and> idle_thread s \<noteq> Some (cpu s) \<longrightarrow>
      (\<exists>s'. thread_exit P s = Inr s' \<and> kernel_inv items used s' \<and>
        view items yielding s' = s_exit (initial_thread s = Some (cpu s)) (view items yielding s))) \<and>
    (heap s t = Some th \<and> status th = THREAD_BLOCKED \<longrightarrow>
      (\<exists>s'. thread_unblock P t s = Inr s' \<and> kernel_inv items used s' \<and> cpu s' = cpu s \<and>
        intr_get_level P (hw s') = intr_get_level P (hw s) \<and> view items yielding s' = enqueue t (view items yielding s)))"
  using mlfq_yield_refines [OF assms] mlfq_block_refines [OF assms] mlfq_exit_refines [OF assms] mlfq_unblock_refines [OF assms] by blast

theorem mlfq_calls_refine_witness:
  "(\<exists>s'. thread_yield ref_pintos (demo_low (-1)) = Inr s' \<and>
      view fst yield_flag s' = s_yield (view fst yield_flag (demo_low (-1)))) \<and>
    (\<exists>s'. thread_block ref_pintos (demo_low (-1)) = Inr s' \<and> kernel_inv fst ref_used s' \<and>
      view fst yield_flag s' = s_block (view fst yield_flag (demo_low (-1)))) \<and>
    (\<exists>s'. thread_exit ref_pintos (demo_low (-1)) = Inr s' \<and> kernel_inv fst ref_used s') \<and>
    (\<exists>s'. thread_unblock ref_pintos 16384 (demo_low (-1)) = Inr s' \<and>
      view fst yield_flag s' = enqueue 16384 (view fst yield_flag (demo_low (-1))))"
  using mlfq_calls_refine [OF ref_pintos_kernel demo_inv, of 16384 "demo_thread 4 THREAD_BLOCKED 1 [in_thread_block]"]
    demo_low_sel(9,10) [of "-1"] by auto

text \<open>C7: the scheduler as a whole implements its specification: every run of the system from boot, ticks, calls and interrupts in any order, is, seen
  through the view (who runs, the two queues, the counts, the slice, the pending switch), a run of the abstract
  two-queue scheduler with the same operations in the same order.\<close>

theorem mlfq_simulates:
  assumes "pintos_kernel P items used blocks yielding" and "mlfq_start P used s" and "trace (mlfq_step P items used) as s s'"
  shows "trace sched_step as (view items yielding s) (view items yielding s') \<and> kernel_inv items used s'"
proof -
  from assms(2) have "reach (mlfq_start P used) (\<lambda>s s'. \<exists>op. mlfq_step P items used op s s') s" by (rule reach_start)
  from pintos_kernel.trace_view [OF assms(1,3) pintos_kernel.reachable_inv [OF assms(1) this]] show ?thesis .
qed

theorem mlfq_simulates_witness:
  "\<exists>s s'. thread_yield ref_pintos s = Inr s' \<and> trace sched_step [Machine, Yield] (view fst yield_flag demo) (view fst yield_flag s')"
proof -
  let ?step = "mlfq_step ref_pintos fst ref_used" and ?s = "demo\<lparr>hw := (hw demo)\<lparr>in_interrupt := False\<rparr>\<rparr>"
  have start: "mlfq_start ref_pintos ref_used demo" using demo_loaded demo_boot(1) by (auto simp: mlfq_start_def)
  have "?step Machine demo ?s" by (rule mlfq_step.machine) (simp add: ref_used_def)
  then have m: "?step Machine demo ?s" "kernel_inv fst ref_used ?s" using ref_kernel.mlfq_step_inv demo_boot(2) by blast+
  from ref_kernel.thread_yield_inv [OF m(2)] obtain s' where y: "thread_yield ref_pintos ?s = Inr s'" by auto
  with m(1) have "trace ?step [Machine, Yield] demo s'" by (blast intro: trace.intros mlfq_step.yield)
  from mlfq_simulates [OF ref_pintos_kernel start this] y show ?thesis by blast
qed

text \<open>`thread_create` never faults on a valid priority: it gives TID_ERROR and changes no
  thread when no page is left, else a new tid, with the new thread ready at the end of queue A with count 0.\<close>

theorem mlfq_create_refines:
  assumes "pintos_kernel P items used blocks yielding" and "kernel_inv items used s"
    and "next_tid s + 1 < 2 ^ 31" and "PRI_MIN \<le> prio" and "prio \<le> PRI_MAX"
  shows "\<exists>r s'. thread_create P (Some nm) prio (Some f) aux s = Inr (r, s') \<and> kernel_inv items used s' \<and>
    r = (if fst (palloc_get_page P (hw s)) = None then TID_ERROR else next_tid s) \<and>
    view items yielding s' = (case fst (palloc_get_page P (hw s)) of
           None \<Rightarrow> view items yielding s
         | Some p \<Rightarrow> (view items yielding s)\<lparr>hi := items (ready_list s) @ [p],
             cnt := (cnt (view items yielding s))(p \<mapsto> 0)\<rparr>)"
  by (rule pintos_kernel.thread_create_inv [OF assms, of nm f aux]) blast

theorem mlfq_create_refines_witness:
  "\<exists>r s'. thread_create ref_pintos (Some ''w'') 31 (Some 7) 0 (demo_low (-1)) = Inr (r, s') \<and>
    kernel_inv fst ref_used s' \<and>
    r = (if fst (palloc_get_page ref_pintos (hw (demo_low (-1)))) = None then TID_ERROR else next_tid (demo_low (-1))) \<and>
    view fst yield_flag s' = (case fst (palloc_get_page ref_pintos (hw (demo_low (-1)))) of
           None \<Rightarrow> view fst yield_flag (demo_low (-1))
         | Some p \<Rightarrow> (view fst yield_flag (demo_low (-1)))\<lparr>hi := fst (ready_list (demo_low (-1))) @ [p],
             cnt := (cnt (view fst yield_flag (demo_low (-1))))(p \<mapsto> 0)\<rparr>)"
  by (rule mlfq_create_refines [OF ref_pintos_kernel demo_inv, of 31 "''w''" 7 0])
    (unfold demo_low_sel PRI_MIN_def PRI_MAX_def, simp_all)


text \<open>C4: no thread starves in queue B: while a thread stays there, its count falls by one at each tick that
  finds a thread of queue A running and at no other step, so at most 23 such ticks pass before it is dispatched or promoted.\<close>

theorem mlfq_bounded_wait:
  assumes "pintos_kernel P items used blocks yielding" and "kernel_inv items used s"
    and "waits P items used t s k s'"
  shows "wait_count t s' = wait_count t s - int k \<and> k \<le> 23"
  using pintos_kernel.waits_count [OF assms(1,3,2)] pintos_kernel.wait_bound [OF assms(1,3,2)]
  by (simp add: WAITING_TIME_def)

lemma demo_waits: "\<exists>s'. waits ref_pintos fst ref_used 12288 (demo_low (-1)) 1 s'"
proof -
  let ?s = "demo_low (-1)"
  have fuel: "length (fst (ready_list_low ?s)) \<le> 1" by simp
  from ref_kernel.thread_tick_inv [OF demo_inv demo_low_room fuel] obtain s'
    where s': "thread_tick ref_pintos 1 ?s = Inr s'" "view fst yield_flag s' = s_tick (view fst yield_flag ?s)" .
  have "fst (ready_list_low s') = lo (view fst yield_flag s')" by simp
  also have "\<dots> = [12288]" unfolding s'(2)
    by (simp add: s_tick_def s_age_def s_preempt_def Let_def WAITING_TIME_def)
  finally have low: "12288 \<in> set (fst (ready_list_low s'))" by simp
  have "mlfq_step ref_pintos fst ref_used Tick ?s s'"
    using demo_low_room fuel s'(1) by (rule tick [where n = 1])
  from waits_step [OF waits_start this low] have "waits ref_pintos fst ref_used 12288 ?s 1 s'"
    by (simp add: runs_A_def)
  then show ?thesis ..
qed

theorem mlfq_bounded_wait_witness:
  "\<exists>s'. waits ref_pintos fst ref_used 12288 (demo_low (-1)) 1 s' \<and>
    wait_count 12288 s' = wait_count 12288 (demo_low (-1)) - int 1 \<and> (1 :: nat) \<le> 23"
proof -
  from demo_waits obtain s' where w: "waits ref_pintos fst ref_used 12288 (demo_low (-1)) 1 s'" ..
  with mlfq_bounded_wait [OF ref_pintos_kernel demo_inv w] show ?thesis by blast
qed

text \<open>C6: the running thread's slice.  Over consecutive ticks a thread of queue A keeps the CPU for exactly
  4 ticks: the fourth asks for a switch, marks a thread of count 0 as having used one slice, and
  sends a thread of count 1 to queue B.\<close>

theorem mlfq_slice_A:
  assumes "pintos_kernel P items used blocks yielding" and "kernel_inv items used s"
    and "thread_ticks s = 0" and "\<not> yielding (hw s)"
    and "heap s (cpu s) = Some th" and "sint (count th) = c" and "0 \<le> c"
    and "(mlfq_step P items used Tick ^^ n) s s'" and "n \<le> 4"
  shows "cpu s' = cpu s \<and> unat (thread_ticks s') = n \<and> (yielding (hw s') \<longleftrightarrow> n = 4) \<and>
    wait_count (cpu s) s' = (if n < 4 then c else if c = 0 then 1 else -1)"
proof -
  let ?v = "view items yielding s"
  from kernel_inv_current [OF assms(2)] obtain u where u: "heap s (cpu s) = Some u" "sint (count u) \<le> 1"
    "cpu s \<notin> set (items (ready_list s)) \<union> set (items (ready_list_low s))" .
  with assms(5-7) have c: "c = 0 \<or> c = 1" "cpu s \<notin> set (items (ready_list_low s))" by auto
  note t = pintos_kernel.ticks_inv [OF assms(1,8,2)]
  have r: "cnt ?v (running ?v) = Some c" "slice ?v = 0" "running ?v \<notin> set (lo ?v)" "\<not> resched ?v"
    using assms(3-6) c(2) by simp_all
  note v = slice_A [OF r(2,1) c(1) r(3) assms(9) r(4)]
  from t have inv': "kernel_inv items used s'" and "(s_tick ^^ n) ?v = view items yielding s'" by simp_all
  note v = v [unfolded this(2) view_sel]
  then have "map_option (\<lambda>th. sint (count th)) (heap s' (cpu s)) =
      Some (if n < 4 then c else if c = 0 then 1 else -1)" by blast
  then have "wait_count (cpu s) s' = (if n < 4 then c else if c = 0 then 1 else -1)"
    unfolding wait_count_def by (elim map_option_eq_Some [THEN iffD1, elim_format] exE conjE) (simp only: option.sel)
  with v show ?thesis by blast
qed

theorem mlfq_slice_A_witness:
  "\<exists>s'. (mlfq_step ref_pintos fst ref_used Tick ^^ 1) (demo_low (-1)) s' \<and>
    cpu s' = cpu (demo_low (-1)) \<and> unat (thread_ticks s') = 1 \<and> (yield_flag (hw s') \<longleftrightarrow> (1 :: nat) = 4) \<and>
    wait_count (cpu (demo_low (-1))) s' = (if (1 :: nat) < 4 then 0 else if (0 :: int) = 0 then 1 else -1)"
proof -
  have fuel: "length (fst (ready_list_low (demo_low (-1)))) \<le> 1" by simp
  from ref_kernel.thread_tick_inv [OF demo_inv demo_low_room fuel] obtain s'
    where "thread_tick ref_pintos 1 (demo_low (-1)) = Inr s'" .
  with demo_low_room fuel have "mlfq_step ref_pintos fst ref_used Tick (demo_low (-1)) s'"
    by (rule tick [where n = 1])
  then have "(mlfq_step ref_pintos fst ref_used Tick ^^ 1) (demo_low (-1)) s'" by (simp add: eq_OO)
  with mlfq_slice_A [OF ref_pintos_kernel demo_inv, of "demo_thread 1 THREAD_RUNNING 0 []" 0 1 s'] show ?thesis
    by (intro exI [of _ s']) simp
qed

text \<open>C5: queue A has strict priority: after any switch (a yield, a block or an exit) either a thread of queue A runs, or
  queue A was and is empty.\<close>

theorem mlfq_strict_priority:
  assumes "pintos_kernel P items used blocks yielding" and "kernel_inv items used s"
    and "mlfq_step P items used op s s'" and "op \<in> {Yield, Block, Exit}"
  shows "runs_A s' \<or> items (ready_list s') = [] \<and> items (ready_list s) = []"
  using pintos_kernel.switch_strict [OF assms(1,3) _ assms(2)] assms(4) by simp

theorem mlfq_strict_priority_witness:
  "\<exists>s'. mlfq_step ref_pintos fst ref_used Block (demo_low (-1)) s' \<and>
    (runs_A s' \<or> fst (ready_list s') = [] \<and> fst (ready_list (demo_low (-1))) = [])"
proof -
  have "\<not> intr_context ref_pintos (hw (demo_low (-1)))" using demo_low_sel(10) [of "-1"] by simp
  from ref_kernel.thread_block_inv [OF demo_inv this demo_low_sel(9)] obtain s'
    where "thread_block ref_pintos (demo_low (-1)) = Inr s'" .
  then have "mlfq_step ref_pintos fst ref_used Block (demo_low (-1)) s'" by (rule block)
  with mlfq_strict_priority [OF ref_pintos_kernel demo_inv this] show ?thesis by blast
qed

text \<open>C9: exactly when the blocking calls panic: in a well-formed state `thread_block` fails iff it is called in an
  interrupt or with interrupts on, `thread_yield` iff called in an interrupt, and
  `thread_unblock` iff the thread is not a live blocked thread.\<close>

theorem mlfq_calls_fail:
  assumes "pintos_kernel P items used blocks yielding" and "kernel_inv items used s"
  shows "(thread_block P s = Inl f \<longleftrightarrow> f = Panic \<and> (intr_context P (hw s) \<or> intr_get_level P (hw s) \<noteq> INTR_OFF)) \<and>
    (thread_yield P s = Inl f \<longleftrightarrow> f = Panic \<and> intr_context P (hw s)) \<and>
    (thread_unblock P t s = Inl f \<longleftrightarrow>
      (case heap s t of None \<Rightarrow> f = Bad_deref | Some th \<Rightarrow> f = Panic \<and> status th \<noteq> THREAD_BLOCKED))"
  using pintos_kernel.calls_fail_iff [OF assms] by blast

theorem mlfq_calls_fail_witness: "thread_unblock ref_pintos 4096 (demo_low (-1)) = Inl Panic"
  using mlfq_calls_fail [OF ref_pintos_kernel demo_inv, of Panic 4096] by simp

end
