(* ===== verification/Sigset.thy ===== *)
theory Sigset
  imports Prelude
begin

text \<open>
  Signal sets, from `Pintos/Added_Signals/signal.c` and `signal.h`: the bit routines
  on an `int8_t`, the POSIX-like set functions built on them, and what they mean as sets.
  An enumeration argument arrives as an unsigned 32-bit code, which may be out of range, and
  is narrowed to `int8_t` where the code passes it as a bit number.
\<close>

subsection \<open>Codes\<close>

type_synonym sigset_t = "8 word"
type_synonym sig_type = "32 word"
type_synonym sig_action = "32 word"
type_synonym procmask_how = "32 word"

definition SIG_KILL :: sig_type where "SIG_KILL = 0"
definition SIG_UBLOCK :: sig_type where "SIG_UBLOCK = 1"
definition SIG_USR :: sig_type where "SIG_USR = 2"
definition SIG_CHLD :: sig_type where "SIG_CHLD = 3"
definition SIG_CPU :: sig_type where "SIG_CPU = 4"

definition SIG_IGN :: sig_action where "SIG_IGN = 0"
definition SIG_DFL :: sig_action where "SIG_DFL = 1"

definition SIG_BLOCK :: procmask_how where "SIG_BLOCK = 0"
definition SIG_UNBLOCK :: procmask_how where "SIG_UNBLOCK = 1"
definition SIG_SETMASK :: procmask_how where "SIG_SETMASK = 2"

lemmas sig_codes = SIG_KILL_def SIG_UBLOCK_def SIG_USR_def SIG_CHLD_def SIG_CPU_def

subsection \<open>Bits\<close>

definition setBit :: "sigset_t \<Rightarrow> 8 word \<Rightarrow> sigset_t" where
  "setBit n b =
     (if sint b < 0 \<or> 7 < sint b then n
      else let num = 1; num = push_bit (unat b) num in n OR num)"

definition unsetBit :: "sigset_t \<Rightarrow> 8 word \<Rightarrow> sigset_t" where
  "unsetBit n b =
     (if sint b < 0 \<or> 7 < sint b then n
      else let num = 1; num = push_bit (unat b) num; num = NOT num in n AND num)"

definition checkBit :: "sigset_t \<Rightarrow> 8 word \<Rightarrow> bool" where
  "checkBit n b =
     (if sint b < 0 \<or> 7 < sint b then False
      else let num = 1; num = push_bit (unat b) num; n = n AND num in if n = 0 then False else True)"

definition sigemptyset :: "sigset_t option \<Rightarrow> 8 word \<times> sigset_t option" where
  "sigemptyset p = (case p of None \<Rightarrow> (0, None) | Some _ \<Rightarrow> (0, Some 0))"

definition sigfillset :: "sigset_t option \<Rightarrow> 8 word \<times> sigset_t option" where
  "sigfillset p = (case p of None \<Rightarrow> (0, None) | Some _ \<Rightarrow> let v = 0; v = NOT v in (0, Some v))"

definition sigaddset :: "sigset_t option \<Rightarrow> sig_type \<Rightarrow> 8 word \<times> sigset_t option" where
  "sigaddset p s =
     (if s < 0 \<or> 4 < s then (-1, p)
      else case p of None \<Rightarrow> (0, None) | Some v \<Rightarrow> (0, Some (setBit v (ucast s))))"

definition sigdelset :: "sigset_t option \<Rightarrow> sig_type \<Rightarrow> 8 word \<times> sigset_t option" where
  "sigdelset p s =
     (if s < 0 \<or> 4 < s then (-1, p)
      else case p of None \<Rightarrow> (0, None) | Some v \<Rightarrow> (0, Some (unsetBit v (ucast s))))"

subsection \<open>The contract of a signal set\<close>

text \<open>
  What the callers of the bit routines rely on: adding and deleting touch one member, out of
  range numbers are never members and change nothing.
\<close>

locale bitset =
  fixes add :: "'s \<Rightarrow> 'e \<Rightarrow> 's" and del :: "'s \<Rightarrow> 'e \<Rightarrow> 's" and mem :: "'s \<Rightarrow> 'e \<Rightarrow> bool"
    and valid :: "'e \<Rightarrow> bool"
  assumes mem_add: "mem (add n i) j \<longleftrightarrow> valid i \<and> j = i \<or> mem n j"
    and mem_del: "mem (del n i) j \<longleftrightarrow> j \<noteq> i \<and> mem n j"
    and mem_valid: "mem n i \<Longrightarrow> valid i"
    and ext: "(\<And>i. mem n i \<longleftrightarrow> mem m i) \<Longrightarrow> n = m"
begin

lemma mem_adds: "mem (fold (\<lambda>i n. add n i) is n) j \<longleftrightarrow> j \<in> set is \<and> valid j \<or> mem n j"
  by (induction "is" arbitrary: n) (auto simp: mem_add)

lemma add_del: "\<not> mem n i \<Longrightarrow> del (add n i) i = n"
  by (rule ext) (auto simp: mem_add mem_del)

lemma del_add: "mem n i \<Longrightarrow> add (del n i) i = n"
  by (rule ext) (auto simp: mem_add mem_del dest: mem_valid)

lemma add_commute: "add (add n i) j = add (add n j) i"
  by (rule ext) (auto simp: mem_add)

lemma add_idem: "add (add n i) i = add n i"
  by (rule ext) (auto simp: mem_add)

end

definition valid_bit :: "8 word \<Rightarrow> bool" where
  "valid_bit b \<longleftrightarrow> 0 \<le> sint b \<and> sint b \<le> 7"

lemma valid_bit_unat: "valid_bit b \<longleftrightarrow> unat b < 8"
proof -
  have s: "sint b = signed_take_bit 7 (uint b)" by (simp add: sint_uint)
  have u: "0 \<le> uint b" "uint b < 256" using uint_lt2p [of b] by simp_all
  show ?thesis
  proof (cases "bit (uint b) 7")
    case True
    then have "sint b < 0" by (simp add: s)
    moreover have "128 \<le> uint b"
    proof (rule ccontr)
      assume "\<not> 128 \<le> uint b"
      with u True show False by (simp add: bit_iff_odd)
    qed
    ultimately have "sint b < 0" and "128 \<le> uint b" .
    then show ?thesis by (simp add: valid_bit_def flip: nat_uint_eq)
  next
    case False
    then have "sint b = uint b mod 128" by (simp add: s signed_take_bit_eq_if_positive take_bit_eq_mod)
    moreover have "uint b < 128"
    proof (rule ccontr)
      assume "\<not> uint b < 128"
      with u have "uint b div 128 = 1" by linarith
      with False show False by (simp add: bit_iff_odd)
    qed
    ultimately show ?thesis using u by (simp add: valid_bit_def flip: nat_uint_eq) linarith
  qed
qed

lemma setBit_bit: "bit (setBit n b) i \<longleftrightarrow> valid_bit b \<and> i = unat b \<or> bit n i"
proof -
  have "setBit n b = (if valid_bit b then n OR 2 ^ unat b else n)"
    by (auto simp: setBit_def valid_bit_def)
  then show ?thesis using valid_bit_unat [of b] by (auto simp: bit_or_iff bit_exp_iff)
qed

lemma unsetBit_bit: "bit (unsetBit n b) i \<longleftrightarrow> \<not> (valid_bit b \<and> i = unat b) \<and> bit n i"
proof -
  have "unsetBit n b = (if valid_bit b then n AND NOT (2 ^ unat b) else n)"
    by (auto simp: unsetBit_def valid_bit_def)
  then show ?thesis using valid_bit_unat [of b]
    by (auto simp: bit_and_iff bit_not_iff bit_exp_iff dest: bit_imp_possible_bit)
qed

lemma checkBit_bit: "checkBit n b \<longleftrightarrow> valid_bit b \<and> bit n (unat b)"
proof -
  have "checkBit n b \<longleftrightarrow> valid_bit b \<and> n AND 2 ^ unat b \<noteq> 0"
    by (auto simp: checkBit_def valid_bit_def)
  moreover have "n AND 2 ^ unat b \<noteq> 0 \<longleftrightarrow> bit n (unat b)" if "unat b < 8"
    using that by (auto simp: bit_and_iff bit_exp_iff intro: bit_word_eqI dest: arg_cong [where f = "\<lambda>w. bit w (unat b)"])
  ultimately show ?thesis using valid_bit_unat [of b] by auto
qed

lemma valid_bit_inj: "unat (b :: 8 word) = unat c \<longleftrightarrow> b = c"
  by (simp add: word_unat_eq_iff)

lemma valid_bit_of_nat: "i < 8 \<Longrightarrow> valid_bit (word_of_nat i) \<and> unat (word_of_nat i :: 8 word) = i"
  by (simp add: valid_bit_unat unat_of_nat)

interpretation sigset: bitset setBit unsetBit checkBit valid_bit
proof unfold_locales
  fix n m :: sigset_t
  assume eq: "\<And>i. checkBit n i \<longleftrightarrow> checkBit m i"
  show "n = m"
  proof (rule bit_word_eqI)
    fix i
    assume "i < LENGTH(8)"
    with eq [of "word_of_nat i"] valid_bit_of_nat [of i] show "bit n i \<longleftrightarrow> bit m i"
      by (simp add: checkBit_bit)
  qed
qed (auto simp: setBit_bit unsetBit_bit checkBit_bit valid_bit_inj)

text \<open>The whole-word operations of `sigprocmask` and `handleSignals`, member by member.\<close>

lemma checkBit_or [simp]: "checkBit (n OR m) b \<longleftrightarrow> checkBit n b \<or> checkBit m b"
  by (auto simp: checkBit_bit bit_or_iff)

lemma checkBit_and [simp]: "checkBit (n AND m) b \<longleftrightarrow> checkBit n b \<and> checkBit m b"
  by (auto simp: checkBit_bit bit_and_iff)

lemma checkBit_not [simp]: "checkBit (NOT n) b \<longleftrightarrow> valid_bit b \<and> \<not> checkBit n b"
  by (auto simp: checkBit_bit bit_not_iff valid_bit_unat)

lemma checkBit_0 [simp]: "\<not> checkBit 0 b"
  by (simp add: checkBit_bit)

lemma checkBit_all [simp]: "checkBit (-1) b \<longleftrightarrow> valid_bit b"
  using checkBit_not [of 0 b] by simp

text \<open>The five signals as bit numbers.\<close>

definition is_signal :: "sig_type \<Rightarrow> bool" where
  "is_signal s \<longleftrightarrow> s \<le> 4"

lemma is_signal_unat: "is_signal s \<Longrightarrow> unat (ucast s :: 8 word) = unat s \<and> unat s < 5"
  by (simp add: is_signal_def word_le_nat_alt unsigned_ucast_eq take_bit_nat_eq_self)

lemma is_signal_bit [simp]: "is_signal s \<Longrightarrow> valid_bit (ucast s)"
  using is_signal_unat [of s] by (simp add: valid_bit_unat)

lemma is_signal_inj: "is_signal s \<Longrightarrow> is_signal t \<Longrightarrow> (ucast s :: 8 word) = ucast t \<longleftrightarrow> s = t"
  using is_signal_unat [of s] is_signal_unat [of t] by (metis word_unat_eq_iff)

lemma is_signal_codes [simp]:
  "is_signal SIG_KILL" "is_signal SIG_UBLOCK" "is_signal SIG_USR" "is_signal SIG_CHLD" "is_signal SIG_CPU"
  by (simp_all add: is_signal_def sig_codes)

lemma sig_distinct [simp]:
  "SIG_KILL \<noteq> SIG_UBLOCK" "SIG_KILL \<noteq> SIG_USR" "SIG_KILL \<noteq> SIG_CHLD" "SIG_KILL \<noteq> SIG_CPU"
  "SIG_UBLOCK \<noteq> SIG_KILL" "SIG_UBLOCK \<noteq> SIG_USR" "SIG_UBLOCK \<noteq> SIG_CHLD" "SIG_UBLOCK \<noteq> SIG_CPU"
  "SIG_USR \<noteq> SIG_KILL" "SIG_USR \<noteq> SIG_UBLOCK" "SIG_USR \<noteq> SIG_CHLD" "SIG_USR \<noteq> SIG_CPU"
  "SIG_CHLD \<noteq> SIG_KILL" "SIG_CHLD \<noteq> SIG_UBLOCK" "SIG_CHLD \<noteq> SIG_USR" "SIG_CHLD \<noteq> SIG_CPU"
  "SIG_CPU \<noteq> SIG_KILL" "SIG_CPU \<noteq> SIG_UBLOCK" "SIG_CPU \<noteq> SIG_USR" "SIG_CPU \<noteq> SIG_CHLD"
  by (simp_all add: sig_codes)

end
