(* ===== verification/Sig.thy ===== *)
theory Sig
  imports Threads_Base Sigset
begin

text \<open>
  The thread system with signals, `Pintos/Added_Signals/thread.h`, `thread.c`,
  `signal.h` and `signal.c`: its data and its operations, one definition per
  function.  `P` is the record of Pintos services.  A context switch delivers
  signals, delivery may kill the thread just chosen, and its death is another context switch:
  the functions on this cycle take the death as an argument `exit`, and
  `thread_exit` closes the cycle with fuel for the number of nested deaths.
\<close>

subsection \<open>Data\<close>

record thread =
  tid :: tid_t
  status :: thread_status
  name :: string
  stack :: nat
  priority :: int
  parent :: tid_t
  sigign :: sigset_t
  sigmask :: sigset_t
  starttime :: "64 word"
  maxlifetime :: "64 word"
  child :: "32 word"
  dchild :: "32 word"
  magic :: "32 word"
  frames :: "frame list"

record thread_signal =
  sig :: sig_type
  sender :: int
  reciever :: addr

text \<open>What the kernel prints.\<close>

datatype event =
    Statistics int int int
  | Sig_kill
  | Max_lifetime int
  | Sig_usr int
  | Sig_chld "32 word" "32 word"

text \<open>
  The static variables of `thread.c` and the list `sig_list` of `signal.c`,
  the memory of the threads and of the queued signals, the page the stack pointer is in, the
  Pintos state and the console.
\<close>

record ('l, 'h) kernel =
  heap :: "addr \<Rightarrow> thread option"
  sigs :: "addr \<Rightarrow> thread_signal option"
  ready_list :: 'l
  all_list :: 'l
  sig_list :: 'l
  idle_thread :: "addr option"
  initial_thread :: "addr option"
  next_tid :: tid_t
  idle_ticks :: int
  kernel_ticks :: int
  user_ticks :: int
  clock_count :: "64 word"
  thread_ticks :: "32 word"
  cpu :: addr
  hw :: 'h
  console :: "event list"

definition TIME_SLICE :: "32 word" where "TIME_SLICE = 4"

definition printf :: "event \<Rightarrow> ('l, 'h) kernel \<Rightarrow> ('l, 'h) kernel" where
  "printf e s = s\<lparr>console := console s @ [e]\<rparr>"

definition set_thread :: "addr \<Rightarrow> thread \<Rightarrow> ('l, 'h) kernel \<Rightarrow> ('l, 'h) kernel" where
  "set_thread t th s = s\<lparr>heap := (heap s)(t \<mapsto> th)\<rparr>"

definition set_signal :: "addr \<Rightarrow> thread_signal \<Rightarrow> ('l, 'h) kernel \<Rightarrow> ('l, 'h) kernel" where
  "set_signal a x s = s\<lparr>sigs := (sigs s)(a \<mapsto> x)\<rparr>"

definition intr_off :: "('l, 'h) pintos \<Rightarrow> ('l, 'h) kernel \<Rightarrow> ('l, 'h) kernel" where
  "intr_off P s = s\<lparr>hw := snd (intr_disable P (hw s))\<rparr>"

definition intr_restore :: "('l, 'h) pintos \<Rightarrow> intr_level \<Rightarrow> ('l, 'h) kernel \<Rightarrow> ('l, 'h) kernel" where
  "intr_restore P l s = s\<lparr>hw := intr_set_level P l (hw s)\<rparr>"

subsection \<open>The running thread\<close>

definition running_thread :: "('l, 'h) kernel \<Rightarrow> addr" where
  "running_thread s = cpu s"

definition is_thread :: "thread \<Rightarrow> bool" where
  "is_thread th \<longleftrightarrow> magic th = THREAD_MAGIC"

definition thread_current :: "('l, 'h) kernel \<Rightarrow> addr res" where
  "thread_current s =
     (let t = running_thread s in
      bind (peek (heap s) t) (\<lambda>th.
      ASSERT (is_thread th) (
      ASSERT (status th = THREAD_RUNNING) (
      Inr t))))"

text \<open>`thread_current ()->f` read and updated.\<close>

definition current :: "('l, 'h) kernel \<Rightarrow> thread res" where
  "current s = bind (thread_current s) (peek (heap s))"

definition update_current :: "(thread \<Rightarrow> thread) \<Rightarrow> ('l, 'h) kernel \<Rightarrow> ('l, 'h) kernel res" where
  "update_current f s =
     bind (thread_current s) (\<lambda>t. bind (peek (heap s) t) (\<lambda>th. Inr (set_thread t (f th) s)))"

definition thread_name :: "('l, 'h) kernel \<Rightarrow> string res" where
  "thread_name s = bind (current s) (\<lambda>th. Inr (name th))"

definition thread_tid :: "('l, 'h) kernel \<Rightarrow> tid_t res" where
  "thread_tid s = bind (current s) (\<lambda>th. Inr (tid th))"

definition thread_set_priority :: "int \<Rightarrow> ('l, 'h) kernel \<Rightarrow> ('l, 'h) kernel res" where
  "thread_set_priority p s = update_current (\<lambda>th. th\<lparr>priority := p\<rparr>) s"

definition thread_get_priority :: "('l, 'h) kernel \<Rightarrow> int res" where
  "thread_get_priority s = bind (current s) (\<lambda>th. Inr (priority th))"

definition thread_set_nice :: "int \<Rightarrow> ('l, 'h) kernel \<Rightarrow> ('l, 'h) kernel" where
  "thread_set_nice nice s = s"

definition thread_get_nice :: "('l, 'h) kernel \<Rightarrow> int" where
  "thread_get_nice s = 0"

definition thread_get_load_avg :: "('l, 'h) kernel \<Rightarrow> int" where
  "thread_get_load_avg s = 0"

definition thread_get_recent_cpu :: "('l, 'h) kernel \<Rightarrow> int" where
  "thread_get_recent_cpu s = 0"

definition thread_print_stats :: "('l, 'h) kernel \<Rightarrow> ('l, 'h) kernel" where
  "thread_print_stats s = printf (Statistics (idle_ticks s) (kernel_ticks s) (user_ticks s)) s"

subsection \<open>A thread's own signal settings\<close>

definition Signal ::
  "sig_type \<Rightarrow> sig_action \<Rightarrow> ('l, 'h) kernel \<Rightarrow> (8 word \<times> ('l, 'h) kernel) res"
where
  "Signal sg a s =
     bind (thread_current s) (\<lambda>t. bind (peek (heap s) t) (\<lambda>th.
     if a = SIG_DFL then Inr (0, set_thread t (th\<lparr>sigign := setBit (sigign th) (ucast sg)\<rparr>) s)
     else if a = SIG_IGN then Inr (0, set_thread t (th\<lparr>sigign := unsetBit (sigign th) (ucast sg)\<rparr>) s)
     else Inr (-1, s)))"

text \<open>Gives the return value, what `oldset` points to afterwards, and the state.\<close>

definition sigprocmask ::
  "procmask_how \<Rightarrow> sigset_t option \<Rightarrow> sigset_t option \<Rightarrow> ('l, 'h) kernel
    \<Rightarrow> (8 word \<times> sigset_t option \<times> ('l, 'h) kernel) res"
where
  "sigprocmask h newset oldset s =
     bind (thread_current s) (\<lambda>t. bind (peek (heap s) t) (\<lambda>th.
     let old = (case oldset of None \<Rightarrow> None | Some _ \<Rightarrow> Some (sigmask th)) in
     case newset of
       None \<Rightarrow> Inr (0, old, s)
     | Some op \<Rightarrow>
         if h = SIG_BLOCK then Inr (0, old, set_thread t (th\<lparr>sigmask := sigmask th OR op\<rparr>) s)
         else if h = SIG_UNBLOCK then
           let op = NOT op in Inr (0, old, set_thread t (th\<lparr>sigmask := sigmask th AND op\<rparr>) s)
         else if h = SIG_SETMASK then Inr (0, old, set_thread t (th\<lparr>sigmask := op\<rparr>) s)
         else Inr (-1, old, s)))"

definition setlifetime :: "64 word \<Rightarrow> ('l, 'h) kernel \<Rightarrow> ('l, 'h) kernel res" where
  "setlifetime x s = update_current (\<lambda>th. th\<lparr>maxlifetime := x\<rparr>) s"

definition getRoot :: "('l, 'h) kernel \<Rightarrow> 'l" where
  "getRoot s = sig_list s"

subsection \<open>Sending signals\<close>

text \<open>The thread with a given id, searched in `all_list`; `n` is the loop's fuel.\<close>

definition get_thread :: "('l, 'h) pintos \<Rightarrow> nat \<Rightarrow> tid_t \<Rightarrow> ('l, 'h) kernel \<Rightarrow> addr option res" where
  "get_thread P n t s =
     for_each n (\<lambda>r. r \<noteq> None) (\<lambda>_. list_next P (all_list s))
       (\<lambda>tt r. bind (peek (heap s) tt) (\<lambda>th. Inr (if tid th = t then Some tt else None)))
       (list_begin P (all_list s)) None"

text \<open>
  The loop over `sig_list` that looks for a queued signal `sg` for `dt` and renews
  its sender, and the code after it that queues a new one.  `kill` and
  `thread_exit` contain the same statements.
\<close>

definition find_signal ::
  "('l, 'h) pintos \<Rightarrow> nat \<Rightarrow> addr \<Rightarrow> sig_type \<Rightarrow> int \<Rightarrow> ('l, 'h) kernel \<Rightarrow> (bool \<times> ('l, 'h) kernel) res"
where
  "find_signal P n dt sg snd_tid s =
     for_each n fst (\<lambda>(_, s). list_next P (sig_list s))
       (\<lambda>e (found, s). bind (peek (sigs s) e) (\<lambda>ts.
          if reciever ts = dt \<and> sig ts = sg
          then Inr (True, set_signal e (ts\<lparr>sender := snd_tid\<rparr>) s) else Inr (found, s)))
       (list_begin P (sig_list s)) (False, s)"

definition queue_signal ::
  "('l, 'h) pintos \<Rightarrow> nat \<Rightarrow> addr \<Rightarrow> sig_type \<Rightarrow> int \<Rightarrow> ('l, 'h) kernel \<Rightarrow> ('l, 'h) kernel res"
where
  "queue_signal P n dt sg snd_tid s =
     bind (find_signal P n dt sg snd_tid s) (\<lambda>(found, s).
     if \<not> found then
       let (a, h) = malloc P (hw s); s = s\<lparr>hw := h\<rparr> in
       deref a (\<lambda>x. Inr ((set_signal x \<lparr>sig = sg, sender = snd_tid, reciever = dt\<rparr> s)
         \<lparr>sig_list := list_push_back P (sig_list s) x\<rparr>))
     else Inr s)"

definition kill ::
  "('l, 'h) pintos \<Rightarrow> nat \<Rightarrow> tid_t \<Rightarrow> sig_type \<Rightarrow> ('l, 'h) kernel \<Rightarrow> (8 word \<times> ('l, 'h) kernel) res"
where
  "kill P n to_tid sg s =
     (if sg = SIG_KILL \<or> sg = SIG_UBLOCK \<or> sg = SIG_USR then
        bind (thread_current s) (\<lambda>st.
        let old_level = fst (intr_disable P (hw s)); s = intr_off P s in
        bind (get_thread P n to_tid s) (\<lambda>dt.
        case dt of
          None \<Rightarrow> Inr (-1, s)
        | Some dt \<Rightarrow>
            bind (peek (heap s) dt) (\<lambda>dth. bind (peek (heap s) st) (\<lambda>sth.
            if sg = SIG_KILL \<and> parent dth \<noteq> tid sth then Inr (-1, s)
            else bind (queue_signal P n dt sg (tid sth) s) (\<lambda>s.
              Inr (0, intr_restore P old_level s))))))
      else Inr (-1, s))"

subsection \<open>Waking a thread\<close>

definition thread_unblock ::
  "('l, 'h) pintos \<Rightarrow> addr \<Rightarrow> ('l, 'h) kernel \<Rightarrow> ('l, 'h) kernel res"
where
  "thread_unblock P t s =
     bind (peek (heap s) t) (\<lambda>th.
     ASSERT (is_thread th) (
     let old_level = fst (intr_disable P (hw s)); s = intr_off P s in
     ASSERT (status th = THREAD_BLOCKED) (
     let s = s\<lparr>ready_list := list_push_back P (ready_list s) t\<rparr>;
         s = set_thread t (th\<lparr>status := THREAD_READY\<rparr>) s
     in Inr (intr_restore P old_level s))))"

subsection \<open>Delivering signals\<close>

text \<open>
  One round of the loop over `sig_list`, with the locals `sigd` and `sender`: the
  signals to deliver to the thread `t` that was just chosen, and who sent SIG_USR.
\<close>

definition take_signal ::
  "('l, 'h) pintos \<Rightarrow> addr \<Rightarrow> addr \<Rightarrow> sigset_t \<times> int \<times> ('l, 'h) kernel
    \<Rightarrow> (sigset_t \<times> int \<times> ('l, 'h) kernel) res"
where
  "take_signal P t e = (\<lambda>(sigd, from, s).
     bind (peek (sigs s) e) (\<lambda>x.
     let ttt = reciever x; drop = (\<lambda>s. s\<lparr>sig_list := list_remove P (sig_list s) e\<rparr>) in
     if sig x = SIG_UBLOCK then
       bind (peek (heap s) ttt) (\<lambda>tth.
       if \<not> checkBit (sigmask tth) (ucast SIG_UBLOCK) then
         if checkBit (sigign tth) (ucast SIG_UBLOCK) then
           bind (if status tth = THREAD_BLOCKED then thread_unblock P ttt s else Inr s) (\<lambda>s.
           Inr (sigd, from, drop s))
         else Inr (sigd, from, s)
       else Inr (sigd, from, s))
     else if ttt = t then
       if sig x = SIG_KILL then Inr (setBit sigd (ucast (sig x)), from, drop s)
       else bind (peek (heap s) t) (\<lambda>th.
         if \<not> checkBit (sigmask th) (ucast (sig x)) then
           Inr (setBit sigd (ucast (sig x)), if sig x = SIG_USR then sender x else from, drop s)
         else Inr (sigd, from, s))
     else Inr (sigd, from, s)))"

definition take_signals ::
  "('l, 'h) pintos \<Rightarrow> nat \<Rightarrow> addr \<Rightarrow> ('l, 'h) kernel \<Rightarrow> (sigset_t \<times> int \<times> ('l, 'h) kernel) res"
where
  "take_signals P n t s =
     for_each n (\<lambda>_. False) (\<lambda>(_, _, s). list_next P (sig_list s)) (take_signal P t)
       (list_begin P (sig_list s)) (0, 0, s)"

definition USR_handler :: "int \<Rightarrow> ('l, 'h) kernel \<Rightarrow> ('l, 'h) kernel" where
  "USR_handler x s = printf (Sig_usr x) s"

definition CHILD_handler :: "('l, 'h) kernel \<Rightarrow> ('l, 'h) kernel res" where
  "CHILD_handler s =
     bind (thread_current s) (\<lambda>t. bind (peek (heap s) t) (\<lambda>th.
     let th = th\<lparr>dchild := dchild th + 1\<rparr> in
     Inr (printf (Sig_chld (child th) (child th - dchild th)) (set_thread t th s))))"

text \<open>
  The two handlers that end in `thread_exit`, the argument `exit`: it does not return, so the
  state they give is the one in which the next thread comes out of its `schedule ()`.
\<close>

definition KILL_handler ::
  "(('l, 'h) kernel \<Rightarrow> ('l, 'h) kernel res) \<Rightarrow> ('l, 'h) kernel \<Rightarrow> ('l, 'h) kernel res"
where
  "KILL_handler exit s = exit (printf Sig_kill s)"

definition CPU_handler ::
  "(('l, 'h) kernel \<Rightarrow> ('l, 'h) kernel res) \<Rightarrow> int \<Rightarrow> ('l, 'h) kernel \<Rightarrow> ('l, 'h) kernel res"
where
  "CPU_handler exit maxlife s = exit (printf (Max_lifetime maxlife) s)"

text \<open>The second half of `handleSignals`, from the test of the lifetime on.\<close>

definition run_handlers ::
  "(('l, 'h) kernel \<Rightarrow> ('l, 'h) kernel res) \<Rightarrow> bool \<Rightarrow> addr \<Rightarrow> sigset_t \<Rightarrow> int \<Rightarrow> ('l, 'h) kernel
    \<Rightarrow> ('l, 'h) kernel res"
where
  "run_handlers exit scpu t sigd from s =
     bind (peek (heap s) t) (\<lambda>th.
     let sigd = (if \<not> checkBit (sigmask th) (ucast SIG_CPU) then
                   if scpu then setBit sigd (ucast SIG_CPU) else sigd
                 else sigd);
         calls = sigd AND sigign th;
         s = (if checkBit calls (ucast SIG_USR) then USR_handler from s else s) in
     bind (if checkBit calls (ucast SIG_CHLD) then CHILD_handler s else Inr s) (\<lambda>s.
     if checkBit calls (ucast SIG_CPU)
     then CPU_handler exit (sint (ucast (maxlifetime th) :: 32 word)) s
     else if checkBit sigd (ucast SIG_KILL) then KILL_handler exit s
     else Inr s))"

definition handleSignals ::
  "('l, 'h) pintos \<Rightarrow> nat \<Rightarrow> (('l, 'h) kernel \<Rightarrow> ('l, 'h) kernel res) \<Rightarrow> bool \<Rightarrow> ('l, 'h) kernel
    \<Rightarrow> ('l, 'h) kernel res"
where
  "handleSignals P n exit scpu s =
     bind (thread_current s) (\<lambda>t.
     bind (take_signals P n t s) (\<lambda>(sigd, from, s).
     run_handlers exit scpu t sigd from s))"

subsection \<open>Switching threads\<close>

definition next_thread_to_run ::
  "('l, 'h) pintos \<Rightarrow> ('l, 'h) kernel \<Rightarrow> addr option \<times> ('l, 'h) kernel"
where
  "next_thread_to_run P s =
     (if list_empty P (ready_list s) then (idle_thread s, s)
      else let (t, l) = list_pop_front P (ready_list s) in (Some t, s\<lparr>ready_list := l\<rparr>))"

definition thread_schedule_tail ::
  "('l, 'h) pintos \<Rightarrow> nat \<Rightarrow> (('l, 'h) kernel \<Rightarrow> ('l, 'h) kernel res) \<Rightarrow> addr option
    \<Rightarrow> ('l, 'h) kernel \<Rightarrow> ('l, 'h) kernel res"
where
  "thread_schedule_tail P n exit prev s =
     (let cur = running_thread s in
      ASSERT (intr_get_level P (hw s) = INTR_OFF) (
      bind (peek (heap s) cur) (\<lambda>th.
      let s = (set_thread cur (th\<lparr>status := THREAD_RUNNING\<rparr>) s)\<lparr>thread_ticks := 0\<rparr> in
      bind (case prev of
              None \<Rightarrow> Inr s
            | Some p \<Rightarrow>
                bind (peek (heap s) p) (\<lambda>pth.
                if status pth = THREAD_DYING \<and> prev \<noteq> initial_thread s then
                  ASSERT (p \<noteq> cur) (
                  Inr (s\<lparr>heap := (heap s)(p := None), hw := palloc_free_page P p (hw s)\<rparr>))
                else Inr s)) (\<lambda>s.
      let scpu = (maxlifetime th < clock_count s - starttime th \<and> maxlifetime th \<noteq> 0) in
      handleSignals P n exit scpu s))))"

definition schedule ::
  "('l, 'h) pintos \<Rightarrow> nat \<Rightarrow> (('l, 'h) kernel \<Rightarrow> ('l, 'h) kernel res) \<Rightarrow> ('l, 'h) kernel
    \<Rightarrow> ('l, 'h) kernel res"
where
  "schedule P n exit s =
     (let cur = running_thread s; (nxt, s) = next_thread_to_run P s in
      ASSERT (intr_get_level P (hw s) = INTR_OFF) (
      bind (peek (heap s) cur) (\<lambda>cth.
      ASSERT (status cth \<noteq> THREAD_RUNNING) (
      case nxt of
        None \<Rightarrow> Inl Panic
      | Some m \<Rightarrow>
          bind (peek (heap s) m) (\<lambda>mth.
          ASSERT (is_thread mth) (
          if cur \<noteq> m then
            let (prev, page) = switch_threads P cur m in
            thread_schedule_tail P n exit (Some prev) (s\<lparr>cpu := page\<rparr>)
          else thread_schedule_tail P n exit None s))))))"

subsection \<open>Dying\<close>

text \<open>
  One round of the loop over `all_list`: an orphan loses its parent, a parent gets SIG_CHLD.
\<close>

definition leave_family ::
  "('l, 'h) pintos \<Rightarrow> nat \<Rightarrow> addr \<Rightarrow> addr \<Rightarrow> ('l, 'h) kernel \<Rightarrow> ('l, 'h) kernel res"
where
  "leave_family P n t tt s =
     bind (peek (heap s) t) (\<lambda>th. bind (peek (heap s) tt) (\<lambda>tth.
     let s = (if parent tth = tid th then set_thread tt (tth\<lparr>parent := -1\<rparr>) s else s) in
     bind (peek (heap s) t) (\<lambda>th.
     if parent th = tid tth then queue_signal P n tt SIG_CHLD (-1) s else Inr s)))"

definition exit_body ::
  "('l, 'h) pintos \<Rightarrow> nat \<Rightarrow> (('l, 'h) kernel \<Rightarrow> ('l, 'h) kernel res) \<Rightarrow> ('l, 'h) kernel
    \<Rightarrow> ('l, 'h) kernel res"
where
  "exit_body P n exit s =
     ASSERT (\<not> intr_context P (hw s)) (
     bind (thread_current s) (\<lambda>t.
     let s = intr_off P s in
     bind (for_each n (\<lambda>_. False) (\<lambda>s. list_next P (all_list s)) (leave_family P n t)
             (list_begin P (all_list s)) s) (\<lambda>s.
     bind (thread_current s) (\<lambda>t.
     let s = s\<lparr>all_list := list_remove P (all_list s) t\<rparr> in
     bind (update_current (\<lambda>th. th\<lparr>status := THREAD_DYING\<rparr>) s) (\<lambda>s.
     schedule P n exit s)))))"

primrec thread_exit ::
  "('l, 'h) pintos \<Rightarrow> nat \<Rightarrow> nat \<Rightarrow> ('l, 'h) kernel \<Rightarrow> ('l, 'h) kernel res"
where
  "thread_exit P n 0 s = Inl Out_of_fuel"
| "thread_exit P n (Suc k) s = exit_body P n (thread_exit P n k) s"

subsection \<open>Back from a switch\<close>

definition kernel_thread ::
  "('l, 'h) pintos \<Rightarrow> addr option \<Rightarrow> addr \<Rightarrow> ('l, 'h) kernel \<Rightarrow> ('l, 'h) kernel res"
where
  "kernel_thread P function aux s =
     ASSERT (function \<noteq> None) (Inr (s\<lparr>hw := intr_enable P (hw s)\<rparr>))"

definition resume :: "('l, 'h) pintos \<Rightarrow> ('l, 'h) kernel \<Rightarrow> ('l, 'h) kernel res" where
  "resume P s =
     bind (peek (heap s) (cpu s)) (\<lambda>th.
     case frames th of
       in_thread_yield old_level # fs \<Rightarrow>
         Inr (intr_restore P old_level (set_thread (cpu s) (th\<lparr>frames := fs\<rparr>) s))
     | in_thread_block # fs \<Rightarrow> Inr (set_thread (cpu s) (th\<lparr>frames := fs\<rparr>) s)
     | switch_threads_frame switch_entry_code b # switch_entry_frame kernel_thread_code
         # kernel_thread_frame e f a # fs \<Rightarrow>
         kernel_thread P f a (set_thread (cpu s) (th\<lparr>frames := fs\<rparr>) s)
     | _ \<Rightarrow> Inl Bad_deref)"

text \<open>The running thread's call of `thread_exit`, up to the next thread's own code.\<close>

definition exit_current ::
  "('l, 'h) pintos \<Rightarrow> nat \<Rightarrow> nat \<Rightarrow> ('l, 'h) kernel \<Rightarrow> ('l, 'h) kernel res"
where
  "exit_current P n k s = bind (thread_exit P n k s) (resume P)"

subsection \<open>Blocking and yielding\<close>

definition thread_block ::
  "('l, 'h) pintos \<Rightarrow> nat \<Rightarrow> nat \<Rightarrow> ('l, 'h) kernel \<Rightarrow> ('l, 'h) kernel res"
where
  "thread_block P n k s =
     ASSERT (\<not> intr_context P (hw s)) (
     ASSERT (intr_get_level P (hw s) = INTR_OFF) (
     bind (update_current (\<lambda>th. th\<lparr>status := THREAD_BLOCKED, frames := in_thread_block # frames th\<rparr>) s) (\<lambda>s.
     bind (schedule P n (thread_exit P n k) s) (resume P))))"

definition thread_yield ::
  "('l, 'h) pintos \<Rightarrow> nat \<Rightarrow> nat \<Rightarrow> ('l, 'h) kernel \<Rightarrow> ('l, 'h) kernel res"
where
  "thread_yield P n k s =
     bind (thread_current s) (\<lambda>cur.
     ASSERT (\<not> intr_context P (hw s)) (
     let old_level = fst (intr_disable P (hw s)); s = intr_off P s;
         s = (if Some cur \<noteq> idle_thread s
              then s\<lparr>ready_list := list_push_back P (ready_list s) cur\<rparr> else s) in
     bind (peek (heap s) cur) (\<lambda>th.
     let s = set_thread cur
               (th\<lparr>status := THREAD_READY, frames := in_thread_yield old_level # frames th\<rparr>) s
     in bind (schedule P n (thread_exit P n k) s) (resume P))))"

subsection \<open>The timer tick\<close>

definition thread_tick :: "('l, 'h) pintos \<Rightarrow> ('l, 'h) kernel \<Rightarrow> ('l, 'h) kernel res" where
  "thread_tick P s =
     bind (thread_current s) (\<lambda>t.
     bind (if Some t = idle_thread s
           then bind (sinc 64 (idle_ticks s)) (\<lambda>m. Inr (s\<lparr>idle_ticks := m\<rparr>))
           else bind (sinc 64 (kernel_ticks s)) (\<lambda>m. Inr (s\<lparr>kernel_ticks := m\<rparr>))) (\<lambda>s.
     let s = s\<lparr>clock_count := clock_count s + 1\<rparr>; s = s\<lparr>thread_ticks := thread_ticks s + 1\<rparr> in
     if TIME_SLICE \<le> thread_ticks s then Inr (s\<lparr>hw := intr_yield_on_return P (hw s)\<rparr>) else Inr s))"

subsection \<open>Creating threads\<close>

definition allocate_tid :: "('l, 'h) kernel \<Rightarrow> (tid_t \<times> ('l, 'h) kernel) res" where
  "allocate_tid s = bind (sinc 32 (next_tid s)) (\<lambda>m. Inr (next_tid s, s\<lparr>next_tid := m\<rparr>))"

definition init_thread ::
  "('l, 'h) pintos \<Rightarrow> addr \<Rightarrow> string option \<Rightarrow> int \<Rightarrow> ('l, 'h) kernel \<Rightarrow> ('l, 'h) kernel res"
where
  "init_thread P t nm prio s =
     ASSERT (PRI_MIN \<le> prio \<and> prio \<le> PRI_MAX) (
     case nm of
       None \<Rightarrow> Inl Panic
     | Some nm \<Rightarrow>
         Inr ((set_thread t \<lparr>tid = 0, status = THREAD_BLOCKED, name = take 15 nm, stack = t + PGSIZE P,
                 priority = prio, parent = 0, sigign = 0, sigmask = 0, starttime = 0, maxlifetime = 0,
                 child = 0, dchild = 0, magic = THREAD_MAGIC, frames = []\<rparr> s)
               \<lparr>all_list := list_push_back P (all_list s) t\<rparr>))"

definition alloc_frame :: "addr \<Rightarrow> nat \<Rightarrow> frame \<Rightarrow> ('l, 'h) kernel \<Rightarrow> ('l, 'h) kernel res" where
  "alloc_frame t sz fr s =
     bind (peek (heap s) t) (\<lambda>th.
     ASSERT (is_thread th) (
     ASSERT (sz mod 4 = 0) (
     Inr (set_thread t (th\<lparr>stack := stack th - sz, frames := fr # frames th\<rparr>) s))))"

definition thread_create ::
  "('l, 'h) pintos \<Rightarrow> string option \<Rightarrow> int \<Rightarrow> addr option \<Rightarrow> addr \<Rightarrow> ('l, 'h) kernel
    \<Rightarrow> (tid_t \<times> ('l, 'h) kernel) res"
where
  "thread_create P nm prio function aux s =
     ASSERT (function \<noteq> None) (
     case palloc_get_page P (hw s) of
       (None, h) \<Rightarrow> Inr (TID_ERROR, s\<lparr>hw := h\<rparr>)
     | (Some t, h) \<Rightarrow>
         bind (init_thread P t nm prio (s\<lparr>hw := h\<rparr>)) (\<lambda>s.
         bind (allocate_tid s) (\<lambda>(new_tid, s).
         bind (peek (heap s) t) (\<lambda>th.
         let s = set_thread t (th\<lparr>tid := new_tid\<rparr>) s;
             old_level = fst (intr_disable P (hw s)); s = intr_off P s in
         bind (alloc_frame t sizeof_kernel_thread_frame (kernel_thread_frame None function aux) s) (\<lambda>s.
         bind (alloc_frame t (sizeof_switch_entry_frame P) (switch_entry_frame kernel_thread_code) s) (\<lambda>s.
         bind (alloc_frame t (sizeof_switch_threads_frame P)
                 (switch_threads_frame switch_entry_code 0) s) (\<lambda>s.
         bind (thread_current s) (\<lambda>tparent.
         bind (peek (heap s) tparent) (\<lambda>pth.
         bind (peek (heap s) t) (\<lambda>th.
         let s = set_thread t (th\<lparr>parent := tid pth\<rparr>) s in
         bind (update_current (\<lambda>pth. pth\<lparr>child := child pth + 1\<rparr>) s) (\<lambda>s.
         bind (peek (heap s) t) (\<lambda>th.
         let s = set_thread t (th\<lparr>sigign := NOT 0, sigmask := 0, starttime := clock_count s,
                   maxlifetime := 0, child := 0, dchild := 0\<rparr>) s;
             s = intr_restore P old_level s in
         bind (thread_unblock P t s) (\<lambda>s.
         Inr (new_tid, s))))))))))))))"

definition thread_init :: "('l, 'h) pintos \<Rightarrow> ('l, 'h) kernel \<Rightarrow> ('l, 'h) kernel res" where
  "thread_init P s =
     ASSERT (intr_get_level P (hw s) = INTR_OFF) (
     let s = s\<lparr>ready_list := list_init P, all_list := list_init P\<rparr>;
         t = running_thread s; s = s\<lparr>initial_thread := Some t\<rparr> in
     bind (init_thread P t (Some ''main'') PRI_DEFAULT s) (\<lambda>s.
     bind (peek (heap s) t) (\<lambda>th.
     let s = set_thread t (th\<lparr>status := THREAD_RUNNING\<rparr>) s in
     bind (allocate_tid s) (\<lambda>(new_tid, s).
     bind (peek (heap s) t) (\<lambda>th.
     let s = set_thread t (th\<lparr>tid := new_tid, parent := -1, sigign := NOT 0, sigmask := 0,
               starttime := clock_count s, maxlifetime := 0, child := -1, dchild := 0\<rparr>) s in
     Inr (s\<lparr>sig_list := list_init P\<rparr>))))))"

subsection \<open>The idle thread, starting up\<close>

text \<open>`sema_up` and `sema_down` are `synch.c`'s, on the semaphore shared with `idle`.\<close>

definition idle_begin ::
  "(('l, 'h) kernel \<Rightarrow> ('l, 'h) kernel res) \<Rightarrow> ('l, 'h) kernel \<Rightarrow> ('l, 'h) kernel res"
where
  "idle_begin sema_up s =
     bind (thread_current s) (\<lambda>t.
     let s = s\<lparr>idle_thread := Some t\<rparr> in
     bind (peek (heap s) t) (\<lambda>th.
     sema_up (set_thread t (th\<lparr>parent := -1\<rparr>) s)))"

definition idle_round ::
  "('l, 'h) pintos \<Rightarrow> nat \<Rightarrow> nat \<Rightarrow> ('l, 'h) kernel \<Rightarrow> ('l, 'h) kernel res"
where
  "idle_round P n k s = thread_block P n k (intr_off P s)"

definition idle_wait :: "('l, 'h) pintos \<Rightarrow> ('l, 'h) kernel \<Rightarrow> ('l, 'h) kernel" where
  "idle_wait P s = s\<lparr>hw := intr_enable P (hw s)\<rparr>"

definition thread_start ::
  "('l, 'h) pintos \<Rightarrow> addr \<Rightarrow> addr \<Rightarrow> (('l, 'h) kernel \<Rightarrow> ('l, 'h) kernel res)
    \<Rightarrow> ('l, 'h) kernel \<Rightarrow> ('l, 'h) kernel res"
where
  "thread_start P idle idle_started sema_down s =
     bind (thread_create P (Some ''idle'') PRI_MIN (Some idle) idle_started s) (\<lambda>(_, s).
     sema_down (s\<lparr>hw := intr_enable P (hw s)\<rparr>))"

definition thread_foreach ::
  "('l, 'h) pintos \<Rightarrow> nat \<Rightarrow> (addr \<Rightarrow> ('l, 'h) kernel \<Rightarrow> ('l, 'h) kernel res)
    \<Rightarrow> ('l, 'h) kernel \<Rightarrow> ('l, 'h) kernel res"
where
  "thread_foreach P n func s =
     ASSERT (intr_get_level P (hw s) = INTR_OFF) (
     for_each n (\<lambda>_. False) (\<lambda>s. list_next P (all_list s)) func (list_begin P (all_list s)) s)"

end
