(* ===== verification/Sig_Inv.thy ===== *)
theory Sig_Inv
  imports Sig
begin

text \<open>
  The invariant of the thread system with signals, the queue of signals as a list of
  records, and what queuing a signal does to it.
\<close>

subsection \<open>The invariant\<close>

text \<open>
  `r` is the thread that runs, `None` in the middle of a switch; `D` holds the thread
  that is being destroyed.  The idle thread has no parent and no lifetime, so it cannot be killed.
\<close>

definition thread_ok ::
  "('l \<Rightarrow> addr list) \<Rightarrow> addr option \<Rightarrow> addr set \<Rightarrow> ('l, 'h) kernel \<Rightarrow> addr \<Rightarrow> thread \<Rightarrow> bool"
where
  "thread_ok items r D s t th \<longleftrightarrow>
     is_thread th \<and>
     1 \<le> tid th \<and> tid th < next_tid s \<and> parent th \<noteq> tid th \<and>
     (status th = THREAD_RUNNING \<longleftrightarrow> r = Some t) \<and>
     (status th = THREAD_DYING \<longrightarrow> t \<in> D \<or> initial_thread s = Some t) \<and>
     (status th \<noteq> THREAD_DYING \<longleftrightarrow> t \<in> set (items (all_list s))) \<and>
     (status th \<noteq> THREAD_DYING \<and> r \<noteq> Some t \<longrightarrow> resumable (frames th)) \<and>
     (t \<in> set (items (ready_list s)) \<longrightarrow> status th = THREAD_READY) \<and>
     (status th = THREAD_READY \<and> idle_thread s \<noteq> Some t \<longrightarrow> t \<in> set (items (ready_list s))) \<and>
     (idle_thread s = Some t \<longrightarrow> parent th = -1 \<and> maxlifetime th = 0)"

definition threads_ok ::
  "('l \<Rightarrow> addr list) \<Rightarrow> ('h \<Rightarrow> addr set) \<Rightarrow> addr option \<Rightarrow> addr set \<Rightarrow> ('l, 'h) kernel \<Rightarrow> bool"
where
  "threads_ok items used r D s \<longleftrightarrow>
     (\<forall>t th. heap s t = Some th \<longrightarrow> thread_ok items r D s t th) \<and>
     distinct (items (ready_list s)) \<and> distinct (items (all_list s)) \<and>
     set (items (ready_list s)) \<union> set (items (all_list s)) \<subseteq> dom (heap s) \<and>
     (\<exists>i \<in> set (items (all_list s)). idle_thread s = Some i) \<and>
     inj_on (\<lambda>t. tid (the (heap s t))) (dom (heap s)) \<and>
     dom (heap s) \<subseteq> used (hw s) \<and> cpu s \<in> dom (heap s)"

text \<open>The queued signals, oldest first.  At most one per receiver and kind.\<close>

definition pending :: "('l \<Rightarrow> addr list) \<Rightarrow> ('l, 'h) kernel \<Rightarrow> thread_signal list" where
  "pending items s = map (\<lambda>e. the (sigs s e)) (items (sig_list s))"

definition key :: "thread_signal \<Rightarrow> addr \<times> sig_type" where
  "key x = (reciever x, sig x)"

definition signal_ok :: "addr option \<Rightarrow> thread_signal \<Rightarrow> bool" where
  "signal_ok idle x \<longleftrightarrow> sig x \<in> {SIG_KILL, SIG_UBLOCK, SIG_USR, SIG_CHLD} \<and>
     (sig x = SIG_KILL \<longrightarrow> idle \<noteq> Some (reciever x))"

definition signals_ok :: "('l \<Rightarrow> addr list) \<Rightarrow> ('h \<Rightarrow> addr set) \<Rightarrow> ('l, 'h) kernel \<Rightarrow> bool" where
  "signals_ok items blocks s \<longleftrightarrow>
     distinct (items (sig_list s)) \<and> set (items (sig_list s)) \<subseteq> dom (sigs s) \<and>
     dom (sigs s) \<subseteq> blocks (hw s) \<and> distinct (map key (pending items s)) \<and>
     (\<forall>x \<in> set (pending items s). signal_ok (idle_thread s) x)"

definition kernel_ok ::
  "('l \<Rightarrow> addr list) \<Rightarrow> ('h \<Rightarrow> addr set) \<Rightarrow> ('h \<Rightarrow> addr set) \<Rightarrow> ('l, 'h) kernel \<Rightarrow> bool"
where
  "kernel_ok items used blocks s \<longleftrightarrow> threads_ok items used (Some (cpu s)) {} s \<and> signals_ok items blocks s"

lemmas sig_defs = set_thread_def set_signal_def printf_def intr_off_def intr_restore_def running_thread_def

lemma threads_okD:
  assumes "threads_ok items used r D s"
  shows "heap s t = Some th \<Longrightarrow> thread_ok items r D s t th"
    and "distinct (items (ready_list s))" and "distinct (items (all_list s))"
    and "t \<in> set (items (ready_list s)) \<Longrightarrow> t \<in> dom (heap s)"
    and "t \<in> set (items (all_list s)) \<Longrightarrow> t \<in> dom (heap s)"
    and "idle_thread s = Some t \<Longrightarrow> t \<in> set (items (all_list s))"
    and "inj_on (\<lambda>t. tid (the (heap s t))) (dom (heap s))"
  using assms by (auto simp: threads_ok_def)

lemma threads_ok_ready:
  assumes "threads_ok items used r D s" and "t \<in> set (items (ready_list s))"
  obtains th where "heap s t = Some th" and "status th = THREAD_READY" and "t \<in> set (items (all_list s))"
proof -
  from threads_okD(4) [OF assms] obtain th where th: "heap s t = Some th" by blast
  from threads_okD(1) [OF assms(1) th] assms(2) that th show thesis by (auto simp: thread_ok_def)
qed

lemma kernel_ok_current:
  assumes "kernel_ok items used blocks s"
  obtains th where "heap s (cpu s) = Some th" and "is_thread th" and "status th = THREAD_RUNNING"
    and "thread_current s = Inr (cpu s)" and "cpu s \<notin> set (items (ready_list s))"
    and "cpu s \<in> set (items (all_list s))"
proof -
  from assms obtain th where th: "heap s (cpu s) = Some th"
    and inv: "thread_ok items (Some (cpu s)) {} s (cpu s) th"
    unfolding kernel_ok_def threads_ok_def by blast
  then have "is_thread th" and run: "status th = THREAD_RUNNING" by (auto simp: thread_ok_def)
  moreover from this th have "thread_current s = Inr (cpu s)"
    by (simp add: thread_current_def running_thread_def)
  moreover from inv run have "cpu s \<notin> set (items (ready_list s))" "cpu s \<in> set (items (all_list s))"
    by (auto simp: thread_ok_def)
  ultimately show thesis using th that by blast
qed

text \<open>One thread is rewritten and moved between lists.\<close>

lemma threads_ok_upd:
  assumes inv: "threads_ok items used r D s" and th: "heap s t = Some th"
    and s': "heap s' = (heap s)(t \<mapsto> th')" "tid th' = tid th" "next_tid s' = next_tid s"
      "idle_thread s' = idle_thread s" "initial_thread s' = initial_thread s"
      "cpu s' = cpu s" "used (hw s) \<subseteq> used (hw s')"
    and r: "\<And>u. u \<noteq> t \<Longrightarrow> r' = Some u \<longleftrightarrow> r = Some u" and D: "D \<subseteq> insert t D'"
    and R: "set (items (ready_list s')) - {t} = set (items (ready_list s)) - {t}"
    and A: "set (items (all_list s')) - {t} = set (items (all_list s)) - {t}"
    and dist: "distinct (items (ready_list s'))" "distinct (items (all_list s'))"
    and idle: "idle_thread s = Some t \<Longrightarrow> t \<in> set (items (all_list s'))"
    and new: "thread_ok items r' D' s' t th'"
  shows "threads_ok items used r' D' s'"
proof -
  have "thread_ok items r' D' s' u x" if "heap s' u = Some x" for u x
  proof (cases "u = t")
    case True
    with that new show ?thesis by (simp add: s')
  next
    case False
    with that have "thread_ok items r D s u x" using threads_okD(1) [OF inv] by (simp add: s')
    moreover from False R A have "u \<in> set (items (ready_list s')) \<longleftrightarrow> u \<in> set (items (ready_list s))"
        "u \<in> set (items (all_list s')) \<longleftrightarrow> u \<in> set (items (all_list s))" by blast+
    moreover from False D have "u \<in> D \<longrightarrow> u \<in> D'" by blast
    ultimately show ?thesis using r [OF False] by (auto simp: thread_ok_def s')
  qed
  moreover have dom: "dom (heap s') = dom (heap s)" using th by (auto simp: s')
  moreover have "set (items (ready_list s')) \<union> set (items (all_list s')) \<subseteq> dom (heap s')"
    using inv th R A unfolding threads_ok_def dom by blast
  moreover have "\<exists>i \<in> set (items (all_list s')). idle_thread s' = Some i"
  proof -
    from inv obtain i where i: "i \<in> set (items (all_list s))" "idle_thread s = Some i"
      unfolding threads_ok_def by blast
    then have "i \<in> set (items (all_list s'))" using A idle by (cases "i = t") auto
    with i(2) show ?thesis by (simp add: s')
  qed
  moreover have "(\<lambda>u. tid (the (heap s' u))) = (\<lambda>u. tid (the (heap s u)))"
    using th by (auto simp: s' fun_eq_iff)
  moreover have "dom (heap s) \<subseteq> used (hw s')" using inv s'(7) unfolding threads_ok_def by blast
  ultimately show ?thesis
    using inv dist by (simp add: threads_ok_def s'(1-6))
qed

text \<open>Fields the invariants do not mention.\<close>

lemma threads_ok_frame:
  assumes "threads_ok items used r D s"
    and "heap s' = heap s" "ready_list s' = ready_list s" "all_list s' = all_list s"
      "idle_thread s' = idle_thread s" "initial_thread s' = initial_thread s"
      "next_tid s' = next_tid s" "cpu s' = cpu s" "used (hw s) \<subseteq> used (hw s')"
  shows "threads_ok items used r D s'"
proof -
  have "dom (heap s) \<subseteq> used (hw s')" using assms(1,9) unfolding threads_ok_def by blast
  moreover have "thread_ok items r D s' t th = thread_ok items r D s t th" for t th
    unfolding thread_ok_def assms(3-7) ..
  ultimately show ?thesis using assms(1) unfolding threads_ok_def assms(2-8) by blast
qed

lemma signals_ok_frame:
  assumes "signals_ok items blocks s"
    and "sigs s' = sigs s" "sig_list s' = sig_list s" "idle_thread s' = idle_thread s"
      "blocks (hw s) \<subseteq> blocks (hw s')"
  shows "signals_ok items blocks s'"
  using assms by (auto simp: signals_ok_def pending_def)

lemma signals_okD:
  assumes "signals_ok items blocks s" and "e \<in> set (items (sig_list s))"
  obtains x where "sigs s e = Some x" and "x \<in> set (pending items s)" and "signal_ok (idle_thread s) x"
proof -
  from assms obtain x where "sigs s e = Some x" by (auto simp: signals_ok_def)
  moreover from this assms(2) have "x \<in> set (pending items s)" by (force simp: pending_def)
  ultimately show thesis using assms(1) that by (auto simp: signals_ok_def)
qed

lemma is_signal_pending: "signal_ok i x \<Longrightarrow> is_signal (sig x)"
  by (auto simp: signal_ok_def)

end
