(* ===== verification/Sig_Queue.thy ===== *)
theory Sig_Queue
  imports Sig_Inv
begin

text \<open>
  Sending signals: what the search for a queued signal, the queuing of a new one, the search for
  a thread by its id and `kill` do, against the queue as a list of records.
\<close>

subsection \<open>The queue after a signal was sent\<close>

definition queued :: "addr \<Rightarrow> sig_type \<Rightarrow> int \<Rightarrow> thread_signal list \<Rightarrow> thread_signal list" where
  "queued dt sg m q =
     (if (dt, sg) \<in> key ` set q then map (\<lambda>x. if key x = (dt, sg) then x\<lparr>sender := m\<rparr> else x) q
      else q @ [\<lparr>sig = sg, sender = m, reciever = dt\<rparr>])"

lemma map_key_queued: "map key (queued dt sg m q) = (if (dt, sg) \<in> key ` set q then map key q else map key q @ [(dt, sg)])"
  by (auto simp: queued_def key_def)

lemma queued_keeps:
  assumes "x \<in> set q"
  shows "key x \<in> key ` set (queued dt sg m q)"
proof -
  from assms have "key x \<in> set (map key (queued dt sg m q))" by (auto simp: map_key_queued)
  then show ?thesis by simp
qed

lemma set_queued:
  "x \<in> set (queued dt sg m q) \<Longrightarrow> (\<exists>y \<in> set q. key x = key y) \<or> key x = (dt, sg)"
  by (auto simp: queued_def key_def split: if_splits)

lemma queued_mem: "\<lparr>sig = sg, sender = m, reciever = dt\<rparr> \<in> set (queued dt sg m q)"
proof (cases "(dt, sg) \<in> key ` set q")
  case True
  then obtain x where x: "x \<in> set q" "key x = (dt, sg)" by auto
  then have "x\<lparr>sender := m\<rparr> = \<lparr>sig = sg, sender = m, reciever = dt\<rparr>" by (cases x rule: thread_signal.cases) (simp add: key_def)
  moreover from x True have "x\<lparr>sender := m\<rparr> \<in> set (queued dt sg m q)"
    unfolding queued_def by (simp add: rev_image_eqI [of x])
  ultimately show ?thesis by simp
qed (simp add: queued_def)

lemma signal_ok_key: "key x = key y \<Longrightarrow> signal_ok i x \<longleftrightarrow> signal_ok i y"
  by (simp add: key_def signal_ok_def)

text \<open>A step that touches only the signals and the machine, keeping the interrupt state.\<close>

definition signals_only ::
  "('l, 'h) pintos \<Rightarrow> ('h \<Rightarrow> addr set) \<Rightarrow> ('l, 'h) kernel \<Rightarrow> ('l, 'h) kernel \<Rightarrow> bool"
where
  "signals_only P used s s' \<longleftrightarrow> heap s' = heap s \<and> ready_list s' = ready_list s \<and>
     all_list s' = all_list s \<and> idle_thread s' = idle_thread s \<and> initial_thread s' = initial_thread s \<and>
     next_tid s' = next_tid s \<and> idle_ticks s' = idle_ticks s \<and> kernel_ticks s' = kernel_ticks s \<and>
     user_ticks s' = user_ticks s \<and> clock_count s' = clock_count s \<and> thread_ticks s' = thread_ticks s \<and>
     cpu s' = cpu s \<and> console s' = console s \<and> used (hw s) \<subseteq> used (hw s') \<and>
     intr_get_level P (hw s') = intr_get_level P (hw s) \<and> intr_context P (hw s') = intr_context P (hw s)"

lemma signals_only_refl: "signals_only P used s s"
  by (simp add: signals_only_def)

lemma signals_only_trans:
  "signals_only P used s s' \<Longrightarrow> signals_only P used s' s'' \<Longrightarrow> signals_only P used s s''"
  by (auto simp: signals_only_def)

lemma signals_only_threads:
  "signals_only P used s s' \<Longrightarrow> threads_ok items used r D s \<Longrightarrow> threads_ok items used r D s'"
  by (erule threads_ok_frame) (simp_all add: signals_only_def)

text \<open>What holds after queuing a signal.\<close>

definition has_queued ::
  "('l, 'h) pintos \<Rightarrow> ('l \<Rightarrow> addr list) \<Rightarrow> ('h \<Rightarrow> addr set) \<Rightarrow> ('h \<Rightarrow> addr set) \<Rightarrow> addr \<Rightarrow> sig_type \<Rightarrow> int
    \<Rightarrow> ('l, 'h) kernel \<Rightarrow> ('l, 'h) kernel \<Rightarrow> bool"
where
  "has_queued P items used blocks dt sg m s s' \<longleftrightarrow>
     signals_only P used s s' \<and> signals_ok items blocks s' \<and>
     pending items s' = queued dt sg m (pending items s)"

text \<open>Whom `kill` may send what: the receiver, found among the live threads by its id.\<close>

definition live :: "('l \<Rightarrow> addr list) \<Rightarrow> tid_t \<Rightarrow> ('l, 'h) kernel \<Rightarrow> addr option" where
  "live items t s = find (\<lambda>a. tid (the (heap s a)) = t) (items (all_list s))"

definition may_send :: "('l \<Rightarrow> addr list) \<Rightarrow> tid_t \<Rightarrow> sig_type \<Rightarrow> ('l, 'h) kernel \<Rightarrow> bool" where
  "may_send items t sg s \<longleftrightarrow> sg \<in> {SIG_KILL, SIG_UBLOCK, SIG_USR} \<and> live items t s \<noteq> None \<and>
     (sg = SIG_KILL \<longrightarrow> parent (the (heap s (the (live items t s)))) = tid (the (heap s (cpu s))))"

lemma find_signal_frame:
  assumes "find_signal P n dt sg m s = Inr (found, s')"
  shows "all_list s' = all_list s"
proof -
  have "all_list (snd (found, s')) = all_list s"
    by (rule for_each_inv [OF assms [unfolded find_signal_def]]) (auto simp: sig_defs split: if_splits)
  then show ?thesis by simp
qed

context pintos_kernel
begin

lemma find_signal_eq:
  assumes "signals_ok items blocks s" and fuel: "length (items (sig_list s)) \<le> n"
  shows "find_signal P n dt sg m s = Inr (
    case find (\<lambda>e. key (the (sigs s e)) = (dt, sg)) (items (sig_list s)) of
      None \<Rightarrow> (False, s)
    | Some e \<Rightarrow> (True, set_signal e ((the (sigs s e))\<lparr>sender := m\<rparr>) s))"
proof -
  let ?body = "\<lambda>e (found, s). bind (peek (sigs s) e) (\<lambda>ts.
          if reciever ts = dt \<and> sig ts = sg
          then Inr (True, set_signal e (ts\<lparr>sender := m\<rparr>) s) else Inr (found, s))"
  let ?list = "\<lambda>(_, s). sig_list s"
  from assms(1) have dist: "distinct (items (?list (False, s)))" and dom: "set (items (sig_list s)) \<subseteq> dom (sigs s)"
    by (simp_all add: signals_ok_def)
  have "find_signal P n dt sg m s =
      for_each n fst (\<lambda>s. list_next P (?list s)) ?body (list_begin P (?list (False, s))) (False, s)"
    by (simp add: find_signal_def split_def)
  also have "\<dots> = fold_res fst ?body (items (?list (False, s))) (False, s)"
    by (rule traverse_frame) (use dist fuel in \<open>auto simp: sig_defs split: if_splits\<close>)
  also have "fold_res fst ?body es (False, s) = Inr (
      case find (\<lambda>e. key (the (sigs s e)) = (dt, sg)) es of None \<Rightarrow> (False, s)
      | Some e \<Rightarrow> (True, set_signal e ((the (sigs s e))\<lparr>sender := m\<rparr>) s))"
    if "set es \<subseteq> dom (sigs s)" for es
    using that
  proof (induction es)
    case (Cons e es)
    moreover have "fold_res fst ?body es (True, t) = Inr (True, t)" for es and t :: "('l, 'h) kernel" by (cases es) simp_all
    ultimately show ?case by (auto simp: key_def)
  qed simp
  from this [OF dom] have "fold_res fst ?body (items (?list (False, s))) (False, s) = Inr (
      case find (\<lambda>e. key (the (sigs s e)) = (dt, sg)) (items (sig_list s)) of None \<Rightarrow> (False, s)
      | Some e \<Rightarrow> (True, set_signal e ((the (sigs s e))\<lparr>sender := m\<rparr>) s))" by simp
  finally show ?thesis .
qed

lemma renew_signal:
  assumes inv: "signals_ok items blocks s"
    and e: "find (\<lambda>e. key (the (sigs s e)) = (dt, sg)) (items (sig_list s)) = Some e"
  shows "has_queued P items used blocks dt sg m s (set_signal e ((the (sigs s e))\<lparr>sender := m\<rparr>) s)"
proof -
  let ?s' = "set_signal e ((the (sigs s e))\<lparr>sender := m\<rparr>) s"
  from e have mem: "e \<in> set (items (sig_list s))" and k: "key (the (sigs s e)) = (dt, sg)"
    by (auto simp: find_Some_iff)
  from inv have dist: "distinct (items (sig_list s))" and keys: "distinct (map key (pending items s))"
    by (simp_all add: signals_ok_def)
  have other: "key (the (sigs s f)) \<noteq> (dt, sg)" if "f \<in> set (items (sig_list s))" "f \<noteq> e" for f
    using keys mem k that by (auto simp: pending_def distinct_map inj_on_def comp_def)
  have "(dt, sg) \<in> key ` set (pending items s)" using mem k by (force simp: pending_def)
  moreover have "pending items ?s' = map (\<lambda>x. if key x = (dt, sg) then x\<lparr>sender := m\<rparr> else x) (pending items s)"
    using k other by (auto simp: pending_def sig_defs)
  ultimately have p: "pending items ?s' = queued dt sg m (pending items s)" by (simp add: queued_def)
  have "signal_ok (idle_thread s) x" if "x \<in> set (pending items ?s')" for x
  proof -
    from that obtain y where "y \<in> set (pending items s)" "key x = key y"
      using set_queued [of x dt sg m "pending items s"] \<open>(dt, sg) \<in> key ` set (pending items s)\<close>
      unfolding p by force
    with inv signal_ok_key [of x y "idle_thread s"] show ?thesis by (simp add: signals_ok_def)
  qed
  moreover have "distinct (map key (pending items ?s'))" using keys by (auto simp: p map_key_queued)
  ultimately have "signals_ok items blocks ?s'"
    using inv mem by (auto simp: signals_ok_def sig_defs)
  moreover have "signals_only P used s ?s'" by (simp add: signals_only_def sig_defs)
  ultimately show ?thesis using p by (simp add: has_queued_def)
qed

lemma new_signal:
  assumes inv: "signals_ok items blocks s"
    and e: "find (\<lambda>e. key (the (sigs s e)) = (dt, sg)) (items (sig_list s)) = None"
    and m: "malloc P (hw s) = (Some x, h)" and new: "signal_ok (idle_thread s) \<lparr>sig = sg, sender = m, reciever = dt\<rparr>"
  shows "has_queued P items used blocks dt sg m s
    ((set_signal x \<lparr>sig = sg, sender = m, reciever = dt\<rparr> (s\<lparr>hw := h\<rparr>))
         \<lparr>sig_list := list_push_back P (sig_list s) x\<rparr>)" (is "has_queued P items used blocks dt sg m s ?s'")
proof -
  from malloc_Some [OF m] have x: "x \<notin> blocks (hw s)" "blocks h = insert x (blocks (hw s))" by simp_all
  from inv x(1) have fresh: "x \<notin> set (items (sig_list s))" "sigs s x = None" by (auto simp: signals_ok_def)
  from e have none: "(dt, sg) \<notin> key ` set (pending items s)"
    by (auto simp: find_None_iff pending_def)
  have "pending items ?s' = pending items s @ [\<lparr>sig = sg, sender = m, reciever = dt\<rparr>]"
    using fresh by (auto simp: pending_def sig_defs)
  with none have p: "pending items ?s' = queued dt sg m (pending items s)" by (simp add: queued_def)
  have "distinct (map key (pending items ?s'))" using inv none by (simp add: p map_key_queued signals_ok_def)
  moreover have "signal_ok (idle_thread s) y" if "y \<in> set (pending items ?s')" for y
    using that inv new none by (auto simp: p queued_def signals_ok_def)
  ultimately have "signals_ok items blocks ?s'"
    using inv x fresh by (auto simp: signals_ok_def sig_defs)
  moreover have "signals_only P used s ?s'"
    using m malloc_used [of "hw s"] malloc_level [of "hw s"] malloc_context [of "hw s"]
    by (simp add: signals_only_def sig_defs)
  ultimately show ?thesis using p by (simp add: has_queued_def)
qed

lemma queue_signal_ok:
  assumes inv: "signals_ok items blocks s" and fuel: "length (items (sig_list s)) \<le> n"
    and mem: "(\<forall>h. fst (malloc P h) \<noteq> None) \<or> Null_deref \<in> F"
    and new: "signal_ok (idle_thread s) \<lparr>sig = sg, sender = m, reciever = dt\<rparr>"
  shows "ok F (queue_signal P n dt sg m s) (has_queued P items used blocks dt sg m s)"
proof (cases "find (\<lambda>e. key (the (sigs s e)) = (dt, sg)) (items (sig_list s))")
  case (Some e)
  with renew_signal [OF inv Some] show ?thesis
    by (simp add: queue_signal_def find_signal_eq [OF inv fuel])
next
  case None
  show ?thesis
  proof (cases "malloc P (hw s)")
    case (Pair a h)
    show ?thesis
    proof (cases a)
      case None': None
      with mem Pair have "Null_deref \<in> F" by (metis fst_conv)
      with None None' Pair show ?thesis by (simp add: queue_signal_def find_signal_eq [OF inv fuel])
    next
      case (Some x)
      with Pair new_signal [OF inv None _ new] None show ?thesis
        by (simp add: queue_signal_def find_signal_eq [OF inv fuel])
    qed
  qed
qed

subsection \<open>Finding a thread\<close>

lemma get_thread_eq:
  assumes inv: "threads_ok items used r D s" and fuel: "length (items (all_list s)) \<le> n"
  shows "get_thread P n t s = Inr (find (\<lambda>a. tid (the (heap s a)) = t) (items (all_list s)))"
proof -
  let ?body = "\<lambda>tt r. bind (peek (heap s) tt) (\<lambda>th. Inr (if tid th = t then Some tt else None))"
  let ?stop = "\<lambda>r :: addr option. r \<noteq> None"
  note d = threads_okD [OF inv]
  have "get_thread P n t s = fold_res ?stop ?body (items (all_list s)) None"
    unfolding get_thread_def
    using traverse_frame [of ?body "\<lambda>_. all_list s" None n ?stop] d(3) fuel by simp
  also have "fold_res ?stop ?body es None = Inr (find (\<lambda>a. tid (the (heap s a)) = t) es)"
    if "set es \<subseteq> set (items (all_list s))" for es
    using that
  proof (induction es)
    case (Cons e es)
    moreover from Cons.prems d(5) [of e] obtain th where "heap s e = Some th" by auto
    moreover have "fold_res ?stop ?body es (Some x) = Inr (Some x)" for es x by (cases es) simp_all
    ultimately show ?case by auto
  qed simp
  then have "fold_res ?stop ?body (items (all_list s)) None =
      Inr (find (\<lambda>a. tid (the (heap s a)) = t) (items (all_list s)))" by blast
  finally show ?thesis .
qed

lemma get_thread_Some:
  assumes inv: "threads_ok items used r D s"
    and "find (\<lambda>a. tid (the (heap s a)) = t) (items (all_list s)) = Some a"
  obtains th where "heap s a = Some th" and "tid th = t" and "a \<in> set (items (all_list s))"
proof -
  from assms(2) have a: "a \<in> set (items (all_list s))" "tid (the (heap s a)) = t" by (auto simp: find_Some_iff)
  with threads_okD(5) [OF inv] that show thesis by fastforce
qed

subsection \<open>kill\<close>

lemma intr_off_facts:
  "signals_only P used (intr_off P s) s' \<Longrightarrow> signals_only P used s (intr_restore P (intr_get_level P (hw s)) s')"
  by (simp add: signals_only_def sig_defs)

lemma kill_ok:
  assumes inv: "kernel_ok items used blocks s"
    and fuel: "length (items (sig_list s)) \<le> n" "length (items (all_list s)) \<le> n"
    and mem: "(\<forall>h. fst (malloc P h) \<noteq> None) \<or> Null_deref \<in> F"
  shows "ok F (kill P n to_tid sg s) (\<lambda>(r, s').
    kernel_ok items used blocks s' \<and>
    (if may_send items to_tid sg s
     then r = 0 \<and> signals_only P used s s' \<and>
       pending items s' = queued (the (live items to_tid s)) sg (tid (the (heap s (cpu s)))) (pending items s)
     else r = -1 \<and> s' = (if sg \<in> {SIG_KILL, SIG_UBLOCK, SIG_USR} then intr_off P s else s)))"
proof (cases "sg \<in> {SIG_KILL, SIG_UBLOCK, SIG_USR}")
  case False
  with inv show ?thesis by (auto simp: kill_def may_send_def)
next
  case kind: True
  from inv have threads: "threads_ok items used (Some (cpu s)) {} s" and sigs: "signals_ok items blocks s"
    by (simp_all add: kernel_ok_def)
  from kernel_ok_current [OF inv] obtain cth where cth: "heap s (cpu s) = Some cth"
    and cur: "thread_current s = Inr (cpu s)" .
  let ?s = "intr_off P s"
  have off: "threads_ok items used (Some (cpu s)) {} ?s" "signals_ok items blocks ?s"
    using threads sigs by (auto elim!: threads_ok_frame signals_ok_frame simp: sig_defs)
  then have kernel_off: "kernel_ok items used blocks ?s" by (simp add: kernel_ok_def sig_defs)
  have get: "get_thread P n to_tid ?s = Inr (live items to_tid s)"
    using get_thread_eq [OF off(1), of n to_tid] fuel by (simp add: live_def sig_defs)
  show ?thesis
  proof (cases "live items to_tid s")
    case None
    with kind get cur kernel_off show ?thesis by (auto simp: kill_def may_send_def)
  next
    case (Some a)
    then obtain th where th: "heap s a = Some th" "tid th = to_tid" "a \<in> set (items (all_list s))"
      unfolding live_def using get_thread_Some [OF threads] by metis
    show ?thesis
    proof (cases "may_send items to_tid sg s")
      case False
      with kind Some th cth get cur kernel_off show ?thesis
        by (auto simp: kill_def may_send_def sig_defs)
    next
      case True
      have "idle_thread s \<noteq> Some a" if "sg = SIG_KILL"
        using that True Some th cth threads_okD(1) [OF threads th(1)] threads_okD(1) [OF threads cth]
        by (auto simp: may_send_def thread_ok_def)
      then have "signal_ok (idle_thread ?s) \<lparr>sig = sg, sender = tid cth, reciever = a\<rparr>"
        using kind by (auto simp: signal_ok_def sig_defs)
      from queue_signal_ok [OF off(2) _ mem this] fuel
      have "ok F (queue_signal P n a sg (tid cth) ?s) (has_queued P items used blocks a sg (tid cth) ?s)"
        by (simp add: sig_defs)
      moreover have "kernel_ok items used blocks s'' \<and> signals_only P used s s'' \<and>
          pending items s'' = queued a sg (tid cth) (pending items s)"
        if "has_queued P items used blocks a sg (tid cth) ?s s'"
          and "s'' = intr_restore P (intr_get_level P (hw s)) s'" for s' s''
      proof -
        from that have so: "signals_only P used s s''" by (simp add: has_queued_def intr_off_facts)
        have "signals_ok items blocks s''" "pending items s'' = queued a sg (tid cth) (pending items s)"
          using that by (auto simp: has_queued_def pending_def sig_defs elim: signals_ok_frame)
        with so signals_only_threads [OF so threads] show ?thesis
          by (simp add: kernel_ok_def signals_only_def)
      qed
      ultimately show ?thesis
        using kind Some th cth get cur True
        by (auto simp: kill_def may_send_def sig_defs elim!: ok_mono)
    qed
  qed
qed

end

end
