(* ===== verification/Sig_Deliver.thy ===== *)
theory Sig_Deliver
  imports Sig_Queue
begin

text \<open>
  Delivering signals: the loop of `handleSignals` over the queue, shown equal to a filter of
  the queue with the threads it wakes and the signals it hands over.
\<close>

subsection \<open>What a pass over the queue takes\<close>

text \<open>
  While `t` is being switched to: SIG_UBLOCK is taken whoever its receiver is, unless the
  receiver masks or ignores it; another signal only when it is for `t`, and unless `t` masks
  it, SIG_KILL in any case.
\<close>

definition open_to_ublock :: "thread \<Rightarrow> bool" where
  "open_to_ublock th \<longleftrightarrow> \<not> checkBit (sigmask th) (ucast SIG_UBLOCK) \<and> checkBit (sigign th) (ucast SIG_UBLOCK)"

definition takes :: "(addr \<Rightarrow> thread option) \<Rightarrow> addr \<Rightarrow> thread_signal \<Rightarrow> bool" where
  "takes m t x \<longleftrightarrow>
     (if sig x = SIG_UBLOCK then (case m (reciever x) of None \<Rightarrow> False | Some th \<Rightarrow> open_to_ublock th)
      else reciever x = t \<and> (sig x = SIG_KILL \<or> \<not> checkBit (sigmask (the (m t))) (ucast (sig x))))"

definition woken :: "(addr \<Rightarrow> thread option) \<Rightarrow> addr \<Rightarrow> thread_signal list \<Rightarrow> addr list" where
  "woken m t q = map reciever
     (filter (\<lambda>x. sig x = SIG_UBLOCK \<and> takes m t x \<and> map_option status (m (reciever x)) = Some THREAD_BLOCKED) q)"

definition wake :: "addr list \<Rightarrow> (addr \<Rightarrow> thread option) \<Rightarrow> addr \<Rightarrow> thread option" where
  "wake us m u = (if u \<in> set us then map_option (\<lambda>th. th\<lparr>status := THREAD_READY\<rparr>) (m u) else m u)"

definition gets :: "(addr \<Rightarrow> thread option) \<Rightarrow> addr \<Rightarrow> thread_signal list \<Rightarrow> sig_type \<Rightarrow> bool" where
  "gets m t q g \<longleftrightarrow> g \<noteq> SIG_UBLOCK \<and> (\<exists>x \<in> set q. sig x = g \<and> takes m t x)"

definition usr_sender :: "(addr \<Rightarrow> thread option) \<Rightarrow> addr \<Rightarrow> thread_signal list \<Rightarrow> int" where
  "usr_sender m t q = foldl (\<lambda>f x. if sig x = SIG_USR \<and> takes m t x then sender x else f) 0 q"

text \<open>Everything a pass leaves alone.\<close>

definition pass_frame ::
  "('l, 'h) pintos \<Rightarrow> ('h \<Rightarrow> addr set) \<Rightarrow> ('h \<Rightarrow> addr set) \<Rightarrow> ('l, 'h) kernel \<Rightarrow> ('l, 'h) kernel \<Rightarrow> bool"
where
  "pass_frame P used blocks s s' \<longleftrightarrow> sigs s' = sigs s \<and> all_list s' = all_list s \<and>
     idle_thread s' = idle_thread s \<and> initial_thread s' = initial_thread s \<and> next_tid s' = next_tid s \<and>
     clock_count s' = clock_count s \<and> cpu s' = cpu s \<and> console s' = console s \<and>
     used (hw s') = used (hw s) \<and> blocks (hw s') = blocks (hw s) \<and>
     intr_get_level P (hw s') = intr_get_level P (hw s) \<and> intr_context P (hw s') = intr_context P (hw s)"

definition passed ::
  "('l, 'h) pintos \<Rightarrow> ('l \<Rightarrow> addr list) \<Rightarrow> ('h \<Rightarrow> addr set) \<Rightarrow> ('h \<Rightarrow> addr set) \<Rightarrow> addr \<Rightarrow> addr list \<Rightarrow> addr list
    \<Rightarrow> ('l, 'h) kernel \<Rightarrow> sigset_t \<times> int \<times> ('l, 'h) kernel \<Rightarrow> bool"
where
  "passed P items used blocks t ds es s = (\<lambda>(sigd, from, s').
     let m = heap s; q = map (\<lambda>e. the (sigs s e)) ds in
     items (sig_list s') = filter (\<lambda>e. \<not> takes m t (the (sigs s e))) ds @ es \<and>
     items (ready_list s') = items (ready_list s) @ woken m t q \<and>
     heap s' = wake (woken m t q) m \<and>
     (\<forall>g. is_signal g \<longrightarrow> checkBit sigd (ucast g) = gets m t q g) \<and>
     from = usr_sender m t q \<and> pass_frame P used blocks s s')"

lemma wake_Some:
  "m u = Some th \<Longrightarrow> wake us m u = Some (if u \<in> set us then th\<lparr>status := THREAD_READY\<rparr> else th)"
  by (simp add: wake_def)

lemma woken_append: "woken m t (q @ [x]) = woken m t q @
  (if sig x = SIG_UBLOCK \<and> takes m t x \<and> map_option status (m (reciever x)) = Some THREAD_BLOCKED then [reciever x] else [])"
  by (simp add: woken_def)

lemma gets_append: "gets m t (q @ [x]) g \<longleftrightarrow> gets m t q g \<or> g = sig x \<and> sig x \<noteq> SIG_UBLOCK \<and> takes m t x"
  by (auto simp: gets_def)

lemma usr_sender_append:
  "usr_sender m t (q @ [x]) = (if sig x = SIG_USR \<and> takes m t x then sender x else usr_sender m t q)"
  by (simp add: usr_sender_def)

lemma wake_append: "wake (us @ [u]) m = (wake us m)(u := map_option (\<lambda>th. th\<lparr>status := THREAD_READY\<rparr>) (m u))"
  by (auto simp: wake_def fun_eq_iff)

lemma wake_Nil [simp]: "wake [] m = m"
  by (simp add: wake_def fun_eq_iff)

text \<open>A queued SIG_UBLOCK is settled when its receiver lives, is not in `D`, and is open to it.\<close>

definition settled :: "('l \<Rightarrow> addr list) \<Rightarrow> addr set \<Rightarrow> ('l, 'h) kernel \<Rightarrow> bool" where
  "settled items D s \<longleftrightarrow> (\<forall>x \<in> set (pending items s). sig x = SIG_UBLOCK \<longrightarrow>
     reciever x \<notin> D \<and> (\<exists>th. heap s (reciever x) = Some th \<and> open_to_ublock th))"

context pintos_kernel
begin

lemma thread_unblock_Inr:
  assumes "heap s u = Some th" and "is_thread th" and "status th = THREAD_BLOCKED"
  shows "thread_unblock P u s = Inr (s\<lparr>ready_list := list_push_back P (ready_list s) u,
    heap := (heap s)(u \<mapsto> th\<lparr>status := THREAD_READY\<rparr>),
    hw := intr_set_level P (intr_get_level P (hw s)) (snd (intr_disable P (hw s)))\<rparr>)"
  using assms by (simp add: thread_unblock_def sig_defs Let_def)

lemma take_signal_step:
  assumes inv: "kernel_ok items used blocks s" and t: "t = cpu s"
    and split: "items (sig_list s) = ds @ e # es"
    and p: "passed P items used blocks t ds (e # es) s z"
    and dead: "Bad_deref \<in> F \<or> settled items {} s"
  shows "ok F (take_signal P t e z) (passed P items used blocks t (ds @ [e]) es s)"
proof -
  obtain sigd usr s1 where z: "z = (sigd, usr, s1)" by (cases z)
  let ?sg = "\<lambda>e. the (sigs s e)" and ?m = "heap s"
  let ?q = "map ?sg ds"
  from inv have threads: "threads_ok items used (Some (cpu s)) {} s" and sigs: "signals_ok items blocks s"
    by (simp_all add: kernel_ok_def)
  from signals_okD [OF sigs, of e] split obtain x where x: "sigs s e = Some x" "x \<in> set (pending items s)"
    "signal_ok (idle_thread s) x" by auto
  from p have s1: "items (sig_list s1) = filter (\<lambda>e. \<not> takes ?m t (?sg e)) ds @ e # es"
      "items (ready_list s1) = items (ready_list s) @ woken ?m t ?q" "heap s1 = wake (woken ?m t ?q) ?m"
      "\<And>g. is_signal g \<Longrightarrow> checkBit sigd (ucast g) = gets ?m t ?q g" "usr = usr_sender ?m t ?q"
      and fr: "pass_frame P used blocks s s1"
    by (simp_all add: passed_def z Let_def)
  have x1: "sigs s1 e = Some x" using x fr by (simp add: pass_frame_def)
  have dist: "distinct (ds @ e # es)" using sigs split by (simp add: signals_ok_def)
  have keys: "key x \<notin> key ` set ?q"
    using sigs split x(1) by (auto simp: signals_ok_def pending_def)
  have rm: "items (list_remove P (sig_list s1) e) = filter (\<lambda>e. \<not> takes ?m t (?sg e)) ds @ es"
    using dist by (simp add: s1(1) remove1_append)
  have bits: "checkBit (setBit sigd (ucast g)) (ucast h) \<longleftrightarrow> g = h \<or> checkBit sigd (ucast h)"
    if "is_signal g" "is_signal h" for g h
    using that is_signal_inj [of h g] by (auto simp: sigset.mem_add)
  have keep: "passed P items used blocks t (ds @ [e]) es s (sigd, usr, s1)" if "\<not> takes ?m t x"
    using that s1 fr x(1) by (simp add: passed_def Let_def woken_append gets_append usr_sender_append)
  show ?thesis
  proof (cases "sig x = SIG_UBLOCK")
    case ub: True
    show ?thesis
    proof (cases "heap s1 (reciever x)")
      case None
      then have "?m (reciever x) = None" by (simp add: s1(3) wake_def split: if_splits)
      with ub x(2) dead have "Bad_deref \<in> F" by (auto simp: settled_def)
      with ub None x1 show ?thesis by (simp add: take_signal_def z Let_def)
    next
      case (Some rth)
      then obtain th where th: "?m (reciever x) = Some th" by (auto simp: s1(3) wake_def split: if_splits)
      have fresh: "reciever x \<notin> set (woken ?m t ?q)"
        using keys ub by (force simp: woken_def key_def)
      with Some th have [simp]: "rth = th" by (simp add: s1(3) wake_def)
      show ?thesis
      proof (cases "open_to_ublock th")
        case False
        with ub th have "\<not> takes ?m t x" by (simp add: takes_def)
        from keep [OF this] False ub Some x1 show ?thesis
          by (auto simp: take_signal_def z Let_def open_to_ublock_def)
      next
        case True
        with ub th have tk: "takes ?m t x" by (simp add: takes_def)
        show ?thesis
        proof (cases "status th = THREAD_BLOCKED")
          case False
          then have "passed P items used blocks t (ds @ [e]) es s
              (sigd, usr, s1\<lparr>sig_list := list_remove P (sig_list s1) e\<rparr>)"
            using s1 fr x(1) rm tk ub th
            by (simp add: passed_def Let_def woken_append gets_append usr_sender_append pass_frame_def)
          with True False ub Some x1 show ?thesis
            by (simp add: take_signal_def z Let_def open_to_ublock_def)
        next
          case blocked: True
          let ?s2 = "s1\<lparr>ready_list := list_push_back P (ready_list s1) (reciever x),
            heap := (heap s1)(reciever x \<mapsto> th\<lparr>status := THREAD_READY\<rparr>),
            hw := intr_set_level P (intr_get_level P (hw s1)) (snd (intr_disable P (hw s1)))\<rparr>"
          from threads_okD(1) [OF threads th] blocked have k: "is_thread th" "reciever x \<notin> set (items (ready_list s))"
            by (auto simp: thread_ok_def)
          then have "thread_unblock P (reciever x) s1 = Inr ?s2"
            using Some blocked by (intro thread_unblock_Inr) simp_all
          moreover have "passed P items used blocks t (ds @ [e]) es s
              (sigd, usr, ?s2\<lparr>sig_list := list_remove P (sig_list ?s2) e\<rparr>)"
            using s1 fr x(1) rm tk ub th blocked k fresh
            by (simp add: passed_def Let_def woken_append gets_append usr_sender_append pass_frame_def wake_append)
          ultimately show ?thesis using True blocked ub Some x1
            by (simp add: take_signal_def z Let_def open_to_ublock_def)
        qed
      qed
    qed
  next
    case other: False
    show ?thesis
    proof (cases "takes ?m t x")
      case False
      from kernel_ok_current [OF inv] t obtain th where th: "?m t = Some th" "status th = THREAD_RUNNING" by blast
      then have "sigmask (the (heap s1 t)) = sigmask th" "heap s1 t \<noteq> None" by (auto simp: s1(3) wake_def)
      with keep [OF False] False other x1 th show ?thesis
        by (auto simp: take_signal_def z Let_def takes_def)
    next
      case tk: True
      from kernel_ok_current [OF inv] t obtain th where th: "?m t = Some th" "status th = THREAD_RUNNING" by blast
      from wake_Some [of ?m t th] th(1) obtain th1 where th1: "heap s1 t = Some th1" "sigmask th1 = sigmask th"
        by (simp add: s1(3))
      have "passed P items used blocks t (ds @ [e]) es s
          (setBit sigd (ucast (sig x)), if sig x = SIG_USR then sender x else usr,
           s1\<lparr>sig_list := list_remove P (sig_list s1) e\<rparr>)"
        using s1 fr x(1) rm tk other bits is_signal_pending [OF x(3)]
        by (simp add: passed_def Let_def woken_append gets_append usr_sender_append pass_frame_def)
          blast
      with tk other x1 th th1 show ?thesis
        by (auto simp: take_signal_def z Let_def takes_def)
    qed
  qed
qed

lemma take_signals_fold:
  assumes inv: "kernel_ok items used blocks s" and fuel: "length (items (sig_list s)) \<le> n"
  shows "take_signals P n (cpu s) s = fold_res (\<lambda>_. False) (take_signal P (cpu s)) (items (sig_list s)) (0, 0, s)"
proof -
  let ?list = "\<lambda>z. sig_list (snd (snd z))"
  from inv have dist: "distinct (items (sig_list s))" by (simp add: kernel_ok_def signals_ok_def)
  have body: "?list z' = ?list z \<or> ?list z' = list_remove P (?list z) e" if "take_signal P t e z = Inr z'" for t e z z'
    using that by (cases z) (auto simp: take_signal_def Let_def thread_unblock_def sig_defs split: if_splits)
  show ?thesis
    using traverse_remove [where body = "take_signal P (cpu s)" and the_list = ?list and s = "(0, 0, s)" and n = n and stop = "\<lambda>_. False"] body dist fuel
    by (simp add: take_signals_def split_def)
qed

lemma take_signals_ok:
  assumes inv: "kernel_ok items used blocks s" and fuel: "length (items (sig_list s)) \<le> n"
    and dead: "Bad_deref \<in> F \<or> settled items {} s"
  shows "ok F (take_signals P n (cpu s) s) (passed P items used blocks (cpu s) (items (sig_list s)) [] s)"
proof -
  let ?I = "\<lambda>es z. \<exists>ds. items (sig_list s) = ds @ es \<and> passed P items used blocks (cpu s) ds es s z"
  have "ok F (fold_res (\<lambda>_. False) (take_signal P (cpu s)) (items (sig_list s)) (0, 0, s))
      (passed P items used blocks (cpu s) (items (sig_list s)) [] s)"
  proof (rule ok_fold [where I = ?I])
    show "?I (items (sig_list s)) (0, 0, s)"
      by (intro exI [of _ "[]"]) (simp add: passed_def woken_def gets_def usr_sender_def pass_frame_def)
  next
    fix e es z
    assume "?I (e # es) z"
    then obtain ds where "items (sig_list s) = ds @ e # es" "passed P items used blocks (cpu s) ds (e # es) s z" by blast
    from this take_signal_step [OF inv refl this dead]
    show "ok F (take_signal P (cpu s) e z) (?I es)" by (auto elim!: ok_mono intro!: exI [of _ "ds @ [e]"])
  qed auto
  then show ?thesis by (simp add: take_signals_fold [OF inv fuel])
qed

text \<open>No round changes what the queued signals say, or which threads are allocated.\<close>

lemma take_signal_same:
  assumes "take_signal P t e z = Inr z'"
  shows "sigs (snd (snd z')) = sigs (snd (snd z)) \<and> dom (heap (snd (snd z'))) = dom (heap (snd (snd z)))"
  using assms by (cases z) (auto simp: take_signal_def thread_unblock_def sig_defs Let_def split: if_splits)

text \<open>A pass that fails does so at a SIG_UBLOCK, on reading its receiver, which is not allocated.\<close>

lemma take_signals_fails:
  assumes inv: "kernel_ok items used blocks s" and fuel: "length (items (sig_list s)) \<le> n"
    and run: "take_signals P n (cpu s) s = Inl f"
  obtains ds e es z x where "items (sig_list s) = ds @ e # es"
    and "fold_res (\<lambda>_. False) (take_signal P (cpu s)) ds (0, 0, s) = Inr z" and "take_signal P (cpu s) e z = Inl f"
    and "sigs s e = Some x" and "x \<in> set (pending items s)" and "sig x = SIG_UBLOCK" and "heap s (reciever x) = None"
proof -
  from run have "fold_res (\<lambda>_. False) (take_signal P (cpu s)) (items (sig_list s)) (0, 0, s) = Inl f"
    by (simp add: take_signals_fold [OF inv fuel])
  then obtain ds e es z where split: "items (sig_list s) = ds @ e # es"
    and before: "fold_res (\<lambda>_. False) (take_signal P (cpu s)) ds (0, 0, s) = Inr z"
    and fail: "take_signal P (cpu s) e z = Inl f" by (rule fold_res_Inl)
  obtain sigd usr s1 where z: "z = (sigd, usr, s1)" by (cases z)
  have "sigs (snd (snd z)) = sigs s \<and> dom (heap (snd (snd z))) = dom (heap s)"
    by (rule fold_res_inv [OF before]) (simp_all add: take_signal_same)
  then have s1: "sigs s1 = sigs s" "dom (heap s1) = dom (heap s)" by (simp_all add: z)
  from inv have "signals_ok items blocks s" by (simp add: kernel_ok_def)
  from signals_okD [OF this, of e] split obtain x where x: "sigs s e = Some x" "x \<in> set (pending items s)" by auto
  from take_signals_ok [OF inv fuel, of "{Bad_deref}"] run have f: "f = Bad_deref" by simp
  have "cpu s \<in> dom (heap s1)" using kernel_ok_current [OF inv] s1(2) by blast
  then obtain th where "heap s1 (cpu s) = Some th" by blast
  with fail x(1) have "sig x = SIG_UBLOCK \<and> heap s1 (reciever x) = None"
    by (cases "heap s1 (reciever x)")
      (auto simp: take_signal_def z f s1(1) thread_unblock_def ASSERT_def sig_defs Let_def split: if_splits)
  with s1(2) have "sig x = SIG_UBLOCK" "heap s (reciever x) = None" by (auto simp: domIff)
  from that [OF split before fail x this] show thesis .
qed

text \<open>A pass that ends has read every receiver of a SIG_UBLOCK: all of them were allocated.\<close>

lemma take_signals_receivers:
  assumes inv: "kernel_ok items used blocks s" and fuel: "length (items (sig_list s)) \<le> n"
    and run: "take_signals P n (cpu s) s = Inr z"
    and x: "x \<in> set (pending items s)" "sig x = SIG_UBLOCK"
  shows "heap s (reciever x) \<noteq> None"
proof -
  have live: "\<forall>e \<in> set es. sig (the (sigs s1 e)) = SIG_UBLOCK \<longrightarrow> reciever (the (sigs s1 e)) \<in> dom (heap s1)"
    if "fold_res (\<lambda>_. False) (take_signal P (cpu s)) es (a, b, s1) = Inr z" for es a b s1
    using that
  proof (induction es arbitrary: a b s1)
    case (Cons e es)
    then obtain a' b' s2 where e: "take_signal P (cpu s) e (a, b, s1) = Inr (a', b', s2)"
      and es: "fold_res (\<lambda>_. False) (take_signal P (cpu s)) es (a', b', s2) = Inr z" by auto
    have "sig (the (sigs s1 e)) = SIG_UBLOCK \<longrightarrow> reciever (the (sigs s1 e)) \<in> dom (heap s1)"
      using e by (auto simp: take_signal_def Let_def peek_eq_Inr)
    with Cons.IH [OF es] take_signal_same [OF e] show ?case by simp
  qed simp
  from run have "fold_res (\<lambda>_. False) (take_signal P (cpu s)) (items (sig_list s)) (0, 0, s) = Inr z"
    by (simp add: take_signals_fold [OF inv fuel])
  from live [OF this] x show ?thesis by (auto simp: pending_def)
qed

subsection \<open>The state after a pass\<close>

lemma pending_passed:
  assumes "passed P items used blocks t (items (sig_list s)) [] s (sigd, usr, s')"
  shows "pending items s' = filter (\<lambda>x. \<not> takes (heap s) t x) (pending items s)"
  using assms by (simp add: passed_def pass_frame_def pending_def Let_def filter_map comp_def)

lemma wake_ok:
  assumes inv: "threads_ok items used r D s" and W: "distinct W"
    and blocked: "\<And>u. u \<in> set W \<Longrightarrow> \<exists>th. heap s u = Some th \<and> status th = THREAD_BLOCKED"
    and s': "heap s' = wake W (heap s)" "items (ready_list s') = items (ready_list s) @ W"
      "all_list s' = all_list s" "idle_thread s' = idle_thread s" "initial_thread s' = initial_thread s"
      "next_tid s' = next_tid s" "cpu s' = cpu s" "used (hw s') = used (hw s)"
  shows "threads_ok items used r D s'"
proof -
  note d = threads_okD [OF inv]
  have dom: "dom (heap s') = dom (heap s)" by (auto simp: s' wake_def split: if_splits)
  have tids: "tid (the (heap s' u)) = tid (the (heap s u))" if "u \<in> dom (heap s)" for u
    using that wake_Some [of "heap s" u] by (auto simp: s')
  have disj: "set (items (ready_list s)) \<inter> set W = {}"
  proof (rule ccontr)
    assume "set (items (ready_list s)) \<inter> set W \<noteq> {}"
    then obtain u where u: "u \<in> set (items (ready_list s))" "u \<in> set W" by blast
    from threads_ok_ready [OF inv u(1)] obtain th where "heap s u = Some th" "status th = THREAD_READY" .
    with blocked [OF u(2)] show False by auto
  qed
  have "thread_ok items r D s' u x" if "heap s' u = Some x" for u x
  proof -
    from that dom obtain th where th: "heap s u = Some th" by blast
    from d(1) [OF th] have k: "thread_ok items r D s u th" .
    from that wake_Some [of "heap s" u th W] th
    have x: "x = (if u \<in> set W then th\<lparr>status := THREAD_READY\<rparr> else th)" by (simp add: s')
    show ?thesis
    proof (cases "u \<in> set W")
      case True
      with blocked th have "status th = THREAD_BLOCKED" by force
      with k have "is_thread th" "1 \<le> tid th \<and> tid th < next_tid s \<and> parent th \<noteq> tid th" "r \<noteq> Some u" "u \<in> set (items (all_list s))"
        "resumable (frames th)" "idle_thread s = Some u \<longrightarrow> parent th = -1 \<and> maxlifetime th = 0"
        by (simp_all add: thread_ok_def)
      with True show ?thesis by (simp add: x thread_ok_def s' is_thread_def)
    next
      case False
      with k x show ?thesis by (simp add: thread_ok_def s')
    qed
  qed
  moreover have "inj_on (\<lambda>u. tid (the (heap s' u))) (dom (heap s'))"
    using d(7) tids by (simp add: dom inj_on_def)
  moreover have "set (items (ready_list s')) \<union> set (items (all_list s')) \<subseteq> dom (heap s')"
  proof -
    from blocked have "set W \<subseteq> dom (heap s)" by blast
    with inv show ?thesis unfolding dom by (auto simp: s' threads_ok_def)
  qed
  moreover have "\<exists>i \<in> set (items (all_list s')). idle_thread s' = Some i"
    using inv by (simp add: threads_ok_def s')
  moreover have "dom (heap s') \<subseteq> used (hw s')" "cpu s' \<in> dom (heap s')"
    using inv unfolding dom s'(7,8) threads_ok_def by simp_all
  moreover have "distinct (items (ready_list s'))" "distinct (items (all_list s'))"
    using d(2,3) W disj by (simp_all add: s')
  ultimately show ?thesis unfolding threads_ok_def by blast
qed

lemma passed_ok:
  assumes inv: "kernel_ok items used blocks s"
    and p: "passed P items used blocks t (items (sig_list s)) [] s (sigd, usr, s')"
  shows "kernel_ok items used blocks s'"
proof -
  from inv have threads: "threads_ok items used (Some (cpu s)) {} s" and sigs: "signals_ok items blocks s"
    by (simp_all add: kernel_ok_def)
  note pend = pending_passed [OF p]
  let ?W = "woken (heap s) t (pending items s)"
  from p have s': "items (sig_list s') = filter (\<lambda>e. \<not> takes (heap s) t (the (sigs s e))) (items (sig_list s))"
      "items (ready_list s') = items (ready_list s) @ ?W" "heap s' = wake ?W (heap s)"
    and fr: "pass_frame P used blocks s s'"
    by (simp_all add: passed_def Let_def pending_def)
  have "distinct ?W"
  proof -
    from sigs have "distinct (map key (pending items s))" by (simp add: signals_ok_def)
    then show ?thesis unfolding woken_def
      by (auto simp: distinct_map inj_on_def key_def)
  qed
  moreover have "\<exists>th. heap s u = Some th \<and> status th = THREAD_BLOCKED" if "u \<in> set ?W" for u
    using that by (auto simp: woken_def)
  ultimately have "threads_ok items used (Some (cpu s)) {} s'"
    by (rule wake_ok [OF threads]) (use s' fr in \<open>simp_all add: pass_frame_def\<close>)
  moreover have "signals_ok items blocks s'"
    using sigs fr by (auto simp: signals_ok_def pend s'(1) pass_frame_def distinct_map inj_on_def)
  ultimately show ?thesis using fr by (simp add: kernel_ok_def pass_frame_def)
qed

end

end
