(* ===== verification/Sig_Exit.thy ===== *)
theory Sig_Exit
  imports Sig_Deliver
begin

text \<open>
  The first half of `thread_exit`: the loop over `all_list` that orphans the children of the dying
  thread and tells its parent.
\<close>

definition orphan :: "tid_t \<Rightarrow> addr set \<Rightarrow> (addr \<Rightarrow> thread option) \<Rightarrow> addr \<Rightarrow> thread option" where
  "orphan i us m u =
     (if u \<in> us then map_option (\<lambda>th. if parent th = i then th\<lparr>parent := -1\<rparr> else th) (m u) else m u)"

text \<open>SIG_CHLD to the parent `p`, if one lives.\<close>

definition tell_parent :: "addr option \<Rightarrow> thread_signal list \<Rightarrow> thread_signal list" where
  "tell_parent p q = (case p of None \<Rightarrow> q | Some p \<Rightarrow> queued p SIG_CHLD (-1) q)"

lemma orphan_Some: "m u = Some th \<Longrightarrow>
    orphan i us m u = Some (if u \<in> us \<and> parent th = i then th\<lparr>parent := -1\<rparr> else th)"
  by (simp add: orphan_def)

lemma dom_orphan [simp]: "dom (orphan i us m) = dom m"
  by (auto simp: orphan_def split: if_splits)

lemma tid_orphan [simp]: "u \<in> dom m \<Longrightarrow> tid (the (orphan i us m u)) = tid (the (m u))"
  by (auto simp: orphan_def)

lemma orphan_insert: "m u = Some th \<Longrightarrow>
  orphan i (insert u us) m = (orphan i us m)(u \<mapsto> (if parent th = i then th\<lparr>parent := -1\<rparr> else th))"
  by (auto simp: orphan_def fun_eq_iff)

lemma orphan_empty [simp]: "orphan i {} m = m"
  by (simp add: orphan_def fun_eq_iff)

lemma length_queued: "length (queued dt sg m q) \<le> Suc (length q)"
  by (simp add: queued_def)

lemma length_pending: "length (pending items s) = length (items (sig_list s))"
  by (simp add: pending_def)

text \<open>The state after the loop.\<close>

definition left_family ::
  "('l, 'h) pintos \<Rightarrow> ('l \<Rightarrow> addr list) \<Rightarrow> ('h \<Rightarrow> addr set) \<Rightarrow> ('h \<Rightarrow> addr set) \<Rightarrow> thread \<Rightarrow> addr list
    \<Rightarrow> ('l, 'h) kernel \<Rightarrow> ('l, 'h) kernel \<Rightarrow> bool"
where
  "left_family P items used blocks th ds s s' \<longleftrightarrow>
     signals_only P used (s\<lparr>heap := orphan (tid th) (set ds) (heap s)\<rparr>) s' \<and> signals_ok items blocks s' \<and>
     pending items s' = tell_parent (find (\<lambda>a. tid (the (heap s a)) = parent th) ds) (pending items s)"

lemma orphan_threads_ok:
  assumes inv: "threads_ok items used r D s" and i: "1 \<le> i"
  shows "threads_ok items used r D (s\<lparr>heap := orphan i us (heap s)\<rparr>)" (is "threads_ok items used r D ?s'")
proof -
  note d = threads_okD [OF inv]
  have "thread_ok items r D ?s' u x" if "heap ?s' u = Some x" for u x
  proof -
    from that have "orphan i us (heap s) u = Some x" by simp
    then have "u \<in> dom (orphan i us (heap s))" by (rule domI)
    then have "u \<in> dom (heap s)" by (simp only: dom_orphan)
    then obtain th where th: "heap s u = Some th" by auto
    from that orphan_Some [of "heap s" u th i us] th
    have x: "x = (if u \<in> us \<and> parent th = i then th\<lparr>parent := -1\<rparr> else th)" by simp
    from d(1) [OF th] have "thread_ok items r D s u th" .
    then show ?thesis using i by (auto simp: x thread_ok_def is_thread_def)
  qed
  moreover have "inj_on (\<lambda>u. tid (the (heap ?s' u))) (dom (heap ?s'))"
    using d(7) by (simp add: inj_on_def)
  moreover have "set (items (ready_list ?s')) \<union> set (items (all_list ?s')) \<subseteq> dom (heap ?s')"
    "dom (heap ?s') \<subseteq> used (hw ?s')" "cpu ?s' \<in> dom (heap ?s')"
    "\<exists>i \<in> set (items (all_list ?s')). idle_thread ?s' = Some i"
    using inv by (simp_all add: threads_ok_def)
  ultimately show ?thesis using d(2,3) unfolding threads_ok_def by simp
qed

context pintos_kernel
begin

lemma leave_family_step:
  assumes threads: "threads_ok items used r D s" and t: "heap s t = Some th" "t \<in> set (items (all_list s))"
    and split: "items (all_list s) = ds @ e # es"
    and fuel: "length (items (sig_list s)) \<le> n"
    and mem: "(\<forall>h. fst (malloc P h) \<noteq> None) \<or> Null_deref \<in> F"
    and p: "left_family P items used blocks th ds s s1"
  shows "ok F (leave_family P n t e s1) (left_family P items used blocks th (ds @ [e]) s)"
proof -
  note d = threads_okD [OF threads]
  let ?m = "heap s" and ?i = "tid th"
  let ?live = "\<lambda>ds. find (\<lambda>a. tid (the (?m a)) = parent th) ds"
  from d(5) [of e] split obtain eth where e: "?m e = Some eth" by auto
  from d(1) [OF t(1)] have own: "parent th \<noteq> ?i" by (simp add: thread_ok_def)
  from p have so: "signals_only P used (s\<lparr>heap := orphan ?i (set ds) ?m\<rparr>) s1" and sigs: "signals_ok items blocks s1"
    and pend: "pending items s1 = tell_parent (?live ds) (pending items s)" by (simp_all add: left_family_def)
  from so have heap1: "heap s1 = orphan ?i (set ds) ?m" by (simp add: signals_only_def)
  have t1: "heap s1 t = Some th" using orphan_Some [of ?m t th ?i "set ds"] t(1) own by (simp add: heap1)
  have "e \<notin> set ds" using d(3) split by simp
  then have e1: "heap s1 e = Some eth" using orphan_Some [of ?m e eth ?i "set ds"] e by (simp add: heap1)
  let ?s2 = "s1\<lparr>heap := orphan ?i (set (ds @ [e])) ?m\<rparr>"
  have s2: "(if parent eth = ?i then set_thread e (eth\<lparr>parent := -1\<rparr>) s1 else s1) = ?s2"
  proof (cases "parent eth = ?i")
    case True
    then show ?thesis using orphan_insert [of ?m e eth ?i "set ds"] e by (simp add: set_thread_def heap1)
  next
    case False
    then have "orphan ?i (set (ds @ [e])) ?m = heap s1"
      using orphan_insert [of ?m e eth ?i "set ds"] e e1 by (simp add: fun_upd_idem flip: heap1)
    with False show ?thesis by simp
  qed
  have so2: "signals_only P used (s\<lparr>heap := orphan ?i (set (ds @ [e])) ?m\<rparr>) ?s2"
    using so by (simp add: signals_only_def)
  have t2: "heap ?s2 t = Some th" using orphan_Some [of ?m t th ?i "set (ds @ [e])"] t(1) own by simp
  have sigs2: "signals_ok items blocks ?s2" using sigs by (auto elim!: signals_ok_frame)
  have pend2: "pending items ?s2 = pending items s1" by (simp add: pending_def)
  have run: "leave_family P n t e s1 = (if parent th = tid eth then queue_signal P n e SIG_CHLD (-1) ?s2 else Inr ?s2)"
    using t1 e1 t2 by (simp add: leave_family_def s2 Let_def)
  show ?thesis
  proof (cases "parent th = tid eth")
    case False
    with e have "?live (ds @ [e]) = ?live ds" by (simp add: find_append_case split: option.splits)
    with False so2 sigs2 pend pend2 show ?thesis by (simp add: run left_family_def)
  next
    case True
    have "?live ds = None"
    proof (rule ccontr)
      assume "?live ds \<noteq> None"
      then obtain a where a: "a \<in> set ds" "tid (the (?m a)) = tid eth"
        using True by (auto simp: find_None_iff)
      from d(5) [of a] split a have "a \<in> dom ?m" by auto
      moreover have "e \<in> dom ?m" "tid (the (?m a)) = tid (the (?m e))" using e a(2) by auto
      ultimately have "a = e" using d(7) by (auto dest: inj_onD)
      with a(1) \<open>e \<notin> set ds\<close> show False by simp
    qed
    with True e have live: "?live (ds @ [e]) = Some e" and pend1: "pending items s1 = pending items s"
      by (simp_all add: find_append_case pend tell_parent_def)
    have "length (items (sig_list ?s2)) \<le> n"
      using fuel length_pending [of items s] length_pending [of items s1] by (simp add: pend1)
    from queue_signal_ok [OF sigs2 this mem, of SIG_CHLD "-1" e]
    have q: "ok F (queue_signal P n e SIG_CHLD (-1) ?s2) (has_queued P items used blocks e SIG_CHLD (-1) ?s2)"
      by (simp add: signal_ok_def)
    have "left_family P items used blocks th (ds @ [e]) s s'" if "has_queued P items used blocks e SIG_CHLD (-1) ?s2 s'" for s'
    proof -
      from that have so': "signals_only P used ?s2 s'" by (simp add: has_queued_def)
      have "signals_only P used (s\<lparr>heap := orphan ?i (set (ds @ [e])) ?m\<rparr>) s'"
        using so2 so' by (rule signals_only_trans)
      with that live pend2 pend1 show ?thesis by (simp add: left_family_def has_queued_def tell_parent_def)
    qed
    with q True show ?thesis by (auto simp: run elim: ok_mono)
  qed
qed

lemma leave_family_ok:
  assumes threads: "threads_ok items used r D s" and sigs: "signals_ok items blocks s"
    and t: "heap s t = Some th" "t \<in> set (items (all_list s))"
    and fuel: "length (items (sig_list s)) \<le> n" "length (items (all_list s)) \<le> n"
    and mem: "(\<forall>h. fst (malloc P h) \<noteq> None) \<or> Null_deref \<in> F"
  shows "ok F (for_each n (\<lambda>_. False) (\<lambda>s. list_next P (all_list s)) (leave_family P n t) (list_begin P (all_list s)) s)
    (left_family P items used blocks th (items (all_list s)) s)"
proof -
  let ?I = "\<lambda>es s1. \<exists>ds. items (all_list s) = ds @ es \<and> left_family P items used blocks th ds s s1"
  have frame: "all_list s2 = all_list s1" if "leave_family P n t e s1 = Inr s2" for e s1 s2
    using that by (auto simp: leave_family_def queue_signal_def deref_def sig_defs Let_def find_signal_frame
        split: if_splits prod.splits option.splits)
  have "for_each n (\<lambda>_. False) (\<lambda>s. list_next P (all_list s)) (leave_family P n t) (list_begin P (all_list s)) s
      = fold_res (\<lambda>_. False) (leave_family P n t) (items (all_list s)) s"
    using frame threads_okD(3) [OF threads] fuel(2) by (intro traverse_frame) simp_all
  moreover have "ok F (fold_res (\<lambda>_. False) (leave_family P n t) (items (all_list s)) s)
      (left_family P items used blocks th (items (all_list s)) s)"
  proof (rule ok_fold [where I = ?I])
    show "?I (items (all_list s)) s"
      using sigs by (intro exI [of _ "[]"]) (simp add: left_family_def tell_parent_def signals_only_refl)
  next
    fix e es s1
    assume "?I (e # es) s1"
    then obtain ds where "items (all_list s) = ds @ e # es" "left_family P items used blocks th ds s s1" by blast
    from leave_family_step [OF threads t this(1) fuel(1) mem this(2)] this(1)
    show "ok F (leave_family P n t e s1) (?I es)" by (auto elim!: ok_mono intro!: exI [of _ "ds @ [e]"])
  qed auto
  ultimately show ?thesis by simp
qed

end

end
