(* ===== verification/Sig_Switch.thy ===== *)
theory Sig_Switch
  imports Sig_Exit
begin

text \<open>
  The context switch with delivery: choosing the next thread, running `handleSignals` in it, and
  the deaths this may cause, one inside the other.  One theorem covers both the runs
  that succeed for sure and the faults that a run may hit.
\<close>

subsection \<open>What a switch leaves\<close>

definition expired :: "thread \<Rightarrow> 64 word \<Rightarrow> bool" where
  "expired th now \<longleftrightarrow> maxlifetime th < now - starttime th \<and> maxlifetime th \<noteq> 0"

text \<open>
  Nothing is left to do for the thread that now runs: no signal that could be taken is queued, and
  if its lifetime is over, it masks or ignores SIG_CPU.
\<close>

definition quiet :: "('l \<Rightarrow> addr list) \<Rightarrow> ('l, 'h) kernel \<Rightarrow> bool" where
  "quiet items s \<longleftrightarrow> (\<forall>x \<in> set (pending items s). \<not> takes (heap s) (cpu s) x) \<and>
     (\<forall>th. heap s (cpu s) = Some th \<and> expired th (clock_count s) \<longrightarrow>
        checkBit (sigmask th) (ucast SIG_CPU) \<or> \<not> checkBit (sigign th) (ucast SIG_CPU))"

text \<open>
  Every live thread with the id `i`, except those in `D`, has a SIG_KILL queued, and no new thread will get that id.  This is
  carried through a switch for an arbitrary `i`; for the id 0, which no thread has, it says nothing.
\<close>

definition doom :: "('l \<Rightarrow> addr list) \<Rightarrow> tid_t \<Rightarrow> addr set \<Rightarrow> ('l, 'h) kernel \<Rightarrow> bool" where
  "doom items i D s \<longleftrightarrow> i < next_tid s \<and>
     (\<forall>t \<in> set (items (all_list s)) - D. tid (the (heap s t)) = i \<longrightarrow> (t, SIG_KILL) \<in> key ` set (pending items s))"

lemma doom_frame:
  assumes "doom items i D s" and "next_tid s \<le> next_tid s'"
    and "set (items (all_list s')) - E \<subseteq> set (items (all_list s)) - D"
    and "\<And>t. t \<in> set (items (all_list s')) - E \<Longrightarrow> tid (the (heap s' t)) = tid (the (heap s t))"
    and "key ` set (pending items s) \<subseteq> key ` set (pending items s')"
  shows "doom items i E s'"
  using assms unfolding doom_def by (auto simp: subset_iff)

lemma doom_mono: "doom items i D s \<Longrightarrow> D \<subseteq> E \<Longrightarrow> doom items i E s"
  by (auto simp: doom_def)

lemma doom_zero:
  assumes "kernel_ok items used blocks s"
  shows "doom items 0 D s"
proof -
  from assms have threads: "threads_ok items used (Some (cpu s)) {} s" by (simp add: kernel_ok_def)
  have pos: "1 \<le> tid th \<and> tid th < next_tid s" if "heap s t = Some th" for t th
    using threads_okD(1) [OF threads that] by (simp add: thread_ok_def)
  from kernel_ok_current [OF assms] obtain th where "heap s (cpu s) = Some th" .
  from pos [OF this] have "0 < next_tid s" by simp
  moreover have "tid (the (heap s t)) \<noteq> 0" if "t \<in> set (items (all_list s))" for t
    using threads_okD(5) [OF threads that] pos by fastforce
  ultimately show ?thesis by (simp add: doom_def)
qed

definition switched ::
  "('l, 'h) pintos \<Rightarrow> ('l \<Rightarrow> addr list) \<Rightarrow> ('h \<Rightarrow> addr set) \<Rightarrow> ('h \<Rightarrow> addr set) \<Rightarrow> tid_t \<Rightarrow> ('l, 'h) kernel \<Rightarrow> bool"
where
  "switched P items used blocks i s \<longleftrightarrow> kernel_ok items used blocks s \<and> quiet items s \<and> doom items i {} s \<and>
     intr_get_level P (hw s) = INTR_OFF \<and> \<not> intr_context P (hw s) \<and>
     (\<exists>th. heap s (cpu s) = Some th \<and> resumable (frames th))"

text \<open>`schedule` up to `handleSignals`, when `n` is next.\<close>

definition dispatched :: "('l, 'h) pintos \<Rightarrow> addr \<Rightarrow> thread \<Rightarrow> ('l, 'h) kernel \<Rightarrow> ('l, 'h) kernel" where
  "dispatched P n th s =
     (let s' = s\<lparr>cpu := n, heap := (heap s)(n \<mapsto> th\<lparr>status := THREAD_RUNNING\<rparr>), thread_ticks := 0\<rparr>
      in if n \<noteq> cpu s \<and> status (the (heap s (cpu s))) = THREAD_DYING \<and> initial_thread s \<noteq> Some (cpu s)
         then s'\<lparr>heap := (heap s')(cpu s := None), hw := palloc_free_page P (cpu s) (hw s)\<rparr>
         else s')"

lemma takes_same:
  assumes "\<And>u. map_option sigmask (m' u) = map_option sigmask (m u)"
    and "\<And>u. map_option sigign (m' u) = map_option sigign (m u)"
  shows "takes m' t x = takes m t x"
proof -
  have "sigmask (the (m' t)) = sigmask (the (m t)) \<or> m t = None \<and> m' t = None" for t
    using assms(1) [of t] by (cases "m t"; cases "m' t") auto
  then have "sigmask (the (m' t)) = sigmask (the (m t))" for t by metis
  moreover have "(case m' u of None \<Rightarrow> False | Some th \<Rightarrow> open_to_ublock th) =
      (case m u of None \<Rightarrow> False | Some th \<Rightarrow> open_to_ublock th)" for u
    using assms [of u] by (cases "m u"; cases "m' u") (auto simp: open_to_ublock_def)
  ultimately show ?thesis by (simp add: takes_def)
qed

lemma kernel_ok_frame:
  assumes "kernel_ok items used blocks s"
    and "heap s' = heap s" "ready_list s' = ready_list s" "all_list s' = all_list s"
      "idle_thread s' = idle_thread s" "initial_thread s' = initial_thread s"
      "next_tid s' = next_tid s" "cpu s' = cpu s" "sigs s' = sigs s" "sig_list s' = sig_list s"
      "used (hw s) \<subseteq> used (hw s')" "blocks (hw s) \<subseteq> blocks (hw s')"
  shows "kernel_ok items used blocks s'"
  using assms(1) threads_ok_frame [of items used "Some (cpu s)" "{}" s s'] signals_ok_frame [of items blocks s s']
  by (simp add: kernel_ok_def assms(2-))

lemma printf_set_thread:
  "heap (printf ev (set_thread t th s)) = (heap s)(t \<mapsto> th)"
  "sigs (printf ev (set_thread t th s)) = sigs s" "sig_list (printf ev (set_thread t th s)) = sig_list s"
  "all_list (printf ev (set_thread t th s)) = all_list s" "hw (printf ev (set_thread t th s)) = hw s"
  "cpu (printf ev (set_thread t th s)) = cpu s" "idle_thread (printf ev (set_thread t th s)) = idle_thread s"
  "clock_count (printf ev (set_thread t th s)) = clock_count s" "next_tid (printf ev (set_thread t th s)) = next_tid s"
  by (simp_all add: sig_defs)

text \<open>Fields of a thread that the invariant does not mention.\<close>

lemma kernel_ok_thread:
  assumes inv: "kernel_ok items used blocks s" and th: "heap s t = Some th"
    and same: "tid th' = tid th" "status th' = status th" "parent th' = parent th" "magic th' = magic th"
      "frames th' = frames th" "idle_thread s = Some t \<Longrightarrow> maxlifetime th' = maxlifetime th"
  shows "kernel_ok items used blocks (set_thread t th' s)"
proof -
  from inv have threads: "threads_ok items used (Some (cpu s)) {} s" and sigs: "signals_ok items blocks s"
    by (simp_all add: kernel_ok_def)
  note d = threads_okD [OF threads]
  from d(1) [OF th] same have "thread_ok items (Some (cpu s)) {} (set_thread t th' s) t th'"
    by (auto simp: thread_ok_def is_thread_def sig_defs)
  then have "threads_ok items used (Some (cpu s)) {} (set_thread t th' s)"
    by (intro threads_ok_upd [OF threads th]) (use same d(2,3,6) in \<open>simp_all add: sig_defs\<close>)
  moreover have "signals_ok items blocks (set_thread t th' s)"
    using sigs by (auto elim!: signals_ok_frame simp: sig_defs)
  ultimately show ?thesis by (simp add: kernel_ok_def sig_defs)
qed

context pintos_kernel
begin

subsection \<open>handleSignals\<close>

lemma passed_quiet:
  assumes p: "passed P items used blocks t (items (sig_list s)) [] s (sigd, usr, s1)"
    and m: "\<And>u. map_option sigmask (m u) = map_option sigmask (heap s1 u)"
      "\<And>u. map_option sigign (m u) = map_option sigign (heap s1 u)"
    and x: "x \<in> set (pending items s1)"
  shows "\<not> takes m t x"
proof -
  from p have h: "heap s1 = wake (woken (heap s) t (pending items s)) (heap s)"
    by (simp add: passed_def Let_def pending_def)
  have "takes m t x = takes (heap s1) t x" by (rule takes_same [OF m])
  also have "\<dots> = takes (heap s) t x"
    unfolding h by (rule takes_same) (auto simp: wake_def option.map_comp comp_def)
  finally show ?thesis using x by (simp add: pending_passed [OF p])
qed

lemma passed_settled:
  assumes p: "passed P items used blocks t (items (sig_list s)) [] s (sigd, usr, s1)"
    and "settled items {} s"
  shows "settled items D s1"
  using assms by (auto simp: settled_def pending_passed [OF p] takes_def)

text \<open>A pass takes no SIG_KILL of another thread, and one for `t` is handed over.\<close>

lemma passed_doom:
  assumes p: "passed P items used blocks t (items (sig_list s)) [] s (sigd, usr, s1)" and doom: "doom items i {} s"
    and t: "t \<in> set (items (all_list s))"
  shows "doom items i {t} s1" and "tid (the (heap s t)) = i \<Longrightarrow> checkBit sigd (ucast SIG_KILL)"
    and "map_option tid (heap s1 u) = map_option tid (heap s u)"
proof -
  from p have h: "heap s1 = wake (woken (heap s) t (pending items s)) (heap s)" and pf: "pass_frame P used blocks s s1"
    and g: "checkBit sigd (ucast SIG_KILL) = gets (heap s) t (pending items s) SIG_KILL"
    by (simp_all add: passed_def Let_def pending_def)
  have ids: "map_option tid (heap s1 u) = map_option tid (heap s u)" for u
    by (simp add: h wake_def option.map_comp comp_def)
  then show "map_option tid (heap s1 u) = map_option tid (heap s u)" .
  have same: "tid (the (heap s1 u)) = tid (the (heap s u))" for u
    using ids [of u] by (cases "heap s u"; cases "heap s1 u") auto
  have queue: "\<exists>x \<in> set (pending items s). reciever x = u \<and> sig x = SIG_KILL"
    if "u \<in> set (items (all_list s))" "tid (the (heap s u)) = i" for u
    using doom that by (force simp: doom_def key_def)
  show "checkBit sigd (ucast SIG_KILL)" if "tid (the (heap s t)) = i"
  proof -
    from queue [OF t that] obtain x where "x \<in> set (pending items s)" "reciever x = t" "sig x = SIG_KILL" by blast
    moreover have diff: "SIG_KILL \<noteq> SIG_UBLOCK" by (simp add: SIG_KILL_def SIG_UBLOCK_def)
    moreover from calculation have "takes (heap s) t x" by (simp add: takes_def)
    ultimately show ?thesis unfolding g gets_def by blast
  qed
  have "(u, SIG_KILL) \<in> key ` set (pending items s1)"
    if "u \<in> set (items (all_list s))" "u \<noteq> t" "tid (the (heap s u)) = i" for u
    using queue [OF that(1,3)] that(2) by (force simp: pending_passed [OF p] takes_def key_def)
  then show "doom items i {t} s1" using doom pf by (auto simp: doom_def pass_frame_def same)
qed

lemma handleSignals_ok:
  assumes inv: "kernel_ok items used blocks s"
    and off: "intr_get_level P (hw s) = INTR_OFF" and ctx: "\<not> intr_context P (hw s)"
    and th: "heap s (cpu s) = Some th" and fr: "resumable (frames th)"
    and scpu: "scpu = expired th (clock_count s)"
    and fuel: "length (items (sig_list s)) \<le> n"
    and dead: "Bad_deref \<in> F \<or> settled items {} s" and doom: "doom items i {} s"
    and exit: "\<And>s2. kernel_ok items used blocks s2 \<Longrightarrow> intr_get_level P (hw s2) = INTR_OFF \<Longrightarrow>
      \<not> intr_context P (hw s2) \<Longrightarrow> idle_thread s2 \<noteq> Some (cpu s2) \<Longrightarrow> all_list s2 = all_list s \<Longrightarrow>
      length (items (sig_list s2)) \<le> length (items (sig_list s)) \<Longrightarrow>
      Bad_deref \<in> F \<or> settled items UNIV s2 \<Longrightarrow> doom items i {cpu s2} s2 \<Longrightarrow> ok F (exit s2) (switched P items used blocks i)"
  shows "ok F (handleSignals P n exit scpu s) (switched P items used blocks i)"
proof -
  let ?t = "cpu s"
  from kernel_ok_current [OF inv] th have cur: "thread_current s = Inr ?t" and run: "status th = THREAD_RUNNING"
    by auto
  from inv have threads: "threads_ok items used (Some ?t) {} s" and sigs: "signals_ok items blocks s"
    by (simp_all add: kernel_ok_def)
  have "ok F (run_handlers exit scpu ?t sigd usr s1) (switched P items used blocks i)"
    if p: "passed P items used blocks ?t (items (sig_list s)) [] s (sigd, usr, s1)" for sigd usr s1
  proof -
    from p wake_Some [of "heap s" ?t th] th obtain th1 where th1: "heap s1 ?t = Some th1"
      by (simp add: passed_def Let_def)
    let ?sigd = "if \<not> checkBit (sigmask th1) (ucast SIG_CPU) then
                   if scpu then setBit sigd (ucast SIG_CPU) else sigd else sigd"
    let ?calls = "?sigd AND sigign th1"
    let ?s1 = "if checkBit ?calls (ucast SIG_USR) then USR_handler usr s1 else s1"
    from p have gets: "checkBit sigd (ucast g) = gets (heap s) ?t (pending items s) g" if "is_signal g" for g
      using that by (simp add: passed_def Let_def pending_def)
    from p have pf: "pass_frame P used blocks s s1" and h1: "heap s1 = wake (woken (heap s) ?t (pending items s)) (heap s)"
      by (simp_all add: passed_def Let_def pending_def)
    have same: "frames th1 = frames th" "sigmask th1 = sigmask th" "sigign th1 = sigign th"
      "maxlifetime th1 = maxlifetime th" "starttime th1 = starttime th"
      using wake_Some [of "heap s" ?t th] th th1 by (auto simp: h1)
    note inv1 = passed_ok [OF inv p]
    from kernel_ok_current [OF inv1] th1 pf have run1: "thread_current ?s1 = Inr ?t"
      by (auto simp: USR_handler_def sig_defs thread_current_def pass_frame_def)
    have s1: "kernel_ok items used blocks ?s1" "pending items ?s1 = pending items s1" "heap ?s1 = heap s1"
      "hw ?s1 = hw s1" "cpu ?s1 = ?t" "clock_count ?s1 = clock_count s" "idle_thread ?s1 = idle_thread s"
      "all_list ?s1 = all_list s" "sig_list ?s1 = sig_list s1" "next_tid ?s1 = next_tid s"
      using kernel_ok_frame [OF inv1, of "USR_handler usr s1"] inv1 pf
      by (simp_all add: USR_handler_def sig_defs pending_def pass_frame_def)
    have cpu_dead: "checkBit ?calls (ucast SIG_CPU) \<longleftrightarrow>
        scpu \<and> \<not> checkBit (sigmask th) (ucast SIG_CPU) \<and> checkBit (sigign th) (ucast SIG_CPU)"
      using gets [of SIG_CPU] sigs same by (auto simp: sigset.mem_add gets_def signals_ok_def signal_ok_def)
    have kill_dead: "idle_thread s \<noteq> Some ?t" if "checkBit ?sigd (ucast SIG_KILL)"
    proof -
      from that is_signal_inj [of SIG_KILL SIG_CPU] gets [of SIG_KILL] have "gets (heap s) ?t (pending items s) SIG_KILL"
        by (auto simp: sigset.mem_add split: if_splits)
      with sigs show ?thesis by (auto simp: gets_def takes_def signals_ok_def signal_ok_def)
    qed
    have life_dead: "idle_thread s \<noteq> Some ?t" if scpu
      using that threads_okD(1) [OF threads th] by (auto simp: scpu expired_def thread_ok_def)
    have all: "?t \<in> set (items (all_list s))" using inv by (auto elim: kernel_ok_current)
    note gone = passed_doom [OF p doom all]
    have target: "checkBit ?sigd (ucast SIG_KILL)" if "tid th = i"
      using gone(2) that th by (simp add: sigset.mem_add)
    have fin: "ok F (if checkBit ?calls (ucast SIG_CPU)
       then CPU_handler exit (sint (ucast (maxlifetime th1) :: 32 word)) s2
       else if checkBit ?sigd (ucast SIG_KILL) then KILL_handler exit s2 else Inr s2) (switched P items used blocks i)"
      if s2: "kernel_ok items used blocks s2" "pending items s2 = pending items s1" "hw s2 = hw s1" "cpu s2 = ?t"
        "clock_count s2 = clock_count s" "idle_thread s2 = idle_thread s" "all_list s2 = all_list s"
        "sig_list s2 = sig_list s1" "next_tid s2 = next_tid s"
        and h2: "\<And>u. map_option sigmask (heap s2 u) = map_option sigmask (heap s1 u)"
          "\<And>u. map_option sigign (heap s2 u) = map_option sigign (heap s1 u)"
        and i2: "\<And>u. map_option tid (heap s2 u) = map_option tid (heap s1 u)"
        and t2: "heap s2 ?t = Some th2" "frames th2 = frames th" "sigmask th2 = sigmask th" "sigign th2 = sigign th"
          "maxlifetime th2 = maxlifetime th" "starttime th2 = starttime th" for s2 th2
    proof -
      have len: "length (items (sig_list s2)) \<le> length (items (sig_list s))"
        using pending_passed [OF p] by (simp add: s2(8) length_filter_le flip: length_pending)
      have settled2: "Bad_deref \<in> F \<or> settled items UNIV (printf ev s2)" for ev :: event
      proof -
        have "settled items UNIV s1 \<Longrightarrow> settled items UNIV (printf ev s2)"
          using s2(2) by (simp add: settled_def pending_def sig_defs)
        with dead passed_settled [OF p] show ?thesis by blast
      qed
      have ids: "tid (the (heap s2 u)) = tid (the (heap s1 u))" for u
        using i2 [of u] by (cases "heap s1 u"; cases "heap s2 u") auto
      have doom2: "doom items i {?t} s2"
        by (rule doom_frame [OF gone(1)]) (use s2 pf in \<open>simp_all add: ids pass_frame_def\<close>)
      then have doom2': "doom items i {?t} (printf ev s2)" for ev by (simp add: doom_def pending_def sig_defs)
      have die: "ok F (exit (printf ev s2)) (switched P items used blocks i)" if "idle_thread s \<noteq> Some ?t" for ev
        using that kernel_ok_frame [OF s2(1), of "printf ev s2"] pf off ctx s2 len settled2 [of ev] doom2' [of ev]
        by (intro exit) (simp_all add: sig_defs pass_frame_def)
      have live: "switched P items used blocks i s2" if "\<not> checkBit ?calls (ucast SIG_CPU)" "\<not> checkBit ?sigd (ucast SIG_KILL)"
      proof -
        from that(1) have alive: "\<not> (scpu \<and> \<not> checkBit (sigmask th) (ucast SIG_CPU) \<and> checkBit (sigign th) (ucast SIG_CPU))"
          by (simp only: cpu_dead not_False_eq_True)
        have "\<not> takes (heap s2) (cpu s2) x" if "x \<in> set (pending items s2)" for x
          using that passed_quiet [OF p h2] by (simp add: s2)
        moreover have "expired th2 (clock_count s2) = scpu" using t2 by (simp add: scpu expired_def s2)
        moreover have "tid (the (heap s2 ?t)) \<noteq> i"
        proof -
          have "tid (the (heap s1 ?t)) = tid th" using gone(3) [of ?t] th th1 by simp
          with target that(2) ids show ?thesis by auto
        qed
        then have "doom items i {} s2" using doom2 by (auto simp: doom_def)
        ultimately show ?thesis using alive t2 fr s2 pf off ctx
          by (auto simp: switched_def quiet_def pass_frame_def)
      qed
      show ?thesis
        using die live life_dead kill_dead cpu_dead by (auto simp: CPU_handler_def KILL_handler_def)
    qed
    show ?thesis
    proof (cases "checkBit ?calls (ucast SIG_CHLD)")
      case False
      have "ok F (if checkBit ?calls (ucast SIG_CPU)
         then CPU_handler exit (sint (ucast (maxlifetime th1) :: 32 word)) ?s1
         else if checkBit ?sigd (ucast SIG_KILL) then KILL_handler exit ?s1 else Inr ?s1) (switched P items used blocks i)"
        by (rule fin [OF s1(1,2,4-10), where ?th2.0 = th1]) (simp_all only: s1(3), simp_all only: th1 same)
      with False show ?thesis
        unfolding run_handlers_def peek_Some [of "heap s1", OF th1] bind_Inr by (simp only: Let_def if_False ok_bind ok_Inr)
    next
      case True
      let ?th2 = "th1\<lparr>dchild := dchild th1 + 1\<rparr>"
      let ?s2 = "printf (Sig_chld (child ?th2) (child ?th2 - dchild ?th2)) (set_thread ?t ?th2 ?s1)"
      have t1: "heap ?s1 ?t = Some th1" using th1 s1(3) by simp
      have "CHILD_handler ?s1 = Inr ?s2" using run1 t1 by (simp add: CHILD_handler_def Let_def)
      moreover have "kernel_ok items used blocks ?s2"
        using kernel_ok_frame [OF kernel_ok_thread [OF s1(1) t1, of ?th2], of ?s2] by (simp add: sig_defs)
      moreover have "ok F (if checkBit ?calls (ucast SIG_CPU)
         then CPU_handler exit (sint (ucast (maxlifetime th1) :: 32 word)) ?s2
         else if checkBit ?sigd (ucast SIG_KILL) then KILL_handler exit ?s2 else Inr ?s2) (switched P items used blocks i)"
      proof -
        have "sigs ?s1 = sigs s1" by (simp add: USR_handler_def sig_defs)
        then have pend2: "pending items ?s2 = pending items s1"
          by (simp only: pending_def printf_set_thread s1(9))
        have h2: "heap ?s2 = (heap s1)(?t \<mapsto> ?th2)" by (simp only: printf_set_thread s1(3))
        have f2: "hw ?s2 = hw s1" "cpu ?s2 = ?t" "clock_count ?s2 = clock_count s" "idle_thread ?s2 = idle_thread s"
          "all_list ?s2 = all_list s" "sig_list ?s2 = sig_list s1" "next_tid ?s2 = next_tid s"
          by (simp_all only: printf_set_thread s1(4-10))
        show ?thesis
          by (rule fin [OF \<open>kernel_ok items used blocks ?s2\<close> pend2 f2, where ?th2.0 = ?th2], unfold h2)
            (simp_all add: th1 same del: if_split)
      qed
      ultimately show ?thesis using True
        unfolding run_handlers_def peek_Some [of "heap s1", OF th1] bind_Inr by (simp only: Let_def if_True ok_bind ok_Inr)
    qed
  qed
  then show ?thesis
    using take_signals_ok [OF inv fuel dead] unfolding handleSignals_def cur bind_Inr ok_bind
    by (auto elim!: ok_mono)
qed

subsection \<open>Choosing the next thread\<close>

lemma schedule_dispatched:
  assumes nxt: "next_thread_to_run P s = (Some n, s1)"
    and s1: "heap s1 = heap s" "cpu s1 = cpu s" "hw s1 = hw s" "initial_thread s1 = initial_thread s"
      "clock_count s1 = clock_count s"
    and off: "intr_get_level P (hw s) = INTR_OFF"
    and cth: "heap s (cpu s) = Some cth" "status cth \<noteq> THREAD_RUNNING"
    and th: "heap s n = Some th" "is_thread th"
  shows "schedule P f exit s = handleSignals P f exit (expired th (clock_count s)) (dispatched P n th s1)"
proof (cases "n = cpu s")
  case True
  have same: "s1\<lparr>cpu := cpu s\<rparr> = s1" using s1(2) by (cases s1 rule: kernel.cases) simp
  from True assms show ?thesis
    by (simp add: same schedule_def thread_schedule_tail_def dispatched_def expired_def sig_defs Let_def)
next
  case False
  show ?thesis
  proof (cases "status cth = THREAD_DYING \<and> initial_thread s \<noteq> Some (cpu s)")
    case True
    with False assms show ?thesis
      by (auto simp: schedule_def thread_schedule_tail_def dispatched_def expired_def sig_defs Let_def fun_upd_twist)
  next
    case no: False
    from cth False have "peek ((heap s)(n \<mapsto> th\<lparr>status := THREAD_RUNNING\<rparr>)) (cpu s) = Inr cth" by simp
    with no False assms show ?thesis
      by (auto simp: schedule_def thread_schedule_tail_def dispatched_def expired_def sig_defs Let_def)
  qed
qed

lemma sig_next_cases:
  assumes inv: "threads_ok items used r D s"
  obtains n th rl where "next_thread_to_run P s = (Some n, s\<lparr>ready_list := rl\<rparr>)"
    and "heap s n = Some th" and "n \<in> set (items (all_list s))"
    and "distinct (items rl)" and "set (items rl) = set (items (ready_list s)) - {n}"
    and "items (ready_list s) = (if items (ready_list s) = [] then [] else n # items rl)"
    and "items (ready_list s) = [] \<Longrightarrow> items rl = [] \<and> idle_thread s = Some n"
proof (cases "items (ready_list s)")
  case Nil
  from inv obtain n where n: "idle_thread s = Some n" "n \<in> set (items (all_list s))" unfolding threads_ok_def by blast
  from threads_okD(5) [OF inv n(2)] obtain th where "heap s n = Some th" by blast
  with Nil n show thesis
    by (intro that [where n = n and th = th and rl = "ready_list s"]) (simp_all add: next_thread_to_run_def)
next
  case (Cons n xs)
  from pop_Cons [OF Cons] obtain l where l: "list_pop_front P (ready_list s) = (n, l)" "items l = xs" .
  from Cons have "n \<in> set (items (ready_list s))" by simp
  from threads_ok_ready [OF inv this] obtain th where th: "heap s n = Some th" "n \<in> set (items (all_list s))" by metis
  with l Cons threads_okD(2) [OF inv] show thesis
    by (intro that [where n = n and th = th and rl = l]) (auto simp: next_thread_to_run_def)
qed

lemma dispatched_ok:
  assumes inv: "threads_ok items used None D s" and sigs: "signals_ok items blocks s" and D: "D \<subseteq> {cpu s}"
    and th: "heap s n = Some th" and n: "n \<in> set (items (all_list s))"
    and rl: "distinct (items rl)" "set (items rl) = set (items (ready_list s)) - {n}"
  shows "kernel_ok items used blocks (dispatched P n th (s\<lparr>ready_list := rl\<rparr>))"
proof -
  let ?s' = "dispatched P n th (s\<lparr>ready_list := rl\<rparr>)"
  let ?th = "th\<lparr>status := THREAD_RUNNING\<rparr>"
  let ?free = "n \<noteq> cpu s \<and> status (the (heap s (cpu s))) = THREAD_DYING \<and> initial_thread s \<noteq> Some (cpu s)"
  let ?heap = "(heap s)(n \<mapsto> ?th)"
  note d = threads_okD [OF inv]
  have heap': "heap ?s' = (if ?free then ?heap(cpu s := None) else ?heap)"
    by (simp add: dispatched_def Let_def)
  have same: "ready_list ?s' = rl" "all_list ?s' = all_list s" "idle_thread ?s' = idle_thread s" "cpu ?s' = n"
      "next_tid ?s' = next_tid s" "initial_thread ?s' = initial_thread s" "sigs ?s' = sigs s" "sig_list ?s' = sig_list s"
      "blocks (hw ?s') = blocks (hw s)"
    by (simp_all add: dispatched_def Let_def)
  have not_dying: "t \<noteq> cpu s" if ?free "t \<in> set (items (all_list s))" for t
    using that d(5) [OF that(2)] d(1) [of "cpu s"] by (auto simp: thread_ok_def)
  have other: "thread_ok items (Some n) {} ?s' t u" if u: "heap s t = Some u" "t \<noteq> n" "\<not> (?free \<and> t = cpu s)" for t u
  proof -
    have "t \<in> set (items rl) \<longleftrightarrow> t \<in> set (items (ready_list s))" using u(2) rl(2) by simp
    moreover have "status u = THREAD_DYING \<longrightarrow> initial_thread s = Some t"
    proof (cases "t = cpu s")
      case True
      with u show ?thesis by auto
    next
      case False
      with D d(1) [OF u(1)] show ?thesis by (auto simp: thread_ok_def)
    qed
    ultimately show ?thesis using d(1) [OF u(1)] u(2) by (simp add: thread_ok_def same)
  qed
  have new: "thread_ok items (Some n) {} ?s' n ?th"
    using d(1) [OF th] n rl(2) by (auto simp: thread_ok_def same is_thread_def)
  have all: "thread_ok items (Some n) {} ?s' t u" if "heap ?s' t = Some u" for t u
    using that new other [of t u] by (auto simp: heap' split: if_splits)
  have sub: "set (items rl) \<union> set (items (all_list s)) \<subseteq> dom (heap ?s')"
  proof
    fix t
    assume t: "t \<in> set (items rl) \<union> set (items (all_list s))"
    have "t \<in> set (items (all_list s))"
    proof (cases "t \<in> set (items (all_list s))")
      case False
      with t rl(2) have "t \<in> set (items (ready_list s))" by blast
      from threads_ok_ready [OF inv this] show ?thesis .
    qed
    with d(5) [OF this] not_dying show "t \<in> dom (heap ?s')" by (auto simp: heap')
  qed
  have "inj_on (\<lambda>t. tid (the (heap ?s' t))) (dom (heap ?s'))"
  proof -
    have "tid (the (heap ?s' t)) = tid (the (heap s t))" if "t \<in> dom (heap ?s')" for t
      using that th by (auto simp: heap' split: if_splits)
    moreover have "dom (heap ?s') \<subseteq> dom (heap s)" using th by (auto simp: heap' split: if_splits)
    ultimately show ?thesis using d(7) by (simp add: inj_on_def subset_iff)
  qed
  moreover have "dom (heap ?s') \<subseteq> used (hw ?s')"
    using inv th by (auto simp: heap' threads_ok_def dispatched_def Let_def)
  moreover have "\<exists>i \<in> set (items (all_list s)). idle_thread s = Some i" using inv by (simp add: threads_ok_def)
  moreover have "n \<in> dom (heap ?s')" using n sub by blast
  ultimately have "threads_ok items used (Some n) {} ?s'"
    using all sub rl(1) d(3) unfolding threads_ok_def by (simp add: same)
  moreover have "signals_ok items blocks ?s'" using sigs by (rule signals_ok_frame) (simp_all add: same)
  ultimately show ?thesis by (simp add: kernel_ok_def same)
qed

text \<open>`schedule`, given what the death of the next thread does.\<close>

lemma schedule_ok:
  assumes inv: "threads_ok items used None D s" and sigs: "signals_ok items blocks s" and D: "D \<subseteq> {cpu s}"
    and off: "intr_get_level P (hw s) = INTR_OFF" and ctx: "\<not> intr_context P (hw s)"
    and fuel: "length (items (sig_list s)) \<le> n"
    and dead: "Bad_deref \<in> F \<or> settled items {cpu s} s \<or> D = {} \<and> settled items {} s" and doom: "doom items i {} s"
    and exit: "\<And>s2. kernel_ok items used blocks s2 \<Longrightarrow> intr_get_level P (hw s2) = INTR_OFF \<Longrightarrow>
      \<not> intr_context P (hw s2) \<Longrightarrow> idle_thread s2 \<noteq> Some (cpu s2) \<Longrightarrow> all_list s2 = all_list s \<Longrightarrow>
      length (items (sig_list s2)) \<le> length (items (sig_list s)) \<Longrightarrow>
      Bad_deref \<in> F \<or> settled items UNIV s2 \<Longrightarrow> doom items i {cpu s2} s2 \<Longrightarrow> ok F (exit s2) (switched P items used blocks i)"
  shows "ok F (schedule P n exit s) (switched P items used blocks i)"
proof -
  from sig_next_cases [OF inv] obtain m th rl where nxt: "next_thread_to_run P s = (Some m, s\<lparr>ready_list := rl\<rparr>)"
    and th: "heap s m = Some th" and m: "m \<in> set (items (all_list s))"
    and rl: "distinct (items rl)" "set (items rl) = set (items (ready_list s)) - {m}" by metis
  note d = threads_okD [OF inv]
  let ?s1 = "dispatched P m th (s\<lparr>ready_list := rl\<rparr>)"
  from inv obtain cth where cth: "heap s (cpu s) = Some cth" unfolding threads_ok_def by blast
  from d(1) [OF cth] have nrun: "status cth \<noteq> THREAD_RUNNING" by (simp add: thread_ok_def)
  from d(1) [OF th] m have k: "is_thread th" "resumable (frames th)" by (auto simp: thread_ok_def)
  have s1: "heap ?s1 m = Some (th\<lparr>status := THREAD_RUNNING\<rparr>)" "cpu ?s1 = m" "clock_count ?s1 = clock_count s"
    "intr_get_level P (hw ?s1) = INTR_OFF" "\<not> intr_context P (hw ?s1)" "sig_list ?s1 = sig_list s"
    "all_list ?s1 = all_list s" "sigs ?s1 = sigs s"
    using off ctx by (simp_all add: dispatched_def Let_def)
  have "settled items {} ?s1" if "settled items {cpu s} s \<or> D = {} \<and> settled items {} s"
    unfolding settled_def
  proof (intro ballI impI conjI)
    fix x
    assume x: "x \<in> set (pending items ?s1)" "sig x = SIG_UBLOCK"
    with s1 have "x \<in> set (pending items s)" by (simp add: pending_def)
    with that x obtain rth where rth: "heap s (reciever x) = Some rth" "open_to_ublock rth"
      and live: "reciever x = cpu s \<longrightarrow> D = {}" unfolding settled_def by blast
    have "status cth \<noteq> THREAD_DYING \<or> initial_thread s = Some (cpu s)" if "reciever x = cpu s"
      using that live d(1) [OF cth] by (auto simp: thread_ok_def)
    then show "\<exists>th. heap ?s1 (reciever x) = Some th \<and> open_to_ublock th"
      using rth th cth by (auto simp: dispatched_def Let_def open_to_ublock_def)
  qed simp
  with dead have dead1: "Bad_deref \<in> F \<or> settled items {} ?s1" by blast
  have doom1: "doom items i {} ?s1"
  proof (rule doom_frame [OF doom])
    show "next_tid s \<le> next_tid ?s1" by (simp add: dispatched_def Let_def)
    fix t
    assume "t \<in> set (items (all_list ?s1)) - {}"
    then have t: "t \<in> set (items (all_list s))" by (simp add: s1)
    with d(5) obtain x where "heap s t = Some x" by blast
    with t d(1) [of t x] cth have "status cth \<noteq> THREAD_DYING" if "t = cpu s" using that by (auto simp: thread_ok_def)
    with th cth show "tid (the (heap ?s1 t)) = tid (the (heap s t))" by (auto simp: dispatched_def Let_def)
  qed (simp_all add: pending_def s1)
  have "ok F (handleSignals P n exit (expired th (clock_count s)) ?s1) (switched P items used blocks i)"
  proof (rule handleSignals_ok [OF dispatched_ok [OF inv sigs D th m rl]])
    show "heap ?s1 (cpu ?s1) = Some (th\<lparr>status := THREAD_RUNNING\<rparr>)" using s1 by simp
    show "expired th (clock_count s) = expired (th\<lparr>status := THREAD_RUNNING\<rparr>) (clock_count ?s1)"
      using s1 by (simp add: expired_def)
  qed (use s1 k fuel dead1 doom1 exit in simp_all)
  then show ?thesis using schedule_dispatched [OF nxt _ _ _ _ _ off cth nrun th k(1)] by simp
qed

end

end
