(* ===== verification/Sig_Safe.thy ===== *)
theory Sig_Safe
  imports Sig_Switch
begin

text \<open>
  Safety and termination of the operations that switch threads: with fuel for as many nested
  deaths as there are threads they come to an end, and what they leave is well formed and quiet.
  The only faults possible are a failed `malloc` dereferenced, and a SIG_UBLOCK whose
  receiver is gone.
\<close>

definition enough_fuel :: "('l \<Rightarrow> addr list) \<Rightarrow> nat \<Rightarrow> nat \<Rightarrow> ('l, 'h) kernel \<Rightarrow> bool" where
  "enough_fuel items n k s \<longleftrightarrow>
     length (items (sig_list s)) + length (items (all_list s)) \<le> n \<and> length (items (all_list s)) \<le> k"

lemma settled_mono: "settled items D s \<Longrightarrow> E \<subseteq> D \<Longrightarrow> settled items E s"
  by (auto simp: settled_def)

lemma settled_upd:
  assumes "heap s t = Some th" and "heap s' = (heap s)(t \<mapsto> th')"
    and "sigmask th' = sigmask th" and "sigign th' = sigign th" and "pending items s' = pending items s"
  shows "settled items D s \<Longrightarrow> settled items D s'"
  using assms by (auto simp: settled_def open_to_ublock_def)

text \<open>
  The state in which a dying thread calls `schedule`: it is off every list, its children have no
  parent and its parent has a SIG_CHLD queued.
\<close>

definition died ::
  "('l, 'h) pintos \<Rightarrow> ('l \<Rightarrow> addr list) \<Rightarrow> ('h \<Rightarrow> addr set) \<Rightarrow> ('h \<Rightarrow> addr set) \<Rightarrow> ('l, 'h) kernel \<Rightarrow> ('l, 'h) kernel \<Rightarrow> bool"
where
  "died P items used blocks s s3 \<longleftrightarrow>
     (let th = the (heap s (cpu s)); all = items (all_list s) in
      threads_ok items used None {cpu s} s3 \<and> signals_ok items blocks s3 \<and> cpu s3 = cpu s \<and>
      idle_thread s3 = idle_thread s \<and> next_tid s3 = next_tid s \<and> initial_thread s3 = initial_thread s \<and>
      intr_get_level P (hw s3) = INTR_OFF \<and> intr_context P (hw s3) = intr_context P (hw s) \<and>
      items (all_list s3) = remove1 (cpu s) all \<and>
      heap s3 = (orphan (tid th) (set all) (heap s))(cpu s \<mapsto> th\<lparr>status := THREAD_DYING\<rparr>) \<and>
      pending items s3 = tell_parent (find (\<lambda>a. tid (the (heap s a)) = parent th) all) (pending items s) \<and>
      length (items (sig_list s3)) \<le> Suc (length (items (sig_list s))) \<and>
      (\<forall>D. settled items D s \<longrightarrow> settled items D s3))"

context pintos_kernel
begin

subsection \<open>Dying\<close>

lemma left_settled:
  assumes "left_family P items used blocks th ds s s'" and "settled items D s"
  shows "settled items D s'"
  unfolding settled_def
proof (intro ballI impI)
  fix x
  assume x: "x \<in> set (pending items s')" "sig x = SIG_UBLOCK"
  from assms(1) have h: "heap s' = orphan (tid th) (set ds) (heap s)"
    and p: "pending items s' = tell_parent (find (\<lambda>a. tid (the (heap s a)) = parent th) ds) (pending items s)"
    by (auto simp: left_family_def signals_only_def)
  from x p obtain y where "y \<in> set (pending items s)" "key x = key y"
    by (auto simp: tell_parent_def key_def dest!: set_queued split: option.splits)
  with assms(2) x(2) obtain rth where "reciever x \<notin> D" "heap s (reciever x) = Some rth" "open_to_ublock rth"
    by (auto simp: settled_def key_def)
  with orphan_Some [of "heap s" "reciever x" rth]
  show "reciever x \<notin> D \<and> (\<exists>th. heap s' (reciever x) = Some th \<and> open_to_ublock th)"
    by (auto simp: h open_to_ublock_def)
qed

lemma left_died:
  assumes inv: "kernel_ok items used blocks s" and not_idle: "idle_thread s \<noteq> Some (cpu s)"
    and th: "heap s (cpu s) = Some th"
    and left: "left_family P items used blocks th (items (all_list s)) (intr_off P s) s2"
  shows "died P items used blocks s (s2\<lparr>all_list := list_remove P (all_list s2) (cpu s),
    heap := (heap s2)(cpu s \<mapsto> th\<lparr>status := THREAD_DYING\<rparr>)\<rparr>)" (is "died _ _ _ _ _ ?s3")
proof -
  let ?t = "cpu s" and ?s1 = "intr_off P s"
  from inv have threads: "threads_ok items used (Some ?t) {} s" and sigs: "signals_ok items blocks s"
    by (simp_all add: kernel_ok_def)
  from kernel_ok_current [OF inv] th have all: "?t \<in> set (items (all_list s))" and run: "status th = THREAD_RUNNING" "is_thread th"
    by (auto elim!: kernel_ok_current)
  have off: "threads_ok items used (Some ?t) {} ?s1"
    using threads by (auto elim!: threads_ok_frame simp: sig_defs)
  from left have so: "signals_only P used (?s1\<lparr>heap := orphan (tid th) (set (items (all_list s))) (heap s)\<rparr>) s2"
    and sigs2: "signals_ok items blocks s2"
    and pend: "pending items s2 = tell_parent (find (\<lambda>a. tid (the (heap s a)) = parent th) (items (all_list s))) (pending items s)"
    by (simp_all add: left_family_def sig_defs pending_def)
  from threads_okD(1) [OF threads th] have own: "parent th \<noteq> tid th" "1 \<le> tid th" by (simp_all add: thread_ok_def)
  have s2: "cpu s2 = ?t" "all_list s2 = all_list s" "idle_thread s2 = idle_thread s" "next_tid s2 = next_tid s" "initial_thread s2 = initial_thread s"
    "intr_get_level P (hw s2) = INTR_OFF" "intr_context P (hw s2) = intr_context P (hw s)"
    "heap s2 = orphan (tid th) (set (items (all_list s))) (heap s)"
    using so by (simp_all add: signals_only_def sig_defs)
  have th2: "heap s2 ?t = Some th"
    using orphan_Some [of "heap s" ?t th "tid th" "set (items (all_list s))"] th own by (simp add: s2)
  have threads2: "threads_ok items used (Some ?t) {} s2"
  proof (rule signals_only_threads [OF so])
    show "threads_ok items used (Some ?t) {} (?s1\<lparr>heap := orphan (tid th) (set (items (all_list s))) (heap s)\<rparr>)"
      using orphan_threads_ok [OF off own(2), of "set (items (all_list s))"] by (simp add: sig_defs)
  qed
  note d2 = threads_okD [OF threads2]
  from d2(1) [OF th2] run have k: "?t \<notin> set (items (ready_list s2))" by (auto simp: thread_ok_def)
  have rm: "items (all_list ?s3) = remove1 ?t (items (all_list s))" using all s2 by simp
  have "threads_ok items used None {?t} ?s3"
  proof (rule threads_ok_upd [OF threads2 th2, where th' = "th\<lparr>status := THREAD_DYING\<rparr>"])
    show "thread_ok items None {?t} ?s3 ?t (th\<lparr>status := THREAD_DYING\<rparr>)"
      using d2(1) [OF th2] k not_idle all s2 threads_okD(3) [OF threads] by (auto simp: thread_ok_def is_thread_def)
    show "idle_thread s2 = Some ?t \<Longrightarrow> ?t \<in> set (items (all_list ?s3))" using not_idle s2 by simp
    show "set (items (all_list ?s3)) - {?t} = set (items (all_list s2)) - {?t}" "distinct (items (all_list ?s3))"
      unfolding rm using s2 threads_okD(3) [OF threads] by auto
  qed (use d2(2) s2 in simp_all)
  moreover have "signals_ok items blocks ?s3" using sigs2 by (rule signals_ok_frame) simp_all
  moreover have "length (items (sig_list s2)) \<le> Suc (length (items (sig_list s)))"
    using length_queued [of _ SIG_CHLD "-1" "pending items s"] pend
    by (simp add: tell_parent_def flip: length_pending split: option.splits)
  moreover have "settled items D ?s3" if "settled items D s" for D
  proof -
    from that have "settled items D ?s1" by (auto simp: settled_def pending_def sig_defs)
    from left_settled [OF left this] th2 show ?thesis by (auto simp: settled_def pending_def open_to_ublock_def)
  qed
  moreover have "pending items ?s3 = pending items s2" by (simp add: pending_def)
  ultimately show ?thesis using s2 rm th pend by (simp add: died_def Let_def)
qed

text \<open>From the end of the loop on `thread_exit` is `schedule` in the state `died`.\<close>

lemma exit_body_rest:
  assumes inv: "kernel_ok items used blocks s" and not_idle: "idle_thread s \<noteq> Some (cpu s)"
    and th: "heap s (cpu s) = Some th"
    and left: "left_family P items used blocks th (items (all_list s)) (intr_off P s) s2"
  obtains s3 where "died P items used blocks s s3" and "bind (thread_current s2) (\<lambda>t.
       let s = s2\<lparr>all_list := list_remove P (all_list s2) t\<rparr> in
       bind (update_current (\<lambda>th. th\<lparr>status := THREAD_DYING\<rparr>) s) (schedule P n exit)) = schedule P n exit s3"
proof -
  let ?t = "cpu s" and ?s3 = "s2\<lparr>all_list := list_remove P (all_list s2) (cpu s), heap := (heap s2)(cpu s \<mapsto> th\<lparr>status := THREAD_DYING\<rparr>)\<rparr>"
  from inv have threads: "threads_ok items used (Some ?t) {} s" by (simp add: kernel_ok_def)
  from kernel_ok_current [OF inv] th have run: "status th = THREAD_RUNNING" "is_thread th" by auto
  from left have "heap s2 = orphan (tid th) (set (items (all_list s))) (heap s)" "cpu s2 = ?t"
    by (simp_all add: left_family_def signals_only_def sig_defs)
  with orphan_Some [of "heap s" ?t th "tid th" "set (items (all_list s))"] th threads_okD(1) [OF threads th]
  have "heap s2 ?t = Some th" "cpu s2 = ?t" by (auto simp: thread_ok_def)
  with run show thesis
    by (intro that [OF left_died [OF inv not_idle th left]]) (simp add: update_current_def thread_current_def sig_defs Let_def)
qed

lemma exit_loop_ok:
  assumes inv: "kernel_ok items used blocks s" and th: "heap s (cpu s) = Some th"
    and fuel: "length (items (sig_list s)) + length (items (all_list s)) \<le> n"
    and mem: "(\<forall>h. fst (malloc P h) \<noteq> None) \<or> Null_deref \<in> F"
  shows "ok F (for_each n (\<lambda>_. False) (\<lambda>s. list_next P (all_list s)) (leave_family P n (cpu s))
        (list_begin P (all_list (intr_off P s))) (intr_off P s))
      (left_family P items used blocks th (items (all_list s)) (intr_off P s))"
proof -
  from inv have "threads_ok items used (Some (cpu s)) {} s" "signals_ok items blocks s" by (simp_all add: kernel_ok_def)
  then have "threads_ok items used (Some (cpu s)) {} (intr_off P s)" "signals_ok items blocks (intr_off P s)"
    by (auto elim!: threads_ok_frame signals_ok_frame simp: sig_defs)
  moreover have "cpu s \<in> set (items (all_list s))" using inv by (rule kernel_ok_current)
  ultimately show ?thesis using leave_family_ok [of _ _ "intr_off P s" "cpu s" th n F] th fuel mem by (simp add: sig_defs)
qed

lemma exit_body_rule:
  assumes inv: "kernel_ok items used blocks s" and ctx: "\<not> intr_context P (hw s)"
    and not_idle: "idle_thread s \<noteq> Some (cpu s)"
    and fuel: "length (items (sig_list s)) + length (items (all_list s)) \<le> n"
    and mem: "(\<forall>h. fst (malloc P h) \<noteq> None) \<or> Null_deref \<in> F"
    and sched: "\<And>s3. died P items used blocks s s3 \<Longrightarrow> ok F (schedule P n exit s3) Q"
  shows "ok F (exit_body P n exit s) Q"
proof -
  from kernel_ok_current [OF inv] obtain th where th: "heap s (cpu s) = Some th" and cur: "thread_current s = Inr (cpu s)" by blast
  have rest: "ok F (bind (thread_current s2) (\<lambda>t.
       let s = s2\<lparr>all_list := list_remove P (all_list s2) t\<rparr> in
       bind (update_current (\<lambda>th. th\<lparr>status := THREAD_DYING\<rparr>) s) (schedule P n exit))) Q"
    if "left_family P items used blocks th (items (all_list s)) (intr_off P s) s2" for s2
    using exit_body_rest [OF inv not_idle th that, of n exit] sched by metis
  from exit_loop_ok [OF inv th fuel mem] show ?thesis unfolding exit_body_def cur Let_def
    using ctx rest by (simp only: ok_ASSERT not_False_eq_True if_True bind_Inr ok_bind Let_def) (erule ok_mono, blast)
qed

text \<open>Exactly: while `malloc` succeeds, dying ends in that `schedule`.\<close>

lemma exit_body_died:
  assumes inv: "kernel_ok items used blocks s" and ctx: "\<not> intr_context P (hw s)"
    and not_idle: "idle_thread s \<noteq> Some (cpu s)"
    and fuel: "length (items (sig_list s)) + length (items (all_list s)) \<le> n"
    and mem: "\<forall>h. fst (malloc P h) \<noteq> None"
  obtains s3 where "died P items used blocks s s3" and "exit_body P n exit s = schedule P n exit s3"
proof -
  from kernel_ok_current [OF inv] obtain th where th: "heap s (cpu s) = Some th" and cur: "thread_current s = Inr (cpu s)" by blast
  from exit_loop_ok [OF inv th fuel, of "{}"] mem obtain s2 where
    loop: "for_each n (\<lambda>_. False) (\<lambda>s. list_next P (all_list s)) (leave_family P n (cpu s))
        (list_begin P (all_list (intr_off P s))) (intr_off P s) = Inr s2"
    and left: "left_family P items used blocks th (items (all_list s)) (intr_off P s) s2" by (auto simp only: ok_total)
  from exit_body_rest [OF inv not_idle th left, of n exit] obtain s3 where s3: "died P items used blocks s s3"
    "bind (thread_current s2) (\<lambda>t. let s = s2\<lparr>all_list := list_remove P (all_list s2) t\<rparr> in
       bind (update_current (\<lambda>th. th\<lparr>status := THREAD_DYING\<rparr>) s) (schedule P n exit)) = schedule P n exit s3" .
  show thesis
  proof (rule that [OF s3(1)])
    have "exit_body P n exit s = bind (thread_current s2) (\<lambda>t. let s = s2\<lparr>all_list := list_remove P (all_list s2) t\<rparr> in
       bind (update_current (\<lambda>th. th\<lparr>status := THREAD_DYING\<rparr>) s) (schedule P n exit))"
      using ctx unfolding exit_body_def cur bind_Inr Let_def loop by (simp add: ASSERT_def)
    with s3(2) show "exit_body P n exit s = schedule P n exit s3" by simp
  qed
qed

lemma died_length:
  assumes inv: "kernel_ok items used blocks s" and d: "died P items used blocks s s3"
  shows "length (items (sig_list s3)) \<le> Suc (length (items (sig_list s)))"
    and "length (items (sig_list s)) + length (items (all_list s)) \<le> n \<Longrightarrow> length (items (sig_list s3)) \<le> n"
proof -
  from kernel_ok_current [OF inv] have "cpu s \<in> set (items (all_list s))" .
  then have "0 < length (items (all_list s))" by (cases "items (all_list s)") auto
  moreover from d show "length (items (sig_list s3)) \<le> Suc (length (items (sig_list s)))"
    by (simp add: died_def Let_def)
  ultimately show "length (items (sig_list s)) + length (items (all_list s)) \<le> n \<Longrightarrow> length (items (sig_list s3)) \<le> n"
    by linarith
qed

lemma died_doom:
  assumes inv: "kernel_ok items used blocks s" and d: "died P items used blocks s s3" and doom: "doom items i {cpu s} s"
  shows "doom items i {} s3"
proof (rule doom_frame [OF doom])
  let ?th = "the (heap s (cpu s))" and ?all = "items (all_list s)"
  from inv have threads: "threads_ok items used (Some (cpu s)) {} s" by (simp add: kernel_ok_def)
  from d have s3: "next_tid s3 = next_tid s" "items (all_list s3) = remove1 (cpu s) ?all"
    "heap s3 = (orphan (tid ?th) (set ?all) (heap s))(cpu s \<mapsto> ?th\<lparr>status := THREAD_DYING\<rparr>)"
    "pending items s3 = tell_parent (find (\<lambda>a. tid (the (heap s a)) = parent ?th) ?all) (pending items s)"
    by (simp_all add: died_def Let_def)
  have all: "set (items (all_list s3)) = set ?all - {cpu s}" using threads_okD(3) [OF threads] by (simp add: s3)
  show "next_tid s \<le> next_tid s3" "set (items (all_list s3)) - {} \<subseteq> set ?all - {cpu s}" by (simp_all add: s3(1) all)
  show "tid (the (heap s3 t)) = tid (the (heap s t))" if "t \<in> set (items (all_list s3)) - {}" for t
    using that threads_okD(5) [OF threads, of t] by (simp add: all s3(3))
  show "key ` set (pending items s) \<subseteq> key ` set (pending items s3)"
    using queued_keeps by (auto simp: s3(4) tell_parent_def split: option.splits)
qed

lemma exit_body_ok:
  assumes inv: "kernel_ok items used blocks s" and ctx: "\<not> intr_context P (hw s)"
    and not_idle: "idle_thread s \<noteq> Some (cpu s)"
    and fuel: "length (items (sig_list s)) + length (items (all_list s)) \<le> n"
    and mem: "(\<forall>h. fst (malloc P h) \<noteq> None) \<or> Null_deref \<in> F"
    and dead: "Bad_deref \<in> F \<or> settled items {cpu s} s" and doom: "doom items i {cpu s} s"
    and exit: "\<And>s2. kernel_ok items used blocks s2 \<Longrightarrow> intr_get_level P (hw s2) = INTR_OFF \<Longrightarrow>
      \<not> intr_context P (hw s2) \<Longrightarrow> idle_thread s2 \<noteq> Some (cpu s2) \<Longrightarrow>
      items (all_list s2) = remove1 (cpu s) (items (all_list s)) \<Longrightarrow>
      length (items (sig_list s2)) \<le> Suc (length (items (sig_list s))) \<Longrightarrow>
      Bad_deref \<in> F \<or> settled items UNIV s2 \<Longrightarrow> doom items i {cpu s2} s2 \<Longrightarrow> ok F (exit s2) (switched P items used blocks i)"
  shows "ok F (exit_body P n exit s) (switched P items used blocks i)"
proof (rule exit_body_rule [OF inv ctx not_idle fuel mem])
  fix s3
  assume d: "died P items used blocks s s3"
  note len = died_length [OF inv d]
  show "ok F (schedule P n exit s3) (switched P items used blocks i)"
  proof (rule schedule_ok [where D = "{cpu s}"])
    show "Bad_deref \<in> F \<or> settled items {cpu s3} s3 \<or> {cpu s} = {} \<and> settled items {} s3"
      using dead d by (auto simp: died_def Let_def)
  qed (use d ctx len(1) len(2) [OF fuel] died_doom [OF inv d doom] in \<open>auto simp: died_def Let_def intro!: exit\<close>)
qed

lemma thread_exit_ok:
  assumes mem: "(\<forall>h. fst (malloc P h) \<noteq> None) \<or> Null_deref \<in> F"
  shows "kernel_ok items used blocks s \<Longrightarrow> \<not> intr_context P (hw s) \<Longrightarrow> idle_thread s \<noteq> Some (cpu s) \<Longrightarrow>
    enough_fuel items n k s \<Longrightarrow> Bad_deref \<in> F \<or> settled items {cpu s} s \<Longrightarrow> doom items i {cpu s} s \<Longrightarrow>
    ok F (thread_exit P n k s) (switched P items used blocks i)"
proof (induction k arbitrary: s)
  case 0
  from kernel_ok_current [OF "0.prems"(1)] have "cpu s \<in> set (items (all_list s))" .
  with "0.prems"(4) show ?case by (auto simp: enough_fuel_def)
next
  case (Suc k)
  from kernel_ok_current [OF Suc.prems(1)] have all: "cpu s \<in> set (items (all_list s))" .
  then have len: "length (items (all_list s)) > 0" by (cases "items (all_list s)") auto
  have "ok F (exit_body P n (thread_exit P n k) s) (switched P items used blocks i)"
  proof (rule exit_body_ok [OF Suc.prems(1-3) _ mem Suc.prems(5,6)])
    show "length (items (sig_list s)) + length (items (all_list s)) \<le> n"
      using Suc.prems(4) by (simp add: enough_fuel_def)
  next
    fix s2
    assume s2: "kernel_ok items used blocks s2" "\<not> intr_context P (hw s2)" "idle_thread s2 \<noteq> Some (cpu s2)"
      "items (all_list s2) = remove1 (cpu s) (items (all_list s))"
      "length (items (sig_list s2)) \<le> Suc (length (items (sig_list s)))" "Bad_deref \<in> F \<or> settled items UNIV s2"
      "doom items i {cpu s2} s2"
    show "ok F (thread_exit P n k s2) (switched P items used blocks i)"
    proof (rule Suc.IH [OF s2(1-3) _ _ s2(7)])
      have "length (items (all_list s2)) = length (items (all_list s)) - 1"
        using all by (simp add: s2(4) length_remove1)
      with Suc.prems(4) s2(5) len show "enough_fuel items n k s2" unfolding enough_fuel_def by linarith
      show "Bad_deref \<in> F \<or> settled items {cpu s2} s2" using s2(6) settled_mono by blast
    qed
  qed
  then show ?case by simp
qed

subsection \<open>Giving up the CPU\<close>

lemma switch_ok_sig:
  assumes threads: "threads_ok items used None {} s" and sigs: "signals_ok items blocks s"
    and off: "intr_get_level P (hw s) = INTR_OFF" and ctx: "\<not> intr_context P (hw s)"
    and fuel: "enough_fuel items n k s"
    and mem: "(\<forall>h. fst (malloc P h) \<noteq> None) \<or> Null_deref \<in> F"
    and dead: "Bad_deref \<in> F \<or> settled items {} s" and doom: "doom items i {} s"
  shows "ok F (schedule P n (thread_exit P n k) s) (switched P items used blocks i)"
proof (rule schedule_ok [OF threads sigs _ off ctx _ _ doom])
  show "length (items (sig_list s)) \<le> n" using fuel by (simp add: enough_fuel_def)
  show "Bad_deref \<in> F \<or> settled items {cpu s} s \<or> {} = {} \<and> settled items {} s" using dead by blast
next
  fix s2
  assume s2: "kernel_ok items used blocks s2" "\<not> intr_context P (hw s2)" "idle_thread s2 \<noteq> Some (cpu s2)"
    "all_list s2 = all_list s" "length (items (sig_list s2)) \<le> length (items (sig_list s))"
    "Bad_deref \<in> F \<or> settled items UNIV s2" "doom items i {cpu s2} s2"
  show "ok F (thread_exit P n k s2) (switched P items used blocks i)"
  proof (rule thread_exit_ok [OF mem s2(1-3) _ _ s2(7)])
    show "enough_fuel items n k s2" using fuel s2(4,5) by (simp add: enough_fuel_def)
    show "Bad_deref \<in> F \<or> settled items {cpu s2} s2" using s2(6) settled_mono by blast
  qed
qed simp

lemma resume_ok:
  assumes "switched P items used blocks i s"
  shows "ok F (resume P s) (\<lambda>s'. kernel_ok items used blocks s' \<and> quiet items s' \<and> doom items i {} s')"
proof -
  from assms obtain th where inv: "kernel_ok items used blocks s" and q: "quiet items s" and doom: "doom items i {} s"
    and th: "heap s (cpu s) = Some th" and fr: "resumable (frames th)" by (auto simp: switched_def)
  have frame: "kernel_ok items used blocks (set_thread (cpu s) (th\<lparr>frames := fs\<rparr>) s\<lparr>hw := h\<rparr>) \<and>
      quiet items (set_thread (cpu s) (th\<lparr>frames := fs\<rparr>) s\<lparr>hw := h\<rparr>) \<and>
      doom items i {} (set_thread (cpu s) (th\<lparr>frames := fs\<rparr>) s\<lparr>hw := h\<rparr>)"
    if "used h = used (hw s)" "blocks h = blocks (hw s)" for fs h
  proof (intro conjI)
    let ?s' = "set_thread (cpu s) (th\<lparr>frames := fs\<rparr>) s\<lparr>hw := h\<rparr>"
    show "doom items i {} ?s'"
      by (rule doom_frame [OF doom]) (use th in \<open>simp_all add: sig_defs pending_def\<close>)
    from inv have threads: "threads_ok items used (Some (cpu s)) {} s" and sigs: "signals_ok items blocks s"
      by (simp_all add: kernel_ok_def)
    note d = threads_okD [OF threads]
    from d(1) [OF th] have "thread_ok items (Some (cpu s)) {} ?s' (cpu s) (th\<lparr>frames := fs\<rparr>)"
      by (auto simp: thread_ok_def is_thread_def sig_defs)
    then have "threads_ok items used (Some (cpu s)) {} ?s'"
      by (intro threads_ok_upd [OF threads th]) (use d(2,3,6) that in \<open>simp_all add: sig_defs\<close>)
    moreover have "signals_ok items blocks ?s'" using sigs that by (auto elim!: signals_ok_frame simp: sig_defs)
    ultimately show "kernel_ok items used blocks ?s'" by (simp add: kernel_ok_def sig_defs)
    have "takes (heap ?s') (cpu s) x = takes (heap s) (cpu s) x" for x
      by (rule takes_same) (use th in \<open>simp_all add: sig_defs\<close>)
    with q th show "quiet items ?s'"
      by (auto simp: quiet_def pending_def sig_defs expired_def)
  qed
  from fr show ?thesis
  proof (cases "frames th" rule: resumable.cases)
    case (1 l fs)
    with th frame [of "intr_set_level P l (hw s)" fs] show ?thesis by (simp add: resume_def sig_defs)
  next
    case (2 fs)
    with th frame [of "hw s" fs] show ?thesis by (simp add: resume_def sig_defs)
  next
    case (3 b e f a fs)
    with th frame [of "intr_enable P (hw s)" fs] show ?thesis by (simp add: resume_def kernel_thread_def sig_defs)
  qed simp_all
qed

lemma sig_block_doom:
  assumes inv: "kernel_ok items used blocks s"
    and ctx: "\<not> intr_context P (hw s)" and off: "intr_get_level P (hw s) = INTR_OFF"
    and fuel: "enough_fuel items n k s"
    and mem: "(\<forall>h. fst (malloc P h) \<noteq> None) \<or> Null_deref \<in> F"
    and dead: "Bad_deref \<in> F \<or> settled items {} s" and doom: "doom items i {} s"
  shows "ok F (thread_block P n k s) (\<lambda>s'. kernel_ok items used blocks s' \<and> quiet items s' \<and> doom items i {} s')"
proof -
  from inv have threads: "threads_ok items used (Some (cpu s)) {} s" and sigs: "signals_ok items blocks s"
    by (simp_all add: kernel_ok_def)
  from kernel_ok_current [OF inv] obtain th where th: "heap s (cpu s) = Some th" and cur: "thread_current s = Inr (cpu s)" .
  note d = threads_okD [OF threads]
  let ?th = "th\<lparr>status := THREAD_BLOCKED, frames := in_thread_block # frames th\<rparr>"
  let ?s = "s\<lparr>heap := (heap s)(cpu s \<mapsto> ?th)\<rparr>"
  from d(1) [OF th] have "thread_ok items None {} ?s (cpu s) ?th" by (auto simp: thread_ok_def is_thread_def)
  then have "threads_ok items used None {} ?s"
    by (intro threads_ok_upd [OF threads th]) (use d(2,3,6) in simp_all)
  moreover have "signals_ok items blocks ?s" using sigs by (auto elim!: signals_ok_frame)
  moreover have "Bad_deref \<in> F \<or> settled items {} ?s"
    using dead settled_upd [OF th, of ?s ?th items "{}"] by (auto simp: pending_def)
  moreover have "doom items i {} ?s"
    by (rule doom_frame [OF doom]) (use th in \<open>simp_all add: pending_def\<close>)
  ultimately have "ok F (schedule P n (thread_exit P n k) ?s) (switched P items used blocks i)"
    using off ctx fuel mem by (intro switch_ok_sig) (simp_all add: enough_fuel_def)
  with cur th ctx off show ?thesis
    by (auto simp: thread_block_def update_current_def sig_defs elim!: ok_mono intro: resume_ok)
qed

lemma sig_yield_doom:
  assumes inv: "kernel_ok items used blocks s" and ctx: "\<not> intr_context P (hw s)"
    and fuel: "enough_fuel items n k s"
    and mem: "(\<forall>h. fst (malloc P h) \<noteq> None) \<or> Null_deref \<in> F"
    and dead: "Bad_deref \<in> F \<or> settled items {} s" and doom: "doom items i {} s"
  shows "ok F (thread_yield P n k s) (\<lambda>s'. kernel_ok items used blocks s' \<and> quiet items s' \<and> doom items i {} s')"
proof -
  from inv have threads: "threads_ok items used (Some (cpu s)) {} s" and sigs: "signals_ok items blocks s"
    by (simp_all add: kernel_ok_def)
  from kernel_ok_current [OF inv] obtain th where th: "heap s (cpu s) = Some th" and cur: "thread_current s = Inr (cpu s)"
    and nq: "cpu s \<notin> set (items (ready_list s))" .
  note d = threads_okD [OF threads]
  let ?th = "th\<lparr>status := THREAD_READY, frames := in_thread_yield (intr_get_level P (hw s)) # frames th\<rparr>"
  let ?l = "if Some (cpu s) \<noteq> idle_thread s then list_push_back P (ready_list s) (cpu s) else ready_list s"
  let ?s = "s\<lparr>hw := snd (intr_disable P (hw s)), ready_list := ?l, heap := (heap s)(cpu s \<mapsto> ?th)\<rparr>"
  from d(1) [OF th] nq have "thread_ok items None {} ?s (cpu s) ?th" by (auto simp: thread_ok_def is_thread_def)
  then have "threads_ok items used None {} ?s"
    by (intro threads_ok_upd [OF threads th]) (use d(2,3,6) nq in auto)
  moreover have "signals_ok items blocks ?s" using sigs by (auto elim!: signals_ok_frame)
  moreover have "Bad_deref \<in> F \<or> settled items {} ?s"
    using dead settled_upd [OF th, of ?s ?th items "{}"] by (auto simp: pending_def)
  moreover have "doom items i {} ?s"
    by (rule doom_frame [OF doom]) (use th in \<open>simp_all add: pending_def\<close>)
  ultimately have "ok F (schedule P n (thread_exit P n k) ?s) (switched P items used blocks i)"
    using ctx fuel mem by (intro switch_ok_sig) (simp_all add: enough_fuel_def)
  with cur th ctx show ?thesis
    by (auto simp: thread_yield_def sig_defs Let_def elim!: ok_mono intro: resume_ok)
qed

lemma sig_exit_doom:
  assumes inv: "kernel_ok items used blocks s" and ctx: "\<not> intr_context P (hw s)"
    and not_idle: "idle_thread s \<noteq> Some (cpu s)" and fuel: "enough_fuel items n k s"
    and mem: "(\<forall>h. fst (malloc P h) \<noteq> None) \<or> Null_deref \<in> F"
    and dead: "Bad_deref \<in> F \<or> settled items {cpu s} s" and doom: "doom items i {} s"
  shows "ok F (exit_current P n k s) (\<lambda>s'. kernel_ok items used blocks s' \<and> quiet items s' \<and> doom items i {} s')"
  using thread_exit_ok [OF mem inv ctx not_idle fuel dead doom_mono [OF doom]]
  by (auto simp: exit_current_def elim!: ok_mono intro: resume_ok)

text \<open>Without looking at any id.\<close>

lemma sig_block_ok:
  assumes inv: "kernel_ok items used blocks s"
    and ctx: "\<not> intr_context P (hw s)" and off: "intr_get_level P (hw s) = INTR_OFF"
    and fuel: "enough_fuel items n k s"
    and mem: "(\<forall>h. fst (malloc P h) \<noteq> None) \<or> Null_deref \<in> F"
    and dead: "Bad_deref \<in> F \<or> settled items {} s"
  shows "ok F (thread_block P n k s) (\<lambda>s'. kernel_ok items used blocks s' \<and> quiet items s')"
  using sig_block_doom [OF inv ctx off fuel mem dead doom_zero [OF inv]] by (auto elim: ok_mono)

lemma sig_yield_ok:
  assumes inv: "kernel_ok items used blocks s"
    and ctx: "\<not> intr_context P (hw s)"
    and fuel: "enough_fuel items n k s"
    and mem: "(\<forall>h. fst (malloc P h) \<noteq> None) \<or> Null_deref \<in> F"
    and dead: "Bad_deref \<in> F \<or> settled items {} s"
  shows "ok F (thread_yield P n k s) (\<lambda>s'. kernel_ok items used blocks s' \<and> quiet items s')"
  using sig_yield_doom [OF inv ctx fuel mem dead doom_zero [OF inv]] by (auto elim: ok_mono)

lemma sig_exit_ok:
  assumes inv: "kernel_ok items used blocks s"
    and ctx: "\<not> intr_context P (hw s)"
    and not_idle: "idle_thread s \<noteq> Some (cpu s)"
    and fuel: "enough_fuel items n k s"
    and mem: "(\<forall>h. fst (malloc P h) \<noteq> None) \<or> Null_deref \<in> F"
    and dead: "Bad_deref \<in> F \<or> settled items {cpu s} s"
  shows "ok F (exit_current P n k s) (\<lambda>s'. kernel_ok items used blocks s' \<and> quiet items s')"
  using sig_exit_doom [OF inv ctx not_idle fuel mem dead doom_zero [OF inv]] by (auto elim: ok_mono)

end

end
