(* ===== verification/Sig_Boot.thy ===== *)
theory Sig_Boot
  imports Sig_Safe
begin

text \<open>
  Creating and waking threads, the boot of the system, and its steps: every run from boot keeps
  the invariant.
\<close>

definition new_child ::
  "('l, 'h) pintos \<Rightarrow> addr \<Rightarrow> tid_t \<Rightarrow> string \<Rightarrow> int \<Rightarrow> addr \<Rightarrow> addr \<Rightarrow> tid_t \<Rightarrow> 64 word \<Rightarrow> thread"
where
  "new_child P t new_tid nm prio f aux up now =
     \<lparr>tid = new_tid, status = THREAD_BLOCKED, name = take 15 nm,
      stack = t + PGSIZE P - sizeof_kernel_thread_frame - sizeof_switch_entry_frame P - sizeof_switch_threads_frame P,
      priority = prio, parent = up, sigign = -1, sigmask = 0, starttime = now, maxlifetime = 0,
      child = 0, dchild = 0, magic = THREAD_MAGIC,
      frames = [switch_threads_frame switch_entry_code 0, switch_entry_frame kernel_thread_code,
                kernel_thread_frame None (Some f) aux]\<rparr>"

context pintos_kernel
begin

subsection \<open>Waking and creating\<close>

lemma sig_unblock_ok:
  assumes inv: "kernel_ok items used blocks s" and th: "heap s t = Some th" and blocked: "status th = THREAD_BLOCKED"
  obtains s' where "thread_unblock P t s = Inr s'" and "kernel_ok items used blocks s'"
    and "items (ready_list s') = items (ready_list s) @ [t]" and "pending items s' = pending items s"
    and "heap s' = (heap s)(t \<mapsto> th\<lparr>status := THREAD_READY\<rparr>)" and "cpu s' = cpu s"
    and "intr_get_level P (hw s') = intr_get_level P (hw s)"
proof -
  from inv have threads: "threads_ok items used (Some (cpu s)) {} s" and sigs: "signals_ok items blocks s"
    by (simp_all add: kernel_ok_def)
  note d = threads_okD [OF threads]
  from d(1) [OF th] blocked have k: "is_thread th" "t \<notin> set (items (ready_list s))" "t \<noteq> cpu s"
    by (auto simp: thread_ok_def)
  let ?s = "s\<lparr>ready_list := list_push_back P (ready_list s) t,
    heap := (heap s)(t \<mapsto> th\<lparr>status := THREAD_READY\<rparr>),
    hw := intr_set_level P (intr_get_level P (hw s)) (snd (intr_disable P (hw s)))\<rparr>"
  from d(1) [OF th] k blocked have "thread_ok items (Some (cpu s)) {} ?s t (th\<lparr>status := THREAD_READY\<rparr>)"
    by (auto simp: thread_ok_def is_thread_def)
  then have "threads_ok items used (Some (cpu s)) {} ?s"
    by (intro threads_ok_upd [OF threads th]) (use d(2,3,6) k in auto)
  moreover have "signals_ok items blocks ?s" using sigs by (auto elim!: signals_ok_frame)
  ultimately have "kernel_ok items used blocks ?s" by (simp add: kernel_ok_def)
  with thread_unblock_Inr [OF th k(1) blocked] k that show thesis by (simp add: pending_def)
qed

lemma sig_create_eq:
  assumes "PRI_MIN \<le> prio" and "prio \<le> PRI_MAX" and "next_tid s + 1 < 2 ^ 31"
    and page: "palloc_get_page P (hw s) = (Some t, h)"
    and cur: "heap s (cpu s) = Some pth" "is_thread pth" "status pth = THREAD_RUNNING" "t \<noteq> cpu s"
  shows "thread_create P (Some nm) prio (Some f) aux s =
    bind (thread_unblock P t
      (s\<lparr>all_list := list_push_back P (all_list s) t, next_tid := next_tid s + 1,
         heap := (heap s)(cpu s \<mapsto> pth\<lparr>child := child pth + 1\<rparr>,
           t \<mapsto> new_child P t (next_tid s) nm prio f aux (tid pth) (clock_count s)),
         hw := intr_set_level P (intr_get_level P h) (snd (intr_disable P h))\<rparr>))
    (\<lambda>s'. Inr (next_tid s, s'))"
  using assms
  by (simp add: thread_create_def init_thread_def allocate_tid_def sinc_def alloc_frame_def sig_defs
      is_thread_def new_child_def sizeof_kernel_thread_frame_def Let_def thread_current_def update_current_def
      fun_upd_twist)

lemma create_prepared_ok:
  assumes threads: "threads_ok items used (Some (cpu s)) {} s"
    and p: "p \<notin> used (hw s)" and h: "used h = insert p (used (hw s))"
    and x: "is_thread x" "tid x = next_tid s" "status x = THREAD_BLOCKED" "resumable (frames x)" "parent x \<noteq> tid x"
  shows "threads_ok items used (Some (cpu s)) {}
    (s\<lparr>all_list := list_push_back P (all_list s) p, next_tid := next_tid s + 1,
       heap := (heap s)(p \<mapsto> x), hw := h\<rparr>)" (is "threads_ok items used _ _ ?s")
proof -
  note d = threads_okD [OF threads]
  from threads obtain cth where "heap s (cpu s) = Some cth" unfolding threads_ok_def by blast
  from d(1) [OF this] have tids: "1 \<le> next_tid s" by (simp add: thread_ok_def)
  have new: "p \<notin> dom (heap s)" using threads p by (auto simp: threads_ok_def)
  with threads have out: "p \<notin> set (items (all_list s))" "p \<notin> set (items (ready_list s))" "cpu s \<noteq> p" "p \<noteq> cpu s"
    by (auto simp: threads_ok_def)
  from d(6) [of p] out have "idle_thread s \<noteq> Some p" by auto
  have all: "items (list_push_back P (all_list s) p) = items (all_list s) @ [p]" using out by simp
  have ok: "thread_ok items (Some (cpu s)) {} ?s t y" if "heap ?s t = Some y" for t y
  proof (cases "t = p")
    case True
    with that x out tids \<open>idle_thread s \<noteq> Some p\<close> show ?thesis by (simp add: thread_ok_def all)
  next
    case False
    with that have "heap s t = Some y" by simp
    from d(1) [OF this] False show ?thesis by (simp add: thread_ok_def all)
  qed
  have "inj_on (\<lambda>t. tid (the (heap ?s t))) (dom (heap ?s))"
  proof -
    have less: "tid (the (heap s t)) < next_tid s" if "t \<in> dom (heap s)" for t
      using d(1) that by (fastforce simp: thread_ok_def)
    have "inj_on (\<lambda>t. tid (the (heap ?s t))) (dom (heap s))"
      using d(7) new by (subst inj_on_cong [where g = "\<lambda>t. tid (the (heap s t))"]) auto
    moreover have "tid (the (heap ?s p)) \<notin> (\<lambda>t. tid (the (heap ?s t))) ` (dom (heap s))"
    proof
      assume "tid (the (heap ?s p)) \<in> (\<lambda>t. tid (the (heap ?s t))) ` (dom (heap s))"
      then obtain t where t: "t \<in> dom (heap s)" "tid (the (heap ?s p)) = tid (the (heap ?s t))" by blast
      with new have "t \<noteq> p" by blast
      with t less [of t] x(2) show False by simp
    qed
    moreover have "dom (heap ?s) = insert p (dom (heap s))" by simp
    ultimately show ?thesis using new by (simp add: Diff_insert_absorb)
  qed
  moreover have "set (items (ready_list ?s)) \<union> set (items (all_list ?s)) \<subseteq> dom (heap ?s)"
    using d(4,5) by (auto simp: all)
  moreover have "dom (heap ?s) \<subseteq> used (hw ?s)" "cpu ?s \<in> dom (heap ?s)"
    "\<exists>i \<in> set (items (all_list ?s)). idle_thread ?s = Some i"
    using threads by (auto simp: threads_ok_def all h)
  ultimately show ?thesis
    using ok d(2,3) out unfolding threads_ok_def by (simp add: all)
qed

lemma sig_create_ok:
  assumes inv: "kernel_ok items used blocks s" and tids: "next_tid s + 1 < 2 ^ 31"
    and prio: "PRI_MIN \<le> prio" "prio \<le> PRI_MAX"
  obtains r s' where "thread_create P (Some nm) prio (Some f) aux s = Inr (r, s')"
    and "kernel_ok items used blocks s'" and "cpu s' = cpu s" and "pending items s' = pending items s"
    and "r = (if fst (palloc_get_page P (hw s)) = None then TID_ERROR else next_tid s)"
    and "case fst (palloc_get_page P (hw s)) of
           None \<Rightarrow> heap s' = heap s \<and> ready_list s' = ready_list s \<and> all_list s' = all_list s
         | Some p \<Rightarrow> items (ready_list s') = items (ready_list s) @ [p] \<and> items (all_list s') = items (all_list s) @ [p] \<and>
             heap s' = (heap s)(cpu s \<mapsto> (the (heap s (cpu s)))\<lparr>child := child (the (heap s (cpu s))) + 1\<rparr>,
               p \<mapsto> (new_child P p (next_tid s) nm prio f aux (tid (the (heap s (cpu s)))) (clock_count s))
                 \<lparr>status := THREAD_READY\<rparr>)"
    and "next_tid s \<le> next_tid s'"
proof (cases "palloc_get_page P (hw s)")
  case page: (Pair po h)
  show thesis
  proof (cases po)
    case None
    with page have "thread_create P (Some nm) prio (Some f) aux s = Inr (TID_ERROR, s\<lparr>hw := h\<rparr>)"
      by (simp add: thread_create_def)
    moreover have "kernel_ok items used blocks (s\<lparr>hw := h\<rparr>)"
      using get_page_None [of "hw s" h] get_page_blocks [of "hw s"] page None
      by (intro kernel_ok_frame [OF inv]) simp_all
    ultimately show thesis using page None by (intro that [of TID_ERROR "s\<lparr>hw := h\<rparr>"]) (auto simp: pending_def)
  next
    case (Some p)
    from kernel_ok_current [OF inv] obtain pth where pth: "heap s (cpu s) = Some pth" "is_thread pth"
      "status pth = THREAD_RUNNING" by metis
    from inv have threads: "threads_ok items used (Some (cpu s)) {} s" by (simp add: kernel_ok_def)
    let ?x = "new_child P p (next_tid s) nm prio f aux (tid pth) (clock_count s)"
    let ?h = "intr_set_level P (intr_get_level P h) (snd (intr_disable P h))"
    let ?s1 = "set_thread (cpu s) (pth\<lparr>child := child pth + 1\<rparr>) s"
    let ?s = "s\<lparr>all_list := list_push_back P (all_list s) p, next_tid := next_tid s + 1,
      heap := (heap s)(cpu s \<mapsto> pth\<lparr>child := child pth + 1\<rparr>, p \<mapsto> ?x), hw := ?h\<rparr>"
    from get_page_Some [of "hw s" p h] page Some have p: "p \<notin> used (hw s)" "used ?h = insert p (used (hw s))"
      by simp_all
    from p(1) threads have "p \<notin> dom (heap s)" "p \<noteq> cpu s" by (auto simp: threads_ok_def)
    then have out: "p \<notin> set (items (all_list s))" "p \<notin> set (items (ready_list s))"
      using threads_okD(4,5) [OF threads] by blast+
    have k: "tid pth < next_tid s" using threads_okD(1) [OF threads pth(1)] by (simp add: thread_ok_def)
    have inv1: "kernel_ok items used blocks ?s1" by (rule kernel_ok_thread [OF inv pth(1)]) simp_all
    have "threads_ok items used (Some (cpu s)) {} ?s"
      using create_prepared_ok [of ?s1 p ?h ?x] inv1 p k
      by (simp add: kernel_ok_def sig_defs new_child_def is_thread_def)
    moreover have "signals_ok items blocks ?s"
      using inv get_page_blocks [of "hw s"] page unfolding kernel_ok_def by (auto elim!: signals_ok_frame)
    ultimately have inv2: "kernel_ok items used blocks ?s" by (simp add: kernel_ok_def)
    have x: "heap ?s p = Some ?x" "status ?x = THREAD_BLOCKED" by (simp_all add: new_child_def)
    from sig_unblock_ok [OF inv2 x] obtain s' where s': "thread_unblock P p ?s = Inr s'"
      "kernel_ok items used blocks s'" "items (ready_list s') = items (ready_list ?s) @ [p]" "pending items s' = pending items ?s"
      "heap s' = (heap ?s)(p \<mapsto> ?x\<lparr>status := THREAD_READY\<rparr>)" "cpu s' = cpu ?s" .
    have "all_list s' = all_list ?s" "next_tid s' = next_tid ?s"
      using s'(1) thread_unblock_Inr [OF x(1) _ x(2)] by (auto simp: new_child_def is_thread_def)
    then show thesis
      using sig_create_eq [OF prio tids _ pth \<open>p \<noteq> cpu s\<close>, of h nm f aux] page Some s' pth out
      by (intro that [of "next_tid s" s']) (simp_all add: pending_def)
  qed
qed

lemma sig_update_ok:
  assumes inv: "kernel_ok items used blocks s" and run: "update_current g s = Inr s'"
    and g: "\<And>th. tid (g th) = tid th \<and> status (g th) = status th \<and> parent (g th) = parent th \<and>
      magic (g th) = magic th \<and> frames (g th) = frames th"
    and life: "idle_thread s = Some (cpu s) \<Longrightarrow> \<forall>th. maxlifetime (g th) = maxlifetime th"
  shows "kernel_ok items used blocks s'"
proof -
  from kernel_ok_current [OF inv] obtain th where th: "heap s (cpu s) = Some th" and cur: "thread_current s = Inr (cpu s)" .
  with run have "s' = set_thread (cpu s) (g th) s" by (simp add: update_current_def)
  with kernel_ok_thread [OF inv th, of "g th"] g life show ?thesis by simp
qed

end

subsection \<open>Boot\<close>

definition sig_boot ::
  "('l, 'h) pintos \<Rightarrow> nat \<Rightarrow> nat \<Rightarrow> addr \<Rightarrow> addr \<Rightarrow> ('l, 'h) kernel \<Rightarrow> ('l, 'h) kernel res"
where
  "sig_boot P n k idle_code idle_started s =
     bind (thread_init P s) (\<lambda>s1.
     bind (thread_start P idle_code idle_started (\<lambda>s. thread_block P n k (intr_off P s)) s1)
     (idle_begin (thread_unblock P (cpu s))))"

definition sig_loaded :: "('l, 'h) pintos \<Rightarrow> ('h \<Rightarrow> addr set) \<Rightarrow> ('l, 'h) kernel \<Rightarrow> bool" where
  "sig_loaded P used s \<longleftrightarrow> intr_get_level P (hw s) = INTR_OFF \<and> \<not> intr_context P (hw s) \<and>
     heap s = Map.empty \<and> sigs s = Map.empty \<and> next_tid s = 1 \<and> idle_thread s = None \<and> cpu s \<in> used (hw s) \<and>
     fst (palloc_get_page P (hw s)) \<noteq> None"

definition main_thread :: "('l, 'h) pintos \<Rightarrow> addr \<Rightarrow> 64 word \<Rightarrow> thread" where
  "main_thread P t now = \<lparr>tid = 1, status = THREAD_RUNNING, name = ''main'', stack = t + PGSIZE P,
     priority = PRI_DEFAULT, parent = -1, sigign = -1, sigmask = 0, starttime = now, maxlifetime = 0,
     child = -1, dchild = 0, magic = THREAD_MAGIC, frames = []\<rparr>"

context pintos_kernel
begin

lemma sig_init_eq:
  assumes "intr_get_level P (hw s) = INTR_OFF" and "next_tid s = 1"
  shows "thread_init P s = Inr (s\<lparr>ready_list := list_init P, initial_thread := Some (cpu s),
    all_list := list_push_back P (list_init P) (cpu s), next_tid := 2,
    heap := (heap s)(cpu s \<mapsto> main_thread P (cpu s) (clock_count s)), sig_list := list_init P\<rparr>)"
  using assms
  by (simp add: thread_init_def init_thread_def allocate_tid_def sinc_def sig_defs Let_def main_thread_def
      PRI_MIN_def PRI_MAX_def PRI_DEFAULT_def)

lemma handle_nothing:
  assumes "items (sig_list s) = []" and "heap s (cpu s) = Some th" and "is_thread th" and "status th = THREAD_RUNNING"
  shows "handleSignals P n exit False s = Inr s"
  using assms
  by (simp add: handleSignals_def take_signals_def run_handlers_def thread_current_def sig_defs Let_def)

lemma sig_first_switch:
  assumes ready: "items (ready_list s) = [p]" and none: "items (sig_list s) = []"
    and off: "intr_get_level P (hw s) = INTR_OFF" and ctx: "\<not> intr_context P (hw s)"
    and main: "heap s (cpu s) = Some m" "is_thread m" "status m = THREAD_RUNNING"
    and new: "heap s p = Some x" "is_thread x" "p \<noteq> cpu s" "maxlifetime x = 0"
      "frames x = switch_threads_frame switch_entry_code 0 # switch_entry_frame kernel_thread_code
        # kernel_thread_frame None (Some f) aux # fs"
  obtains l where "items l = []" and "thread_block P n k s = Inr (s\<lparr>ready_list := l, cpu := p,
      heap := (heap s)(cpu s \<mapsto> m\<lparr>status := THREAD_BLOCKED, frames := in_thread_block # frames m\<rparr>,
        p \<mapsto> x\<lparr>status := THREAD_RUNNING, frames := fs\<rparr>),
      thread_ticks := 0, hw := intr_enable P (hw s)\<rparr>)"
proof -
  from pop_Cons [OF ready] obtain l where l: "list_pop_front P (ready_list s) = (p, l)" "items l = []" .
  let ?m = "m\<lparr>status := THREAD_BLOCKED, frames := in_thread_block # frames m\<rparr>"
  let ?s1 = "s\<lparr>heap := (heap s)(cpu s \<mapsto> ?m)\<rparr>"
  let ?s2 = "dispatched P p x (?s1\<lparr>ready_list := l\<rparr>)"
  have cur: "thread_current s = Inr (cpu s)" using main by (simp add: thread_current_def running_thread_def)
  have "schedule P n (thread_exit P n k) ?s1 =
      handleSignals P n (thread_exit P n k) (expired x (clock_count ?s1)) ?s2"
    by (rule schedule_dispatched [of _ _ "?s1\<lparr>ready_list := l\<rparr>" ?m])
      (use l ready off main new in \<open>simp_all add: next_thread_to_run_def\<close>)
  also have "\<dots> = Inr ?s2"
    unfolding expired_def using new none
    by (simp add: handle_nothing [of _ "x\<lparr>status := THREAD_RUNNING\<rparr>"] dispatched_def Let_def is_thread_def)
  finally have "thread_block P n k s = resume P ?s2"
    using cur main off ctx by (simp add: thread_block_def update_current_def sig_defs)
  with l(2) new that show thesis
    by (simp add: resume_def kernel_thread_def dispatched_def sig_defs Let_def fun_upd_twist)
qed

lemma two_threads_ok:
  assumes heap: "heap z = [c \<mapsto> m, p \<mapsto> x]" and ne: "c \<noteq> p"
    and lists: "items (ready_list z) = [c]" "items (sig_list z) = []" "items (all_list z) = [c, p]"
    and z: "cpu z = p" "idle_thread z = Some p" "next_tid z = 3" "{c, p} \<subseteq> used (hw z)" "sigs z = Map.empty"
    and m: "is_thread m" "tid m = 1" "status m = THREAD_READY" "resumable (frames m)" "parent m = -1"
    and x: "is_thread x" "tid x = 2" "status x = THREAD_RUNNING" "parent x = -1" "maxlifetime x = 0"
  shows "kernel_ok items used blocks z"
proof -
  have "thread_ok items (Some p) {} z t th" if "heap z t = Some th" for t th
    using that ne m x z lists by (cases "t = p"; cases "t = c") (auto simp: thread_ok_def heap)
  moreover have "dom (heap z) = {c, p}" by (auto simp: heap)
  moreover have "inj_on (\<lambda>t. tid (the (heap z t))) {c, p}" using ne m x by (auto simp: heap inj_on_def)
  ultimately have "threads_ok items used (Some p) {} z"
    using ne lists z unfolding threads_ok_def by simp
  then show ?thesis using lists z by (simp add: kernel_ok_def signals_ok_def pending_def)
qed

lemma sig_boot_ok:
  assumes "sig_loaded P used s"
  obtains p s' m where "sig_boot P n k code aux s = Inr s'" and "kernel_ok items used blocks s'"
    and "fst (palloc_get_page P (hw s)) = Some p" and "cpu s' = p" and "idle_thread s' = Some p"
    and "items (ready_list s') = [cpu s]" and "items (sig_list s') = []"
    and "items (all_list s') = [cpu s, p]" and "intr_get_level P (hw s') = INTR_ON"
    and "heap s' (cpu s) = Some m" and "child m = 0" and "parent m = -1"
proof -
  from assms have off: "intr_get_level P (hw s) = INTR_OFF" and ctx: "\<not> intr_context P (hw s)"
    and empty: "heap s = Map.empty" "sigs s = Map.empty" and tid: "next_tid s = 1" and idle: "idle_thread s = None"
    and cpu: "cpu s \<in> used (hw s)" by (auto simp: sig_loaded_def)
  from assms obtain p h where page: "palloc_get_page P (hw s) = (Some p, h)"
    by (cases "palloc_get_page P (hw s)") (auto simp: sig_loaded_def)
  from get_page_Some [OF page] cpu have p: "p \<noteq> cpu s" "cpu s \<noteq> p" "used h = insert p (used (hw s))" by auto
  have hh: "intr_get_level P h = INTR_OFF" "\<not> intr_context P h"
    using get_page_level [of "hw s"] get_page_context [of "hw s"] off ctx page by simp_all
  define main where "main = main_thread P (cpu s) (clock_count s)"
  define s1 where "s1 = s\<lparr>ready_list := list_init P, initial_thread := Some (cpu s),
    all_list := list_push_back P (list_init P) (cpu s), next_tid := 2,
    heap := (heap s)(cpu s \<mapsto> main), sig_list := list_init P\<rparr>"
  have init: "thread_init P s = Inr s1" unfolding s1_def main_def by (rule sig_init_eq [OF off tid])
  have main: "is_thread main" "status main = THREAD_RUNNING" "tid main = 1" "child main = -1" "parent main = -1"
    by (simp_all add: main_def main_thread_def is_thread_def)
  define main' where "main' = main\<lparr>child := child main + 1\<rparr>"
  define x where "x = new_child P p 2 ''idle'' PRI_MIN code aux 1 (clock_count s)"
  define s2 where "s2 = s1\<lparr>all_list := list_push_back P (all_list s1) p, next_tid := 3,
         heap := (heap s1)(cpu s1 \<mapsto> main', p \<mapsto> x),
         hw := intr_set_level P (intr_get_level P h) (snd (intr_disable P h))\<rparr>"
  have x: "status x = THREAD_BLOCKED" "is_thread x" "tid x = 2" "maxlifetime x = 0"
    by (simp_all add: x_def new_child_def is_thread_def)
  have create: "thread_create P (Some ''idle'') PRI_MIN (Some code) aux s1 =
      bind (thread_unblock P p s2) (\<lambda>s'. Inr (2, s'))"
    using sig_create_eq [of PRI_MIN s1 p h main "''idle''" code aux] page p main
    by (simp add: s1_def s2_def x_def main'_def PRI_MIN_def PRI_MAX_def)
  define s3 where "s3 = s2\<lparr>ready_list := list_push_back P (ready_list s2) p,
    heap := (heap s2)(p \<mapsto> x\<lparr>status := THREAD_READY\<rparr>),
    hw := intr_set_level P (intr_get_level P (hw s2)) (snd (intr_disable P (hw s2)))\<rparr>"
  have unblock: "thread_unblock P p s2 = Inr s3"
    unfolding s3_def by (rule thread_unblock_Inr) (simp_all add: s2_def x)
  define s4 where "s4 = intr_off P (s3\<lparr>hw := intr_enable P (hw s3)\<rparr>)"
  have s4: "items (ready_list s4) = [p]" "items (sig_list s4) = []" "intr_get_level P (hw s4) = INTR_OFF"
    "\<not> intr_context P (hw s4)" "cpu s4 = cpu s" "heap s4 (cpu s) = Some main'"
    "heap s4 p = Some (x\<lparr>status := THREAD_READY\<rparr>)" "items (all_list s4) = [cpu s, p]"
    "heap s4 = [cpu s \<mapsto> main', p \<mapsto> x\<lparr>status := THREAD_READY\<rparr>]" "used (hw s4) = insert p (used (hw s))"
    "next_tid s4 = 3" "sigs s4 = Map.empty"
    using hh p empty by (simp_all add: s4_def s3_def s2_def s1_def sig_defs fun_eq_iff)
  from sig_first_switch [OF s4(1-4), of main' "x\<lparr>status := THREAD_READY\<rparr>" code aux "[]" n k] s4 p x main
  obtain l where l: "items l = []" and block: "thread_block P n k s4 = Inr (s4\<lparr>ready_list := l, cpu := p,
      heap := (heap s4)(cpu s \<mapsto> main'\<lparr>status := THREAD_BLOCKED, frames := [in_thread_block]\<rparr>,
        p \<mapsto> x\<lparr>status := THREAD_RUNNING, frames := []\<rparr>),
      thread_ticks := 0, hw := intr_enable P (hw s4)\<rparr>)" (is "_ = Inr ?s5")
    by (auto simp: main'_def is_thread_def x_def new_child_def main_def main_thread_def)
  let ?x = "x\<lparr>status := THREAD_RUNNING, frames := [], parent := -1\<rparr>"
  let ?s6 = "?s5\<lparr>idle_thread := Some p, heap := (heap ?s5)(p \<mapsto> ?x)\<rparr>"
  let ?m = "main'\<lparr>status := THREAD_BLOCKED, frames := [in_thread_block]\<rparr>"
  have wake: "thread_unblock P (cpu s) ?s6 = Inr (?s6\<lparr>ready_list := list_push_back P l (cpu s),
    heap := (heap ?s6)(cpu s \<mapsto> ?m\<lparr>status := THREAD_READY\<rparr>),
    hw := intr_set_level P (intr_get_level P (hw ?s6)) (snd (intr_disable P (hw ?s6)))\<rparr>)" (is "_ = Inr ?s7")
    using thread_unblock_Inr [of ?s6 "cpu s" ?m] p main by (simp add: main'_def is_thread_def)
  have "thread_current ?s5 = Inr p"
    using x by (simp add: thread_current_def running_thread_def is_thread_def)
  then have run: "sig_boot P n k code aux s = Inr ?s7"
    using init create unblock block wake
    by (simp add: sig_boot_def thread_start_def idle_begin_def s4_def set_thread_def Let_def)
  have lists: "items (ready_list ?s7) = [cpu s]" "items (sig_list ?s7) = []" "items (all_list ?s7) = [cpu s, p]"
    and hw: "used (hw ?s7) = insert p (used (hw s))"
    and rest: "cpu ?s7 = p" "idle_thread ?s7 = Some p" "next_tid ?s7 = 3" "intr_get_level P (hw ?s7) = INTR_ON"
      "sigs ?s7 = Map.empty"
    using l s4 by simp_all
  have heap: "heap ?s7 = [cpu s \<mapsto> ?m\<lparr>status := THREAD_READY\<rparr>, p \<mapsto> ?x]"
    using s4(9) p by (auto simp: fun_eq_iff)
  have pages: "{cpu s, p} \<subseteq> used (hw ?s7)" unfolding hw using cpu by blast
  have "kernel_ok items used blocks ?s7"
    using x main by (intro two_threads_ok [OF heap p(2) lists rest(1-3) pages rest(5)])
      (simp_all add: main'_def is_thread_def)
  moreover have "heap ?s7 (cpu s) = Some (?m\<lparr>status := THREAD_READY\<rparr>)" by (simp add: heap p)
  ultimately show thesis
    using run lists rest(1,2,4) page main
    by (intro that [of ?s7 p "?m\<lparr>status := THREAD_READY\<rparr>"]) (simp_all add: main'_def)
qed

end

end
