(* ===== verification/Sig_Step.thy ===== *)
theory Sig_Step
  imports Sig_Boot
begin

text \<open>
  The thread system with signals as a transition system: the calls a running thread can make,
  the timer interrupt and the machine.
\<close>

datatype sig_op =
    Do_tick | Do_yield | Do_block | Do_unblock addr | Do_create "string option" int "addr option" addr
  | Do_exit | Do_kill tid_t sig_type | Do_signal sig_type sig_action
  | Do_sigprocmask procmask_how "sigset_t option" "sigset_t option"
  | Do_setlifetime "64 word" | Do_set_priority int | Do_machine

text \<open>
  The idle thread, whose code is an endless loop, neither exits nor sets itself a lifetime.  The
  fuel is any that is enough.
\<close>

inductive sig_step ::
  "('l, 'h) pintos \<Rightarrow> ('l \<Rightarrow> addr list) \<Rightarrow> ('h \<Rightarrow> addr set) \<Rightarrow> ('h \<Rightarrow> addr set) \<Rightarrow> sig_op
    \<Rightarrow> ('l, 'h) kernel \<Rightarrow> ('l, 'h) kernel \<Rightarrow> bool"
  for P :: "('l, 'h) pintos" and items :: "'l \<Rightarrow> addr list" and used blocks :: "'h \<Rightarrow> addr set"
where
  tick: "thread_tick P s = Inr s' \<Longrightarrow> sig_step P items used blocks Do_tick s s'"
| yield: "enough_fuel items n k s \<Longrightarrow> thread_yield P n k s = Inr s' \<Longrightarrow> sig_step P items used blocks Do_yield s s'"
| block: "enough_fuel items n k s \<Longrightarrow> thread_block P n k s = Inr s' \<Longrightarrow> sig_step P items used blocks Do_block s s'"
| unblock: "thread_unblock P t s = Inr s' \<Longrightarrow> sig_step P items used blocks (Do_unblock t) s s'"
| create: "thread_create P nm prio f aux s = Inr (r, s')
    \<Longrightarrow> sig_step P items used blocks (Do_create nm prio f aux) s s'"
| exit: "idle_thread s \<noteq> Some (cpu s) \<Longrightarrow> enough_fuel items n k s \<Longrightarrow> exit_current P n k s = Inr s'
    \<Longrightarrow> sig_step P items used blocks Do_exit s s'"
| kill: "enough_fuel items n k s \<Longrightarrow> kill P n i sg s = Inr (r, s')
    \<Longrightarrow> sig_step P items used blocks (Do_kill i sg) s s'"
| Signal: "Signal sg a s = Inr (r, s') \<Longrightarrow> sig_step P items used blocks (Do_signal sg a) s s'"
| sigprocmask: "sigprocmask h new old s = Inr (r, old', s')
    \<Longrightarrow> sig_step P items used blocks (Do_sigprocmask h new old) s s'"
| setlifetime: "idle_thread s \<noteq> Some (cpu s) \<Longrightarrow> setlifetime x s = Inr s'
    \<Longrightarrow> sig_step P items used blocks (Do_setlifetime x) s s'"
| set_priority: "thread_set_priority p s = Inr s' \<Longrightarrow> sig_step P items used blocks (Do_set_priority p) s s'"
| machine: "used (hw s) \<subseteq> used h \<Longrightarrow> blocks (hw s) \<subseteq> blocks h
    \<Longrightarrow> sig_step P items used blocks Do_machine s (s\<lparr>hw := h\<rparr>)"

definition sig_start ::
  "('l, 'h) pintos \<Rightarrow> ('h \<Rightarrow> addr set) \<Rightarrow> ('l, 'h) kernel \<Rightarrow> bool"
where
  "sig_start P used s \<longleftrightarrow> (\<exists>s0 n k code aux. sig_loaded P used s0 \<and> sig_boot P n k code aux s0 = Inr s)"

context pintos_kernel
begin

lemma sig_create_Inr:
  assumes "thread_create P nm prio f aux s = Inr (r, s')"
  obtains (none) h where "palloc_get_page P (hw s) = (None, h)" and "s' = s\<lparr>hw := h\<rparr>"
  | (some) n c where "nm = Some n" and "f = Some c" and "PRI_MIN \<le> prio" and "prio \<le> PRI_MAX"
      and "next_tid s + 1 < 2 ^ 31"
proof (cases "palloc_get_page P (hw s)")
  case (Pair po h)
  show thesis
  proof (cases po)
    case None
    with Pair assms none show thesis by (auto simp: thread_create_def)
  next
    case (Some p)
    with Pair assms have "f \<noteq> None" "nm \<noteq> None" "PRI_MIN \<le> prio" "prio \<le> PRI_MAX" "next_tid s + 1 < 2 ^ 31"
      by (auto simp: thread_create_def init_thread_def allocate_tid_def sinc_def sig_defs
          split: option.splits if_splits)
    with some show thesis by auto
  qed
qed

lemma tick_shape:
  assumes "thread_tick P s = Inr s'"
  shows "\<exists>a b c d h. s' = s\<lparr>idle_ticks := a, kernel_ticks := b, clock_count := c, thread_ticks := d, hw := h\<rparr> \<and>
    used h = used (hw s) \<and> blocks h = blocks (hw s) \<and> intr_get_level P h = intr_get_level P (hw s)"
proof -
  let ?c = "clock_count s + 1" and ?d = "thread_ticks s + 1"
  let ?h = "if TIME_SLICE \<le> ?d then intr_yield_on_return P (hw s) else hw s"
  from assms have "s' = s\<lparr>idle_ticks := idle_ticks s', kernel_ticks := kernel_ticks s', clock_count := ?c,
      thread_ticks := ?d, hw := ?h\<rparr>"
    by (auto simp: thread_tick_def Let_def sinc_def split: if_splits)
  moreover have "used ?h = used (hw s)" "blocks ?h = blocks (hw s)" "intr_get_level P ?h = intr_get_level P (hw s)"
    by simp_all
  ultimately show ?thesis by blast
qed

text \<open>What a step that returns leaves.\<close>

lemma sig_step_ok:
  assumes step: "sig_step P items used blocks op s s'" and inv: "kernel_ok items used blocks s"
  shows "kernel_ok items used blocks s'"
proof -
  let ?F = "{Null_deref, Bad_deref}"
  have mem: "(\<forall>h. fst (malloc P h) \<noteq> None) \<or> Null_deref \<in> ?F" and dead: "Bad_deref \<in> ?F \<or> b" for b by simp_all
  from kernel_ok_current [OF inv] obtain th where th: "heap s (cpu s) = Some th" and cur: "thread_current s = Inr (cpu s)" .
  from step show ?thesis
  proof cases
    case tick
    have "kernel_ok items used blocks (s\<lparr>idle_ticks := a, kernel_ticks := b, clock_count := c, thread_ticks := d, hw := h\<rparr>)"
      if "used h = used (hw s)" "blocks h = blocks (hw s)" for a b c d h
      using that by (intro kernel_ok_frame [OF inv]) simp_all
    moreover have "\<exists>a b c d h. s' = s\<lparr>idle_ticks := a, kernel_ticks := b, clock_count := c, thread_ticks := d, hw := h\<rparr> \<and>
        used h = used (hw s) \<and> blocks h = blocks (hw s)"
      using tick_shape [OF tick(2)] by blast
    ultimately show ?thesis by blast
  next
    case (yield n k)
    then have "\<not> intr_context P (hw s)" by (auto simp: thread_yield_def)
    from ok_InrD [OF sig_yield_ok [OF inv this yield(2) mem dead] yield(3)] show ?thesis by simp
  next
    case (block n k)
    then have "\<not> intr_context P (hw s)" "intr_get_level P (hw s) = INTR_OFF" by (auto simp: thread_block_def)
    from ok_InrD [OF sig_block_ok [OF inv this block(2) mem dead] block(3)] show ?thesis by simp
  next
    case (unblock t)
    then obtain x where "heap s t = Some x" "status x = THREAD_BLOCKED" by (auto simp: thread_unblock_def Let_def)
    from sig_unblock_ok [OF inv this] unblock show ?thesis by auto
  next
    case (create nm prio f aux r)
    from create(2) show ?thesis
    proof (cases rule: sig_create_Inr)
      case (none h)
      with get_page_None [of "hw s" h] get_page_blocks [of "hw s"] show ?thesis
        by (intro kernel_ok_frame [OF inv]) simp_all
    next
      case (some n c)
      from sig_create_ok [OF inv some(5,3,4), of n c aux] obtain r' t
        where "thread_create P (Some n) prio (Some c) aux s = Inr (r', t)" "kernel_ok items used blocks t" .
      with create some show ?thesis by simp
    qed
  next
    case (exit n k)
    from exit(4) cur have "\<not> intr_context P (hw s)"
      by (cases k) (auto simp: exit_current_def exit_body_def)
    from ok_InrD [OF sig_exit_ok [OF inv this exit(2,3) mem dead] exit(4)] show ?thesis by simp
  next
    case (kill n k i sg r)
    from kill(2) have "length (items (sig_list s)) \<le> n" "length (items (all_list s)) \<le> n"
      by (simp_all add: enough_fuel_def)
    from ok_InrD [OF kill_ok [OF inv this mem] kill(3)] show ?thesis by simp
  next
    case (Signal sg a r)
    then have "s' = s \<or> (\<exists>v. s' = set_thread (cpu s) (th\<lparr>sigign := v\<rparr>) s)"
      using th cur by (auto simp: Signal_def split: if_splits)
    with inv kernel_ok_thread [OF inv th, of "th\<lparr>sigign := _\<rparr>"] show ?thesis by auto
  next
    case (sigprocmask h new old r old')
    then have "s' = s \<or> (\<exists>v. s' = set_thread (cpu s) (th\<lparr>sigmask := v\<rparr>) s)"
      using th cur by (auto simp: sigprocmask_def Let_def split: if_splits option.splits)
    with inv kernel_ok_thread [OF inv th, of "th\<lparr>sigmask := _\<rparr>"] show ?thesis by auto
  next
    case (setlifetime x)
    from setlifetime(3) have "update_current (\<lambda>th. th\<lparr>maxlifetime := x\<rparr>) s = Inr s'" by (simp add: setlifetime_def)
    from sig_update_ok [OF inv this] setlifetime(2) show ?thesis by simp
  next
    case (set_priority p)
    from set_priority(2) have "update_current (\<lambda>th. th\<lparr>priority := p\<rparr>) s = Inr s'"
      by (simp add: thread_set_priority_def)
    from sig_update_ok [OF inv this] show ?thesis by simp
  next
    case (machine h)
    with kernel_ok_frame [OF inv, of s'] show ?thesis by simp
  qed
qed

end

sublocale pintos_kernel \<subseteq> signals: transition_system
  "sig_start P used" "\<lambda>s s'. \<exists>op. sig_step P items used blocks op s s'" "kernel_ok items used blocks"
proof unfold_locales
  fix s
  assume "sig_start P used s"
  then obtain s0 n k code aux where "sig_loaded P used s0" "sig_boot P n k code aux s0 = Inr s"
    by (auto simp: sig_start_def)
  with sig_boot_ok [of s0 n k code aux] show "kernel_ok items used blocks s" by (metis Inr_inject)
next
  fix s t
  assume "kernel_ok items used blocks s" "\<exists>op. sig_step P items used blocks op s t"
  then show "kernel_ok items used blocks t" using sig_step_ok by blast
qed

context pintos_kernel
begin

lemma sig_reachable:
  "reach (sig_start P used) (\<lambda>s s'. \<exists>op. sig_step P items used blocks op s s') s \<Longrightarrow> kernel_ok items used blocks s"
  by (rule signals.reach_inv)

end

end
