(* ===== verification/Sig_Cases.thy ===== *)
theory Sig_Cases
  imports Sig_Step
begin

text \<open>
  Two exact runs of a switch: a yield when no signal is queued, which is one step of round robin,
  and a death with a SIG_UBLOCK queued for the dying thread, which reads freed memory.
\<close>

context pintos_kernel
begin

lemma pop_front_ready:
  assumes "items (ready_list s) = n # xs"
  obtains l where "next_thread_to_run P s = (Some n, s\<lparr>ready_list := l\<rparr>)" and "items l = xs"
proof -
  from pop_Cons [OF assms] obtain l where "list_pop_front P (ready_list s) = (n, l)" "items l = xs" .
  with that assms show thesis by (simp add: next_thread_to_run_def)
qed

lemma resume_total:
  assumes "heap s (cpu s) = Some th" and "resumable (frames th)"
  obtains s' where "resume P s = Inr s'" and "cpu s' = cpu s" and "ready_list s' = ready_list s"
    and "thread_ticks s' = thread_ticks s"
  using assms(2)
proof (cases "frames th" rule: resumable.cases)
  case (1 l fs)
  with assms(1) that show thesis by (simp add: resume_def sig_defs)
next
  case (2 fs)
  with assms(1) that show thesis by (simp add: resume_def sig_defs)
next
  case (3 b e f a fs)
  with assms(1) that show thesis by (simp add: resume_def kernel_thread_def sig_defs)
qed simp_all

lemma sig_yield_plain:
  assumes inv: "kernel_ok items used blocks s" and ctx: "\<not> intr_context P (hw s)"
    and fuel: "enough_fuel items n k s" and none: "pending items s = []"
    and not_idle: "idle_thread s \<noteq> Some (cpu s)"
    and nxt: "items (ready_list s) @ [cpu s] = u # us"
    and life: "\<not> expired (the (heap s u)) (clock_count s)"
  shows "\<exists>s'. thread_yield P n k s = Inr s' \<and> kernel_ok items used blocks s' \<and> cpu s' = u \<and>
    items (ready_list s') = us \<and> thread_ticks s' = 0"
proof -
  from inv have threads: "threads_ok items used (Some (cpu s)) {} s" by (simp add: kernel_ok_def)
  from kernel_ok_current [OF inv] obtain th where th: "heap s (cpu s) = Some th" and cur: "thread_current s = Inr (cpu s)"
    and nq: "cpu s \<notin> set (items (ready_list s))" and t: "is_thread th" by metis
  let ?th = "th\<lparr>status := THREAD_READY, frames := in_thread_yield (intr_get_level P (hw s)) # frames th\<rparr>"
  let ?s = "s\<lparr>hw := snd (intr_disable P (hw s)), ready_list := list_push_back P (ready_list s) (cpu s),
    heap := (heap s)(cpu s \<mapsto> ?th)\<rparr>"
  have "items (ready_list ?s) = u # us" using nq nxt by simp
  from pop_front_ready [OF this] obtain l where pop: "next_thread_to_run P ?s = (Some u, ?s\<lparr>ready_list := l\<rparr>)"
    and l: "items l = us" .
  from nxt have uq: "u = cpu s \<or> u \<in> set (items (ready_list s))" by (cases "items (ready_list s)") auto
  from threads_ok_ready [OF threads, of u] uq th obtain x where x: "heap s u = Some x" by metis
  with threads_okD(1) [OF threads x] have xt: "is_thread x" by (simp add: thread_ok_def)
  let ?x = "if u = cpu s then ?th else x"
  have hx: "heap ?s u = Some ?x" "is_thread ?x" using x xt t by (simp_all add: is_thread_def)
  let ?d = "dispatched P u ?x (?s\<lparr>ready_list := l\<rparr>)"
  have "schedule P n (thread_exit P n k) ?s =
      handleSignals P n (thread_exit P n k) (expired ?x (clock_count ?s)) ?d"
    by (rule schedule_dispatched [OF pop, where cth = ?th]) (use hx in simp_all)
  also have "expired ?x (clock_count ?s) = False" using life x th by (auto simp: expired_def)
  also have "handleSignals P n (thread_exit P n k) False ?d = Inr ?d"
    by (rule handle_nothing [where th = "?x\<lparr>status := THREAD_RUNNING\<rparr>"])
      (use none hx in \<open>simp_all add: dispatched_def Let_def pending_def is_thread_def\<close>)
  finally have sched: "schedule P n (thread_exit P n k) ?s = Inr ?d" .
  have "thread_yield P n k s = bind (schedule P n (thread_exit P n k) ?s) (resume P)"
    using cur th ctx not_idle by (simp add: thread_yield_def sig_defs Let_def)
  then have run: "thread_yield P n k s = resume P ?d" unfolding sched by simp
  have "resumable (frames ?x)"
    using threads_okD(1) [OF threads x] uq by (auto simp: thread_ok_def)
  then obtain s' where s': "thread_yield P n k s = Inr s'" "cpu s' = u" "items (ready_list s') = us" "thread_ticks s' = 0"
    using resume_total [of ?d "?x\<lparr>status := THREAD_RUNNING\<rparr>"] run l
    by (auto simp: dispatched_def Let_def)
  have "settled items {} s" using none by (simp add: settled_def)
  with ok_InrD [OF sig_yield_ok [OF inv ctx fuel, of "{Null_deref}"] s'(1)] s' show ?thesis by blast
qed

lemma stale_receiver:
  assumes inv: "kernel_ok items used blocks s" and ctx: "\<not> intr_context P (hw s)"
    and not_idle: "idle_thread s \<noteq> Some (cpu s)" and not_main: "initial_thread s \<noteq> Some (cpu s)"
    and fuel: "enough_fuel items n (Suc k) s" and mem: "\<forall>h. fst (malloc P h) \<noteq> None"
    and x: "x \<in> set (pending items s)" "sig x = SIG_UBLOCK" "reciever x = cpu s"
  obtains s2 scpu ds e es z y where
    "thread_exit P n (Suc k) s = handleSignals P n (thread_exit P n k) scpu s2" and "kernel_ok items used blocks s2"
    and "cpu s2 \<noteq> cpu s" and "heap s2 (cpu s) = None" and "items (sig_list s2) = ds @ e # es"
    and "fold_res (\<lambda>_. False) (take_signal P (cpu s2)) ds (0, 0, s2) = Inr z" and "take_signal P (cpu s2) e z = Inl Bad_deref"
    and "sigs s2 e = Some y" and "sig y = SIG_UBLOCK" and "heap s2 (reciever y) = None"
    and "reciever y = cpu s \<or> heap s (reciever y) = None" and "thread_exit P n (Suc k) s = Inl Bad_deref"
proof -
  have len_s: "length (items (sig_list s)) + length (items (all_list s)) \<le> n" using fuel by (simp add: enough_fuel_def)
  from exit_body_died [OF inv ctx not_idle len_s mem, of "thread_exit P n k"] obtain s3 where d: "died P items used blocks s s3"
    and run: "exit_body P n (thread_exit P n k) s = schedule P n (thread_exit P n k) s3" .
  then have threads: "threads_ok items used None {cpu s} s3" and sigs: "signals_ok items blocks s3"
    and s3: "cpu s3 = cpu s" "initial_thread s3 = initial_thread s" "intr_get_level P (hw s3) = INTR_OFF"
      "items (all_list s3) = remove1 (cpu s) (items (all_list s))"
      "heap s3 = (orphan (tid (the (heap s (cpu s)))) (set (items (all_list s))) (heap s))
        (cpu s \<mapsto> (the (heap s (cpu s)))\<lparr>status := THREAD_DYING\<rparr>)"
    by (simp_all add: died_def Let_def)
  have dom: "dom (heap s3) = insert (cpu s) (dom (heap s))" by (simp add: s3(5))
  from d have "key x \<in> key ` set (pending items s3)"
    using x(1) queued_keeps [OF x(1)] by (auto simp: died_def Let_def tell_parent_def split: option.splits)
  then obtain y' where y': "y' \<in> set (pending items s3)" "sig y' = SIG_UBLOCK" "reciever y' = cpu s"
    using x by (auto simp: key_def)
  from sig_next_cases [OF threads] obtain m th rl where nxt: "next_thread_to_run P s3 = (Some m, s3\<lparr>ready_list := rl\<rparr>)"
    and th: "heap s3 m = Some th" and m: "m \<in> set (items (all_list s3))"
    and rl: "distinct (items rl)" "set (items rl) = set (items (ready_list s3)) - {m}" by metis
  from inv have "distinct (items (all_list s))" by (simp add: kernel_ok_def threads_ok_def)
  with m s3 have mc: "m \<noteq> cpu s" by auto
  define d2 where "d2 = dispatched P m th (s3\<lparr>ready_list := rl\<rparr>)"
  have dk: "kernel_ok items used blocks d2"
    unfolding d2_def by (rule dispatched_ok [OF threads sigs _ th m rl]) (simp add: s3)
  have gone: "heap d2 = (heap s3)(m \<mapsto> th\<lparr>status := THREAD_RUNNING\<rparr>, cpu s := None)" "cpu d2 = m"
    "pending items d2 = pending items s3" "sig_list d2 = sig_list s3"
    using mc s3(1,2) not_main by (simp_all add: d2_def dispatched_def Let_def pending_def s3(5))
  have len: "length (items (sig_list d2)) \<le> n" using died_length(2) [OF inv d len_s] by (simp add: gone)
  have cth: "heap s3 (cpu s3) = Some ((the (heap s (cpu s)))\<lparr>status := THREAD_DYING\<rparr>)" by (simp add: s3(1,5))
  have "is_thread th" using threads_okD(1) [OF threads th] by (simp add: thread_ok_def)
  with schedule_dispatched [OF nxt _ _ _ _ _ s3(3) cth _ th]
  have sched: "schedule P n (thread_exit P n k) s3 = handleSignals P n (thread_exit P n k) (expired th (clock_count s3)) d2"
    by (simp add: d2_def)
  have "take_signals P n (cpu d2) d2 \<noteq> Inr z" for z
    using take_signals_receivers [OF dk len, of z y'] y' gone(1,3) by auto
  with take_signals_ok [OF dk len, of "{Bad_deref}"]
  have take: "take_signals P n (cpu d2) d2 = Inl Bad_deref" by (cases "take_signals P n (cpu d2) d2") auto
  from take_signals_fails [OF dk len this] obtain ds e es z y where split: "items (sig_list d2) = ds @ e # es"
    "fold_res (\<lambda>_. False) (take_signal P (cpu d2)) ds (0, 0, d2) = Inr z" "take_signal P (cpu d2) e z = Inl Bad_deref"
    and y: "sigs d2 e = Some y" "y \<in> set (pending items d2)" "sig y = SIG_UBLOCK" "heap d2 (reciever y) = None" .
  from y(4) dom have "reciever y = cpu s \<or> heap s (reciever y) = None"
    by (cases "reciever y = cpu s") (auto simp: gone(1) domIff split: if_splits)
  moreover have "thread_current d2 = Inr (cpu d2)" using dk by (rule kernel_ok_current)
  with take have "handleSignals P n ex b d2 = Inl Bad_deref" for ex b by (simp add: handleSignals_def)
  ultimately show thesis using run sched mc dk gone(1,2) split y
    by (intro that [of "expired th (clock_count s3)" d2 ds e es z y]) simp_all
qed

end

end
