(* ===== verification/Sig_Doom.thy ===== *)
theory Sig_Doom
  imports Sig_Cases
begin

text \<open>
  What becomes of a thread that has been sent SIG_KILL: `doom` is kept by every step, and the thread that runs
  after a step is never the doomed one.
\<close>

context pintos_kernel
begin

text \<open>A thread that is quiet has no SIG_KILL queued.\<close>

lemma quiet_spared:
  assumes inv: "kernel_ok items used blocks s" and q: "quiet items s" and doom: "doom items i {} s"
  shows "tid (the (heap s (cpu s))) \<noteq> i"
proof
  assume i: "tid (the (heap s (cpu s))) = i"
  from inv have "cpu s \<in> set (items (all_list s))" by (auto elim: kernel_ok_current)
  with doom i obtain x where x: "x \<in> set (pending items s)" "key x = (cpu s, SIG_KILL)" by (force simp: doom_def)
  moreover have "SIG_KILL \<noteq> SIG_UBLOCK" by (simp add: SIG_KILL_def SIG_UBLOCK_def)
  ultimately have "takes (heap s) (cpu s) x" by (simp add: key_def takes_def)
  with q x(1) show False by (simp add: quiet_def)
qed

text \<open>Steps that do not switch.\<close>

lemma doom_stays:
  assumes doom: "doom items i {} s" and run: "tid (the (heap s (cpu s))) \<noteq> i"
    and same: "next_tid s \<le> next_tid s'" "cpu s' = cpu s" "all_list s' = all_list s"
      "\<And>t. tid (the (heap s' t)) = tid (the (heap s t))" "key ` set (pending items s) \<subseteq> key ` set (pending items s')"
  shows "doom items i {} s' \<and> tid (the (heap s' (cpu s'))) \<noteq> i"
  using doom_frame [OF doom same(1) _ same(4,5), of "{}"] run same(2-4) by simp

lemma doom_create:
  assumes inv: "kernel_ok items used blocks s" and doom: "doom items i {} s" and run: "tid (the (heap s (cpu s))) \<noteq> i"
    and step: "thread_create P nm prio f aux s = Inr (r, s')"
  shows "doom items i {} s' \<and> tid (the (heap s' (cpu s'))) \<noteq> i"
  using step
proof (cases rule: sig_create_Inr)
  case (none h)
  then show ?thesis by (intro doom_stays [OF doom run]) (simp_all add: pending_def)
next
  case (some n c)
  from sig_create_ok [OF inv some(5,3,4), of n c aux] obtain r' s2
    where s2: "thread_create P (Some n) prio (Some c) aux s = Inr (r', s2)" "cpu s2 = cpu s" "pending items s2 = pending items s"
      and shape: "case fst (palloc_get_page P (hw s)) of
           None \<Rightarrow> heap s2 = heap s \<and> ready_list s2 = ready_list s \<and> all_list s2 = all_list s
         | Some p \<Rightarrow> items (ready_list s2) = items (ready_list s) @ [p] \<and> items (all_list s2) = items (all_list s) @ [p] \<and>
             heap s2 = (heap s)(cpu s \<mapsto> (the (heap s (cpu s)))\<lparr>child := child (the (heap s (cpu s))) + 1\<rparr>,
               p \<mapsto> (new_child P p (next_tid s) n prio c aux (tid (the (heap s (cpu s)))) (clock_count s))
                 \<lparr>status := THREAD_READY\<rparr>)"
      and nt: "next_tid s \<le> next_tid s2" .
  have "s' = s2" using s2(1) step some by simp
  show ?thesis
  proof (cases "fst (palloc_get_page P (hw s))")
    case None
    with shape s2 nt \<open>s' = s2\<close> show ?thesis by (intro doom_stays [OF doom run]) auto
  next
    case (Some p)
    with shape have all: "items (all_list s2) = items (all_list s) @ [p]"
      and ids: "tid (the (heap s2 t)) = (if t = p then next_tid s else tid (the (heap s t)))" for t
      by (auto simp: new_child_def)
    have "i < next_tid s" using doom by (simp add: doom_def)
    with doom nt have "doom items i {} s2" by (auto simp: doom_def all ids s2)
    with run ids [of "cpu s"] \<open>i < next_tid s\<close> \<open>s' = s2\<close> s2(2) show ?thesis by auto
  qed
qed

text \<open>Every step.\<close>

lemma sig_step_doom:
  assumes step: "sig_step P items used blocks op s s'" and inv: "kernel_ok items used blocks s"
    and doom: "doom items i {} s" and run: "tid (the (heap s (cpu s))) \<noteq> i"
  shows "doom items i {} s' \<and> tid (the (heap s' (cpu s'))) \<noteq> i"
proof -
  let ?F = "{Null_deref, Bad_deref}"
  have mem: "(\<forall>h. fst (malloc P h) \<noteq> None) \<or> Null_deref \<in> ?F" and dead: "Bad_deref \<in> ?F \<or> b" for b by simp_all
  from kernel_ok_current [OF inv] obtain th where th: "heap s (cpu s) = Some th" and cur: "thread_current s = Inr (cpu s)" .
  have switched: ?thesis if "kernel_ok items used blocks s' \<and> quiet items s' \<and> doom items i {} s'"
    using that quiet_spared by blast
  have own: ?thesis if "s' = s \<or> (\<exists>x. s' = set_thread (cpu s) x s \<and> tid x = tid th)"
    using that
  proof (elim disjE exE conjE)
    fix x
    assume "s' = set_thread (cpu s) x s" "tid x = tid th"
    with th show ?thesis by (intro doom_stays [OF doom run]) (simp_all add: sig_defs pending_def)
  qed (use doom run in simp)
  from step show ?thesis
  proof cases
    case tick
    from tick_shape [OF tick(2)] show ?thesis by (elim exE conjE) (intro doom_stays [OF doom run]; simp add: pending_def)
  next
    case (yield n k)
    then have "\<not> intr_context P (hw s)" by (auto simp: thread_yield_def)
    from switched ok_InrD [OF sig_yield_doom [OF inv this yield(2) mem dead doom] yield(3)] show ?thesis .
  next
    case (block n k)
    then have "\<not> intr_context P (hw s)" "intr_get_level P (hw s) = INTR_OFF" by (auto simp: thread_block_def)
    from switched ok_InrD [OF sig_block_doom [OF inv this block(2) mem dead doom] block(3)] show ?thesis .
  next
    case (unblock t)
    then obtain x where x: "heap s t = Some x" "is_thread x" "status x = THREAD_BLOCKED" by (auto simp: thread_unblock_def Let_def)
    from thread_unblock_Inr [OF x] unblock(2) x(1) show ?thesis
      by (intro doom_stays [OF doom run]) (auto simp: pending_def)
  next
    case (create nm prio f aux r)
    from doom_create [OF inv doom run create(2)] show ?thesis .
  next
    case (exit n k)
    from exit(4) cur have "\<not> intr_context P (hw s)"
      by (cases k) (auto simp: exit_current_def exit_body_def)
    from switched ok_InrD [OF sig_exit_doom [OF inv this exit(2,3) mem dead doom] exit(4)] show ?thesis .
  next
    case (kill n k j sg r)
    from kill(2) have "length (items (sig_list s)) \<le> n" "length (items (all_list s)) \<le> n"
      by (simp_all add: enough_fuel_def)
    from ok_InrD [OF kill_ok [OF inv this mem] kill(3)]
    have "s' = s \<or> s' = intr_off P s \<or> (\<exists>a m. signals_only P used s s' \<and> pending items s' = queued a sg m (pending items s))"
      by (auto split: if_splits)
    then show ?thesis
    proof (elim disjE exE conjE)
      fix a m
      assume so: "signals_only P used s s'" and q: "pending items s' = queued a sg m (pending items s)"
      have "key ` set (pending items s) \<subseteq> key ` set (pending items s')" using queued_keeps by (auto simp: q)
      with so show ?thesis by (intro doom_stays [OF doom run]) (simp_all add: signals_only_def)
    next
      assume "s' = intr_off P s"
      then show ?thesis by (intro doom_stays [OF doom run]) (simp_all add: sig_defs pending_def)
    qed (use doom run in simp)
  next
    case (Signal sg a r)
    then show ?thesis using th cur by (intro own) (auto simp: Signal_def split: if_splits)
  next
    case (sigprocmask h new old r old')
    then show ?thesis using th cur by (intro own) (auto simp: sigprocmask_def Let_def split: if_splits option.splits)
  next
    case (setlifetime x)
    then show ?thesis using th cur by (intro own) (auto simp: setlifetime_def update_current_def)
  next
    case (set_priority p)
    then show ?thesis using th cur by (intro own) (auto simp: thread_set_priority_def update_current_def)
  next
    case (machine h)
    then show ?thesis by (intro doom_stays [OF doom run]) (simp_all add: pending_def)
  qed
qed

lemma sig_steps_doom:
  assumes "(\<lambda>s s'. \<exists>op. sig_step P items used blocks op s s')\<^sup>*\<^sup>* s s'" and "kernel_ok items used blocks s"
    and "doom items i {} s" and "tid (the (heap s (cpu s))) \<noteq> i"
  shows "kernel_ok items used blocks s' \<and> doom items i {} s' \<and> tid (the (heap s' (cpu s'))) \<noteq> i"
  using assms
proof (induction rule: rtranclp_induct)
  case (step t u)
  then show ?case using sig_step_ok sig_step_doom by blast
qed simp

text \<open>A SIG_KILL that was sent dooms its receiver, which does not run.\<close>

lemma kill_dooms:
  assumes inv: "kernel_ok items used blocks s" and fuel: "length (items (sig_list s)) \<le> n" "length (items (all_list s)) \<le> n"
    and run: "kill P n i SIG_KILL s = Inr (0, s')"
  shows "kernel_ok items used blocks s' \<and> doom items i {} s' \<and> tid (the (heap s' (cpu s'))) \<noteq> i"
proof -
  from inv have threads: "threads_ok items used (Some (cpu s)) {} s" by (simp add: kernel_ok_def)
  have mem: "(\<forall>h. fst (malloc P h) \<noteq> None) \<or> Null_deref \<in> {Null_deref}" by simp
  from ok_InrD [OF kill_ok [OF inv fuel mem] run] have may: "may_send items i SIG_KILL s" and inv': "kernel_ok items used blocks s'"
    by (auto split: if_splits)
  with ok_InrD [OF kill_ok [OF inv fuel mem] run] have so: "signals_only P used s s'"
    and pend: "pending items s' = queued (the (live items i s)) SIG_KILL (tid (the (heap s (cpu s)))) (pending items s)" by auto
  from may obtain a where a: "live items i s = Some a" and up: "parent (the (heap s a)) = tid (the (heap s (cpu s)))"
    by (auto simp: may_send_def)
  from get_thread_Some [OF threads a [unfolded live_def]] obtain x where x: "heap s a = Some x" "tid x = i" .
  have x_ok: "parent x \<noteq> tid x" "tid x < next_tid s" using threads_okD(1) [OF threads x(1)] by (simp_all add: thread_ok_def)
  have "u = a" if "u \<in> set (items (all_list s))" "tid (the (heap s u)) = i" for u
    by (rule inj_onD [OF threads_okD(7) [OF threads]]) (use threads_okD(5) [OF threads that(1)] that(2) x in auto)
  moreover have "(a, SIG_KILL) \<in> key ` set (pending items s')"
    using queued_mem [of SIG_KILL _ a] by (force simp: pend a key_def)
  ultimately have "doom items i {} s'" using so x_ok(2) x(2) by (auto simp: doom_def signals_only_def)
  moreover have "tid (the (heap s' (cpu s'))) \<noteq> i" using so up x x_ok(1) by (auto simp: signals_only_def)
  ultimately show ?thesis using inv' by blast
qed

end

end
