(* ===== verification/Sig_Main.thy ===== *)
theory Sig_Main
  imports Sig_Doom
begin

text \<open>
  The properties of the thread system with signals, over any Pintos services that keep their
  headers' promises, each with a witness on the implementation `ref_pintos`.
\<close>

subsection \<open>A concrete system\<close>

definition sdemo_loaded :: "(ref_list, ref_hw) kernel" where
  "sdemo_loaded = \<lparr>heap = Map.empty, sigs = Map.empty, ready_list = list_init ref_pintos,
     all_list = list_init ref_pintos, sig_list = list_init ref_pintos,
     idle_thread = None, initial_thread = None, next_tid = 1,
     idle_ticks = 0, kernel_ticks = 0, user_ticks = 0, clock_count = 0, thread_ticks = 0, cpu = 4096,
     hw = \<lparr>level = INTR_OFF, in_interrupt = False, yield_flag = False,
           free_pages = [8192, 12288, 16384], next_block = 0\<rparr>,
     console = []\<rparr>"

lemma sdemo_loaded: "sig_loaded ref_pintos ref_used sdemo_loaded"
  by (simp add: sig_loaded_def sdemo_loaded_def ref_used_def ref_get_page_def)

text \<open>
  The initial thread runs; its child 3 is ready with a SIG_KILL queued; thread 4 is blocked with a
  SIG_UBLOCK queued.  `g` is the set of signals thread 4 does not ignore.
\<close>

definition sdemo_thread :: "tid_t \<Rightarrow> thread_status \<Rightarrow> tid_t \<Rightarrow> sigset_t \<Rightarrow> frame list \<Rightarrow> thread" where
  "sdemo_thread n st up g fs = \<lparr>tid = n, status = st, name = ''t'', stack = 0, priority = 31, parent = up,
     sigign = g, sigmask = 0, starttime = 0, maxlifetime = 0, child = 0, dchild = 0,
     magic = THREAD_MAGIC, frames = fs\<rparr>"

definition sdemo :: "addr \<Rightarrow> sigset_t \<Rightarrow> intr_level \<Rightarrow> (ref_list, ref_hw) kernel" where
  "sdemo to g l = \<lparr>heap = [4096 \<mapsto> sdemo_thread 1 THREAD_RUNNING (-1) (-1) [],
       8192 \<mapsto> sdemo_thread 2 THREAD_BLOCKED (-1) (-1) [in_thread_block],
       12288 \<mapsto> sdemo_thread 3 THREAD_READY 1 (-1) [in_thread_yield INTR_ON],
       16384 \<mapsto> sdemo_thread 4 THREAD_BLOCKED 1 g [in_thread_block]],
     sigs = [0 \<mapsto> \<lparr>sig = SIG_KILL, sender = 1, reciever = 12288\<rparr>,
       1 \<mapsto> \<lparr>sig = SIG_UBLOCK, sender = 1, reciever = to\<rparr>],
     ready_list = ([12288], \<lambda>_. None), all_list = ([4096, 8192, 12288, 16384], \<lambda>_. None),
     sig_list = ([0, 1], \<lambda>_. None),
     idle_thread = Some 8192, initial_thread = Some 4096, next_tid = 5,
     idle_ticks = 0, kernel_ticks = 30, user_ticks = 0, clock_count = 30, thread_ticks = 3, cpu = 4096,
     hw = \<lparr>level = l, in_interrupt = False, yield_flag = False, free_pages = [20480], next_block = 2\<rparr>,
     console = []\<rparr>"

lemma sdemo_thread_sel [simp]:
  "tid (sdemo_thread n st up g fs) = n" "status (sdemo_thread n st up g fs) = st"
  "parent (sdemo_thread n st up g fs) = up" "sigign (sdemo_thread n st up g fs) = g"
  "sigmask (sdemo_thread n st up g fs) = 0" "maxlifetime (sdemo_thread n st up g fs) = 0"
  "frames (sdemo_thread n st up g fs) = fs" "is_thread (sdemo_thread n st up g fs)"
  by (simp_all add: sdemo_thread_def is_thread_def)

lemma sdemo_sel [simp]:
  "heap (sdemo to g l) = [4096 \<mapsto> sdemo_thread 1 THREAD_RUNNING (-1) (-1) [],
       8192 \<mapsto> sdemo_thread 2 THREAD_BLOCKED (-1) (-1) [in_thread_block],
       12288 \<mapsto> sdemo_thread 3 THREAD_READY 1 (-1) [in_thread_yield INTR_ON],
       16384 \<mapsto> sdemo_thread 4 THREAD_BLOCKED 1 g [in_thread_block]]"
  "sigs (sdemo to g l) = [0 \<mapsto> \<lparr>sig = SIG_KILL, sender = 1, reciever = 12288\<rparr>,
       1 \<mapsto> \<lparr>sig = SIG_UBLOCK, sender = 1, reciever = to\<rparr>]"
  "ready_list (sdemo to g l) = ([12288], \<lambda>_. None)" "sig_list (sdemo to g l) = ([0, 1], \<lambda>_. None)"
  "all_list (sdemo to g l) = ([4096, 8192, 12288, 16384], \<lambda>_. None)"
  "idle_thread (sdemo to g l) = Some 8192" "initial_thread (sdemo to g l) = Some 4096" "next_tid (sdemo to g l) = 5"
  "cpu (sdemo to g l) = 4096" "level (hw (sdemo to g l)) = l" "in_interrupt (hw (sdemo to g l)) = False"
  "free_pages (hw (sdemo to g l)) = [20480]" "next_block (hw (sdemo to g l)) = 2"
  by (simp_all add: sdemo_def)

lemma sdemo_pending: "pending fst (sdemo to g l) =
    [\<lparr>sig = SIG_KILL, sender = 1, reciever = 12288\<rparr>, \<lparr>sig = SIG_UBLOCK, sender = 1, reciever = to\<rparr>]"
  by (simp add: pending_def)

lemma sdemo_ok: "kernel_ok fst ref_used ref_blocks (sdemo to g l)"
proof -
  have "thread_ok fst (Some 4096) {} (sdemo to g l) t th" if "heap (sdemo to g l) t = Some th" for t th
    using that by (auto simp: thread_ok_def split: if_splits)
  then have "threads_ok fst ref_used (Some 4096) {} (sdemo to g l)"
    by (auto simp: threads_ok_def inj_on_def ref_used_def)
  moreover have "signals_ok fst ref_blocks (sdemo to g l)"
    by (auto simp: signals_ok_def sdemo_pending ref_blocks_def key_def signal_ok_def)
  ultimately show ?thesis by (simp add: kernel_ok_def)
qed

lemma sdemo_fuel: "enough_fuel fst 6 4 (sdemo to g l)"
  by (simp add: enough_fuel_def)

lemma sdemo_settled: "settled fst {4096} (sdemo 16384 (-1) l)"
  by (auto simp: settled_def sdemo_pending open_to_ublock_def)

lemma ref_malloc: "\<forall>h. fst (malloc ref_pintos h) \<noteq> None"
  by simp


subsection \<open>Signal sets\<close>

text \<open>The set functions on a non-null pointer: `sigemptyset` leaves no signal, `sigfillset` every one,
  `sigaddset` and `sigdelset` add and delete one of the five signals and return 0, and for any
  other code they return -1 and leave the set alone.\<close>

theorem sig_sets:
  "\<exists>e f a d. sigemptyset (Some v) = (0, Some e) \<and> sigfillset (Some v) = (0, Some f) \<and>
     sigaddset (Some v) g = (if g \<le> 4 then 0 else -1, Some a) \<and>
     sigdelset (Some v) g = (if g \<le> 4 then 0 else -1, Some d) \<and>
     (\<forall>h. is_signal h \<longrightarrow> \<not> checkBit e (ucast h) \<and> checkBit f (ucast h) \<and>
        (checkBit a (ucast h) \<longleftrightarrow> h = g \<or> checkBit v (ucast h)) \<and>
        (checkBit d (ucast h) \<longleftrightarrow> h \<noteq> g \<and> checkBit v (ucast h)))"
proof (cases "is_signal g")
  case True
  then have "\<not> 4 < g" by (simp add: is_signal_def)
  with True is_signal_inj show ?thesis
    by (auto simp: sigemptyset_def sigfillset_def sigaddset_def sigdelset_def Let_def sigset.mem_add sigset.mem_del is_signal_def)
next
  case False
  then have "4 < g" "\<And>h. is_signal h \<Longrightarrow> h \<noteq> g" by (auto simp: is_signal_def)
  then show ?thesis
    by (auto simp: sigemptyset_def sigfillset_def sigaddset_def sigdelset_def Let_def)
qed

theorem sig_sets_witness: "\<exists>a. sigaddset (Some 0) SIG_USR = (0, Some a) \<and> checkBit a (ucast SIG_USR)"
proof -
  from sig_sets [of 0 SIG_USR] obtain a where "sigaddset (Some 0) SIG_USR = (if SIG_USR \<le> 4 then 0 else -1, Some a)"
    "\<forall>h. is_signal h \<longrightarrow> (checkBit a (ucast h) \<longleftrightarrow> h = SIG_USR \<or> checkBit 0 (ucast h))" by blast
  moreover have "is_signal SIG_USR" by (simp add: is_signal_def SIG_USR_def)
  ultimately have "checkBit a (ucast SIG_USR)" "sigaddset (Some 0) SIG_USR = (0, Some a)"
    by (blast, simp add: SIG_USR_def)
  then show ?thesis by blast
qed

text \<open>`sigprocmask` gives the old mask back through `oldset` when it is not null, whatever `set` is; with a null `set` it
  changes nothing and returns 0; with another, whatever `oldset` is, it blocks exactly the union, the difference or the new set; an unknown `how` then
  returns -1 and changes no mask.\<close>

theorem sig_procmask:
  assumes "kernel_ok items used blocks s" and "heap s (cpu s) = Some th"
  shows "\<exists>r m. sigprocmask h newset oldset s =
      Inr (r, if oldset = None then None else Some (sigmask th),
        if newset \<noteq> None \<and> r = 0 then set_thread (cpu s) (th\<lparr>sigmask := m\<rparr>) s else s) \<and>
    (r = 0 \<longleftrightarrow> newset = None \<or> h \<in> {SIG_BLOCK, SIG_UNBLOCK, SIG_SETMASK}) \<and> (r \<noteq> 0 \<longrightarrow> r = -1) \<and>
    (\<forall>n. newset = Some n \<and> r = 0 \<longrightarrow> (\<forall>g. checkBit m g \<longleftrightarrow>
       (if h = SIG_BLOCK then checkBit (sigmask th) g \<or> checkBit n g
        else if h = SIG_UNBLOCK then checkBit (sigmask th) g \<and> \<not> checkBit n g else checkBit n g)))"
proof -
  from assms have "thread_current s = Inr (cpu s)" by (auto elim: kernel_ok_current)
  moreover have "checkBit m g \<longrightarrow> valid_bit g" for m g by (auto dest: sigset.mem_valid)
  ultimately show ?thesis using assms(2)
    by (cases newset; cases oldset) (auto simp: sigprocmask_def Let_def SIG_BLOCK_def SIG_UNBLOCK_def SIG_SETMASK_def)
qed

theorem sig_procmask_witness:
  "\<exists>m s'. sigprocmask SIG_BLOCK (Some 4) (Some 0) (sdemo 16384 (-1) INTR_ON) = Inr (0, Some 0, s') \<and>
    heap s' 4096 = Some ((sdemo_thread 1 THREAD_RUNNING (-1) (-1) [])\<lparr>sigmask := m\<rparr>) \<and> checkBit m (ucast SIG_USR)"
proof -
  have "checkBit 4 (ucast SIG_USR)" by (simp add: checkBit_def SIG_USR_def)
  with sig_procmask [OF sdemo_ok [of 16384 "-1" INTR_ON], of "sdemo_thread 1 THREAD_RUNNING (-1) (-1) []" SIG_BLOCK "Some 4" "Some 0"]
  obtain m where
    "sigprocmask SIG_BLOCK (Some 4) (Some 0) (sdemo 16384 (-1) INTR_ON) = Inr (0, Some 0,
       set_thread 4096 ((sdemo_thread 1 THREAD_RUNNING (-1) (-1) [])\<lparr>sigmask := m\<rparr>) (sdemo 16384 (-1) INTR_ON))"
    "checkBit m (ucast SIG_USR)" by (auto simp: SIG_BLOCK_def)
  moreover have "heap (set_thread t th k) t = Some th" for t th and k :: "(ref_list, ref_hw) kernel"
    by (simp add: set_thread_def)
  ultimately show ?thesis by blast
qed


text \<open>`Signal` on the running thread: SIG_DFL sets and SIG_IGN clears the signal's bit of `sigign` (a set bit
  means the signal is acted on) and no other; any other action returns -1 and changes nothing.\<close>

theorem sig_signal:
  assumes "kernel_ok items used blocks s" and "heap s (cpu s) = Some th" and "is_signal g"
  shows "\<exists>m. Signal g a s = (if a \<in> {SIG_DFL, SIG_IGN} then Inr (0, set_thread (cpu s) (th\<lparr>sigign := m\<rparr>) s) else Inr (-1, s)) \<and>
    (\<forall>h. is_signal h \<longrightarrow> (checkBit m (ucast h) \<longleftrightarrow> (if h = g then a = SIG_DFL else checkBit (sigign th) (ucast h))))"
proof -
  from assms have cur: "thread_current s = Inr (cpu s)" by (auto elim: kernel_ok_current)
  have "checkBit (setBit v (ucast g)) (ucast h) \<longleftrightarrow> h = g \<or> checkBit v (ucast h)"
    "checkBit (unsetBit v (ucast g)) (ucast h) \<longleftrightarrow> h \<noteq> g \<and> checkBit v (ucast h)" if "is_signal h" for h v
    using that assms(3) is_signal_inj [of h g] by (auto simp: sigset.mem_add sigset.mem_del)
  then show ?thesis using cur assms(2)
    by (cases "a = SIG_DFL")
      (auto simp: Signal_def SIG_DFL_def SIG_IGN_def intro: exI [of _ "setBit (sigign th) (ucast g)"]
        exI [of _ "unsetBit (sigign th) (ucast g)"])
qed

theorem sig_signal_witness:
  "\<exists>m. Signal SIG_USR SIG_IGN (sdemo 16384 (-1) INTR_ON) =
      Inr (0, set_thread 4096 ((sdemo_thread 1 THREAD_RUNNING (-1) (-1) [])\<lparr>sigign := m\<rparr>) (sdemo 16384 (-1) INTR_ON)) \<and>
    \<not> checkBit m (ucast SIG_USR)"
proof -
  have g: "is_signal SIG_USR" by simp
  from sig_signal [OF sdemo_ok [of 16384 "-1" INTR_ON], of "sdemo_thread 1 THREAD_RUNNING (-1) (-1) []" SIG_USR SIG_IGN] g
  show ?thesis by (auto simp: SIG_DFL_def SIG_IGN_def)
qed



subsection \<open>Sending\<close>

text \<open>C13: `kill` never faults while `malloc` succeeds.  It queues SIG_KILL from a parent to its child, and
  SIG_UBLOCK and SIG_USR from anyone to any live thread; a signal of the same kind already queued for the receiver
  is not queued twice, its sender is renewed.  Every other call returns -1 and sends nothing; when the receiver
  or its parent is what is wrong, interrupts stay disabled.\<close>

theorem sig_kill:
  assumes "pintos_kernel P items used blocks yielding" and "\<forall>h. fst (malloc P h) \<noteq> None"
    and "kernel_ok items used blocks s"
    and "length (items (sig_list s)) \<le> n" and "length (items (all_list s)) \<le> n"
  shows "\<exists>s'. kill P n i g s = Inr (if may_send items i g s then 0 else -1, s') \<and> kernel_ok items used blocks s' \<and>
    (if may_send items i g s
     then signals_only P used s s' \<and>
       pending items s' = queued (the (live items i s)) g (tid (the (heap s (cpu s)))) (pending items s)
     else s' = (if g \<in> {SIG_KILL, SIG_UBLOCK, SIG_USR} then intr_off P s else s))"
  using pintos_kernel.kill_ok [OF assms(1,3-5), of "{}" i g] assms(2) by (auto simp: ok_total)

theorem sig_kill_witness:
  "\<exists>s'. kill ref_pintos 4 3 SIG_UBLOCK (sdemo 16384 (-1) INTR_ON) = Inr (0, s') \<and>
    pending fst s' = [\<lparr>sig = SIG_KILL, sender = 1, reciever = 12288\<rparr>, \<lparr>sig = SIG_UBLOCK, sender = 1, reciever = 16384\<rparr>,
      \<lparr>sig = SIG_UBLOCK, sender = 1, reciever = 12288\<rparr>]"
proof -
  have "live fst 3 (sdemo 16384 (-1) INTR_ON) = Some 12288" by (simp add: live_def)
  then have "may_send fst 3 SIG_UBLOCK (sdemo 16384 (-1) INTR_ON)"
    "queued (the (live fst 3 (sdemo 16384 (-1) INTR_ON))) SIG_UBLOCK 1 (pending fst (sdemo 16384 (-1) INTR_ON)) =
      [\<lparr>sig = SIG_KILL, sender = 1, reciever = 12288\<rparr>, \<lparr>sig = SIG_UBLOCK, sender = 1, reciever = 16384\<rparr>,
        \<lparr>sig = SIG_UBLOCK, sender = 1, reciever = 12288\<rparr>]"
    by (simp_all add: may_send_def queued_def key_def sdemo_pending)
  with sig_kill [OF ref_pintos_kernel ref_malloc sdemo_ok [of 16384 "-1" INTR_ON], of 4 3 SIG_UBLOCK]
  show ?thesis by auto
qed

text \<open>C14: SIG_KILL works: once `kill` of a thread with SIG_KILL has returned 0, along every further run of the system, whatever other calls,
  interrupts and signals come, that thread is never the running one again: it does not get back to its own code, wherever it is waiting, and
  no later thread gets its id.  As long as it is alive its SIG_KILL stays queued, and it dies in the switch that would let it run.\<close>

theorem sig_kill_works:
  assumes "pintos_kernel P items used blocks yielding" and "kernel_ok items used blocks s"
    and "enough_fuel items n k s" and "kill P n i SIG_KILL s = Inr (0, s')"
    and "(\<lambda>s s'. \<exists>op. sig_step P items used blocks op s s')\<^sup>*\<^sup>* s' s''"
  shows "\<exists>th. heap s'' (cpu s'') = Some th \<and> tid th \<noteq> i \<and>
    (\<forall>t \<in> set (items (all_list s'')). tid (the (heap s'' t)) = i \<longrightarrow> (\<exists>x \<in> set (pending items s''). sig x = SIG_KILL \<and> reciever x = t))"
proof -
  from assms(3) have fuel: "length (items (sig_list s)) \<le> n" "length (items (all_list s)) \<le> n" by (simp_all add: enough_fuel_def)
  from pintos_kernel.kill_dooms [OF assms(1,2) fuel assms(4)] pintos_kernel.sig_steps_doom [OF assms(1,5)]
  have "kernel_ok items used blocks s''" "doom items i {} s''" "tid (the (heap s'' (cpu s''))) \<noteq> i" by blast+
  then show ?thesis by (force elim: kernel_ok_current simp: doom_def key_def)
qed

theorem sig_kill_works_witness:
  "\<exists>s' s''. kill ref_pintos 6 3 SIG_KILL (sdemo 16384 (-1) INTR_ON) = Inr (0, s') \<and> thread_yield ref_pintos 6 4 s' = Inr s'' \<and>
    (\<exists>th. heap s'' (cpu s'') = Some th \<and> tid th \<noteq> 3)"
proof -
  let ?s = "sdemo 16384 (-1) INTR_ON" and ?step = "\<lambda>s s'. \<exists>op. sig_step ref_pintos fst ref_used ref_blocks op s s'"
  have live: "live fst 3 ?s = Some 12288" by (simp add: live_def)
  then have may: "may_send fst 3 SIG_KILL ?s" by (simp add: may_send_def)
  have "queued 12288 SIG_KILL 1 (pending fst ?s) = pending fst ?s" by (simp add: queued_def key_def sdemo_pending)
  with ref_kernel.kill_ok [OF sdemo_ok [of 16384 "-1" INTR_ON], of 6 "{}" 3 SIG_KILL] may live obtain s'
    where s': "kill ref_pintos 6 3 SIG_KILL ?s = Inr (0, s')" "kernel_ok fst ref_used ref_blocks s'"
      "signals_only ref_pintos ref_used ?s s'" "pending fst s' = pending fst ?s" by (auto simp: ok_total)
  have len: "length (fst (sig_list s')) = 2" using arg_cong [OF s'(4), of length] by (simp add: length_pending [of fst] sdemo_pending)
  have fuel: "enough_fuel fst 6 4 s'" using s'(3) len by (simp add: enough_fuel_def signals_only_def)
  have "settled fst {} s'" using s'(3,4) sdemo_settled [of INTR_ON] by (auto simp: settled_def signals_only_def)
  moreover have "\<not> intr_context ref_pintos (hw s')" using s'(3) by (simp add: signals_only_def)
  ultimately obtain s'' where run: "thread_yield ref_pintos 6 4 s' = Inr s''"
    using ref_kernel.sig_yield_ok [OF s'(2) _ fuel, of "{}"] ref_malloc by (auto simp: ok_total)
  then have "?step\<^sup>*\<^sup>* s' s''" using fuel by (blast intro: sig_step.yield)
  from sig_kill_works [OF ref_pintos_kernel sdemo_ok sdemo_fuel s'(1) this] s'(1) run show ?thesis by blast
qed

subsection \<open>Invariant\<close>

text \<open>C10: along every run from boot, whatever signals are sent, the state stays well formed: exactly the running
  thread is THREAD_RUNNING, every ready thread but the idle thread is in the ready list, thread ids differ, no list
  holds a freed thread, every queued signal is allocated, no receiver has two signals of the same kind
  queued, and no SIG_KILL is queued for the idle thread.\<close>

theorem sig_reachable_inv:
  assumes "pintos_kernel P items used blocks yielding"
    and "reach (sig_start P used) (\<lambda>s s'. \<exists>op. sig_step P items used blocks op s s') s"
  shows "kernel_ok items used blocks s"
  by (rule pintos_kernel.sig_reachable [OF assms])

theorem sig_reachable_inv_witness:
  "\<exists>s. sig_boot ref_pintos 0 0 100 200 sdemo_loaded = Inr s \<and> kernel_ok fst ref_used ref_blocks s"
proof -
  from ref_kernel.sig_boot_ok [OF sdemo_loaded, of 0 0 100 200] obtain s
    where b: "sig_boot ref_pintos 0 0 100 200 sdemo_loaded = Inr s" by blast
  with sdemo_loaded have "sig_start ref_pintos ref_used s" unfolding sig_start_def by blast
  from sig_reachable_inv [OF ref_pintos_kernel reach_start, OF this] b show ?thesis by blast
qed


subsection \<open>Delivery\<close>

text \<open>C12: one pass of `handleSignals` over the queue, when every queued SIG_UBLOCK is for a live thread open to it:
  the pass ends, removes exactly the signals it takes (SIG_UBLOCK of anyone, SIG_KILL and the unmasked signals
  of the thread that runs) and keeps the others in order; every blocked receiver of a SIG_UBLOCK
  becomes ready at the end of the ready list; `sigd` holds exactly the kinds taken for the thread that runs,
  and `sender` is that of the last SIG_USR taken.\<close>

theorem sig_delivery:
  assumes "pintos_kernel P items used blocks yielding" and "kernel_ok items used blocks s"
    and "length (items (sig_list s)) \<le> n" and "settled items {} s"
  shows "\<exists>sigd usr s'. take_signals P n (cpu s) s = Inr (sigd, usr, s') \<and> kernel_ok items used blocks s' \<and>
    pending items s' = filter (\<lambda>x. \<not> takes (heap s) (cpu s) x) (pending items s) \<and>
    items (ready_list s') = items (ready_list s) @ woken (heap s) (cpu s) (pending items s) \<and>
    heap s' = wake (woken (heap s) (cpu s) (pending items s)) (heap s) \<and>
    (\<forall>g. is_signal g \<longrightarrow> (checkBit sigd (ucast g) \<longleftrightarrow> gets (heap s) (cpu s) (pending items s) g)) \<and>
    usr = usr_sender (heap s) (cpu s) (pending items s)"
proof -
  from pintos_kernel.take_signals_ok [OF assms(1-3), of "{}"] assms(4) obtain sigd usr s'
    where run: "take_signals P n (cpu s) s = Inr (sigd, usr, s')"
      and p: "passed P items used blocks (cpu s) (items (sig_list s)) [] s (sigd, usr, s')"
    by (auto simp: ok_total)
  from p pintos_kernel.pending_passed [OF assms(1) p] pintos_kernel.passed_ok [OF assms(1,2) p] run
  show ?thesis by (auto simp: passed_def Let_def pending_def)
qed

theorem sig_delivery_witness:
  "\<exists>sigd usr s'. take_signals ref_pintos 4 4096 (sdemo 16384 (-1) INTR_OFF) = Inr (sigd, usr, s') \<and>
    pending fst s' = [\<lparr>sig = SIG_KILL, sender = 1, reciever = 12288\<rparr>] \<and> fst (ready_list s') = [12288, 16384]"
proof -
  have "settled fst {} (sdemo 16384 (-1) INTR_OFF)"
    using sdemo_settled by (rule settled_mono) simp
  from sig_delivery [OF ref_pintos_kernel sdemo_ok _ this, of 4]
  obtain sigd usr s' where "take_signals ref_pintos 4 4096 (sdemo 16384 (-1) INTR_OFF) = Inr (sigd, usr, s')"
    "pending fst s' = filter (\<lambda>x. \<not> takes (heap (sdemo 16384 (-1) INTR_OFF)) 4096 x) (pending fst (sdemo 16384 (-1) INTR_OFF))"
    "fst (ready_list s') = [12288] @ woken (heap (sdemo 16384 (-1) INTR_OFF)) 4096 (pending fst (sdemo 16384 (-1) INTR_OFF))"
    by (auto simp del: sdemo_sel(1))
  then show ?thesis
    by (auto simp: sdemo_pending takes_def woken_def open_to_ublock_def)
qed

subsection \<open>Switching\<close>

text \<open>`thread_yield` ends, and so does `thread_block` when interrupts are off: while `malloc` succeeds and every queued SIG_UBLOCK is for
  a live thread open to it, fuel for as many nested deaths as there are threads is enough, no ASSERT fails, and the thread that finally runs
  has nothing left to be delivered and is within its lifetime (or masks or ignores SIG_CPU).\<close>

theorem sig_yield_ends:
  assumes "pintos_kernel P items used blocks yielding" and "\<forall>h. fst (malloc P h) \<noteq> None"
    and "kernel_ok items used blocks s" and "\<not> intr_context P (hw s)"
    and "enough_fuel items n k s" and "settled items {} s"
  shows "(\<exists>s'. thread_yield P n k s = Inr s' \<and> kernel_ok items used blocks s' \<and> quiet items s') \<and>
    (intr_get_level P (hw s) = INTR_OFF \<longrightarrow>
      (\<exists>s'. thread_block P n k s = Inr s' \<and> kernel_ok items used blocks s' \<and> quiet items s'))"
  using pintos_kernel.sig_yield_ok [OF assms(1,3-5), of "{}"] pintos_kernel.sig_block_ok [OF assms(1,3,4) _ assms(5), of "{}"]
    assms(2,6) by (auto simp: ok_total)

theorem sig_yield_ends_witness:
  "(\<exists>s'. thread_yield ref_pintos 6 4 (sdemo 16384 (-1) INTR_ON) = Inr s' \<and> kernel_ok fst ref_used ref_blocks s' \<and> quiet fst s') \<and>
   (\<exists>s'. thread_block ref_pintos 6 4 (sdemo 16384 (-1) INTR_OFF) = Inr s' \<and> kernel_ok fst ref_used ref_blocks s' \<and> quiet fst s')"
proof -
  have settled: "settled fst {} (sdemo 16384 (-1) l)" for l
    using sdemo_settled by (rule settled_mono) simp
  note ends = sig_yield_ends [OF ref_pintos_kernel ref_malloc sdemo_ok _ sdemo_fuel settled]
  from ends [of INTR_ON] ends [of INTR_OFF] show ?thesis by simp
qed

text \<open>`thread_exit` ends too, though each death may switch to a thread that is killed at once: any thread but the
  idle thread that has no SIG_UBLOCK of its own queued can exit, and the kernel goes on with a live thread.\<close>

theorem sig_exit_ends:
  assumes "pintos_kernel P items used blocks yielding" and "\<forall>h. fst (malloc P h) \<noteq> None"
    and "kernel_ok items used blocks s" and "\<not> intr_context P (hw s)" and "idle_thread s \<noteq> Some (cpu s)"
    and "enough_fuel items n k s" and "settled items {cpu s} s"
  shows "\<exists>s'. exit_current P n k s = Inr s' \<and> kernel_ok items used blocks s' \<and> quiet items s'"
  using pintos_kernel.sig_exit_ok [OF assms(1,3-6), of "{}"] assms(2,7) by (auto simp: ok_total)

theorem sig_exit_ends_witness:
  "\<exists>s'. exit_current ref_pintos 6 4 (sdemo 16384 (-1) INTR_ON) = Inr s' \<and> kernel_ok fst ref_used ref_blocks s' \<and> quiet fst s'"
  using sdemo_settled sdemo_fuel
  by (intro sig_exit_ends [OF ref_pintos_kernel ref_malloc sdemo_ok]) simp_all

text \<open>C11: every way off the processor ends, though each switch delivers signals, whose handlers may end the thread just chosen and switch
  again: while `malloc` succeeds and every queued SIG_UBLOCK is for a live thread open to it, fuel for as many nested deaths as there are
  threads is enough for `thread_yield`, for `thread_block` when interrupts are off, and for `thread_exit` of any thread but the
  idle thread that has no SIG_UBLOCK of its own queued; no ASSERT fails, and the thread that finally runs has nothing left to be
  delivered and is within its lifetime (or masks or ignores SIG_CPU).\<close>

theorem sig_switch_ends:
  assumes "pintos_kernel P items used blocks yielding" and "\<forall>h. fst (malloc P h) \<noteq> None"
    and "kernel_ok items used blocks s" and "\<not> intr_context P (hw s)" and "enough_fuel items n k s" and "settled items {} s"
  shows "(\<exists>s'. thread_yield P n k s = Inr s' \<and> kernel_ok items used blocks s' \<and> quiet items s') \<and>
    (intr_get_level P (hw s) = INTR_OFF \<longrightarrow>
      (\<exists>s'. thread_block P n k s = Inr s' \<and> kernel_ok items used blocks s' \<and> quiet items s')) \<and>
    (idle_thread s \<noteq> Some (cpu s) \<and> settled items {cpu s} s \<longrightarrow>
      (\<exists>s'. exit_current P n k s = Inr s' \<and> kernel_ok items used blocks s' \<and> quiet items s'))"
  using sig_yield_ends [OF assms] sig_exit_ends [OF assms(1-4) _ assms(5)] by blast

theorem sig_switch_ends_witness:
  "(\<exists>s'. thread_yield ref_pintos 6 4 (sdemo 16384 (-1) INTR_OFF) = Inr s' \<and> quiet fst s') \<and>
   (\<exists>s'. thread_block ref_pintos 6 4 (sdemo 16384 (-1) INTR_OFF) = Inr s' \<and> quiet fst s') \<and>
   (\<exists>s'. exit_current ref_pintos 6 4 (sdemo 16384 (-1) INTR_OFF) = Inr s' \<and> quiet fst s')"
proof -
  have "settled fst {} (sdemo 16384 (-1) INTR_OFF)" using sdemo_settled by (rule settled_mono) simp
  with sig_switch_ends [OF ref_pintos_kernel ref_malloc sdemo_ok _ sdemo_fuel, of 16384 "-1" INTR_OFF] sdemo_settled [of INTR_OFF]
  show ?thesis by auto
qed

text \<open>C16: what can go wrong in a switch at all.  In every well-formed state outside an interrupt, whatever is queued, `thread_yield`, `thread_block` with
  interrupts off, and `thread_exit` of any thread but the idle thread either end, in a well-formed state with nothing left to be delivered to the
  thread that runs, or dereference a null pointer, which happens only if `malloc` can fail, or follow a pointer to freed memory, which happens only if some SIG_UBLOCK is
  queued for a thread that is freed, or masks or ignores it so that it stays queued, or for the exiting thread itself.  No ASSERT fails, and no loop or
  recursion runs on.\<close>

theorem sig_switch_faults:
  assumes "pintos_kernel P items used blocks yielding"
    and "kernel_ok items used blocks s" and "\<not> intr_context P (hw s)" and "enough_fuel items n k s"
    and "ends = (\<lambda>m. \<exists>s'. m = Inr s' \<and> kernel_ok items used blocks s' \<and> quiet items s')"
    and "no_memory = (\<lambda>m. m = Inl Null_deref \<and> (\<exists>h. fst (malloc P h) = None))"
    and "stale = (\<lambda>dying m. m = Inl Bad_deref \<and> (\<exists>x \<in> set (pending items s). sig x = SIG_UBLOCK \<and>
      (reciever x \<in> dying \<or> (case heap s (reciever x) of None \<Rightarrow> True | Some th \<Rightarrow> \<not> open_to_ublock th))))"
  shows "(ends (thread_yield P n k s) \<or> no_memory (thread_yield P n k s) \<or> stale {} (thread_yield P n k s)) \<and>
    (intr_get_level P (hw s) = INTR_OFF \<longrightarrow>
      ends (thread_block P n k s) \<or> no_memory (thread_block P n k s) \<or> stale {} (thread_block P n k s)) \<and>
    (idle_thread s \<noteq> Some (cpu s) \<longrightarrow>
      ends (exit_current P n k s) \<or> no_memory (exit_current P n k s) \<or> stale {cpu s} (exit_current P n k s))"
proof -
  define F where "F D = {f. f = Null_deref \<and> (\<exists>h. fst (malloc P h) = None) \<or> f = Bad_deref \<and> \<not> settled items D s}" for D
  have mem: "(\<forall>h. fst (malloc P h) \<noteq> None) \<or> Null_deref \<in> F D" and dead: "Bad_deref \<in> F D \<or> settled items D s" for D
    by (auto simp: F_def)
  have unsettled: "\<not> settled items D s \<longleftrightarrow> (\<exists>x \<in> set (pending items s). sig x = SIG_UBLOCK \<and>
      (reciever x \<in> D \<or> (case heap s (reciever x) of None \<Rightarrow> True | Some th \<Rightarrow> \<not> open_to_ublock th)))" for D
    by (auto simp: settled_def split: option.splits)
  have split: "ends m \<or> no_memory m \<or> stale D m"
    if "ok (F D) m (\<lambda>s'. kernel_ok items used blocks s' \<and> quiet items s')" for D m
    using that unfolding assms(5-7) by (cases m) (simp_all add: F_def flip: unsettled)
  show ?thesis
    by (intro conjI impI split)
      (auto intro!: pintos_kernel.sig_yield_ok [OF assms(1-4) mem dead] pintos_kernel.sig_block_ok [OF assms(1-3) _ assms(4) mem dead]
        pintos_kernel.sig_exit_ok [OF assms(1-3) _ assms(4) mem dead])
qed

theorem sig_switch_faults_witness:
  "thread_yield ref_pintos 6 4 (sdemo 20480 (-1) INTR_ON) \<noteq> Inl Panic \<and>
    exit_current ref_pintos 6 4 (sdemo 20480 (-1) INTR_ON) \<notin> {Inl Out_of_fuel, Inl Null_deref}"
  using sig_switch_faults [OF ref_pintos_kernel sdemo_ok [of 20480 "-1" INTR_ON] _ sdemo_fuel refl refl refl] ref_malloc by auto


text \<open>With nothing queued `thread_yield` is one step of round robin: the first of the ready list with the caller
  appended runs next, with a new time slice, and the others move up.\<close>

theorem sig_round_robin:
  assumes "pintos_kernel P items used blocks yielding"
    and "kernel_ok items used blocks s" and "\<not> intr_context P (hw s)" and "enough_fuel items n k s"
    and "pending items s = []" and "idle_thread s \<noteq> Some (cpu s)"
    and "items (ready_list s) @ [cpu s] = u # us" and "\<not> expired (the (heap s u)) (clock_count s)"
  shows "\<exists>s'. thread_yield P n k s = Inr s' \<and> kernel_ok items used blocks s' \<and> cpu s' = u \<and>
    items (ready_list s') = us \<and> thread_ticks s' = 0"
  by (rule pintos_kernel.sig_yield_plain [OF assms])

definition sdemo_none :: "(ref_list, ref_hw) kernel" where
  "sdemo_none = (sdemo 16384 (-1) INTR_ON)\<lparr>sig_list := ([], \<lambda>_. None)\<rparr>"

lemma sdemo_none: "kernel_ok fst ref_used ref_blocks sdemo_none" "pending fst sdemo_none = []"
proof -
  show p: "pending fst sdemo_none = []" by (simp add: pending_def sdemo_none_def)
  have "threads_ok fst ref_used (Some 4096) {} sdemo_none"
    by (rule threads_ok_frame [of _ _ _ _ "sdemo 16384 (-1) INTR_ON"])
      (use sdemo_ok [of 16384 "-1" INTR_ON] in \<open>simp_all add: kernel_ok_def sdemo_none_def\<close>)
  moreover have "signals_ok fst ref_blocks sdemo_none"
    using sdemo_ok [of 16384 "-1" INTR_ON] p by (simp add: kernel_ok_def signals_ok_def sdemo_none_def)
  ultimately show "kernel_ok fst ref_used ref_blocks sdemo_none"
    by (simp add: kernel_ok_def) (simp add: sdemo_none_def)
qed

theorem sig_round_robin_witness:
  "\<exists>s'. thread_yield ref_pintos 4 4 sdemo_none = Inr s' \<and> cpu s' = 12288 \<and> fst (ready_list s') = [4096]"
proof -
  have "\<not> intr_context ref_pintos (hw sdemo_none)" "enough_fuel fst 4 4 sdemo_none" "idle_thread sdemo_none \<noteq> Some (cpu sdemo_none)"
    "fst (ready_list sdemo_none) @ [cpu sdemo_none] = [12288, 4096]"
    "\<not> expired (the (heap sdemo_none 12288)) (clock_count sdemo_none)"
    by (simp_all add: sdemo_none_def enough_fuel_def expired_def)
  from sig_round_robin [OF ref_pintos_kernel sdemo_none(1) this(1,2) sdemo_none(2) this(3-5)] show ?thesis by blast
qed

text \<open>C17: use after free.  If a SIG_UBLOCK is queued for the running thread, neither the idle nor the initial one, when it exits outside an interrupt, then, as long
  as `malloc` succeeds, the run ends in a bad dereference: another thread gets the processor (state `s2`), the page of the exited thread has been freed, and the
  pass over the queue, done for the thread that now runs, comes to a SIG_UBLOCK `y` whose receiver it reads although that page is free; it is the one just freed or
  one that was free before.\<close>

theorem sig_exit_stale:
  assumes "pintos_kernel P items used blocks yielding"
    and "kernel_ok items used blocks s" and "\<not> intr_context P (hw s)"
    and "idle_thread s \<noteq> Some (cpu s)" and "initial_thread s \<noteq> Some (cpu s)"
    and "enough_fuel items n (Suc k) s" and "\<forall>h. fst (malloc P h) \<noteq> None"
    and "x \<in> set (pending items s)" and "sig x = SIG_UBLOCK" and "reciever x = cpu s"
  shows "thread_exit P n (Suc k) s = Inl Bad_deref \<and>
    (\<exists>s2 scpu ds e es z y. thread_exit P n (Suc k) s = handleSignals P n (thread_exit P n k) scpu s2 \<and>
      kernel_ok items used blocks s2 \<and> cpu s2 \<noteq> cpu s \<and> heap s2 (cpu s) = None \<and>
      items (sig_list s2) = ds @ e # es \<and> fold_res (\<lambda>_. False) (take_signal P (cpu s2)) ds (0, 0, s2) = Inr z \<and>
      take_signal P (cpu s2) e z = Inl Bad_deref \<and> sigs s2 e = Some y \<and> sig y = SIG_UBLOCK \<and> heap s2 (reciever y) = None \<and>
      (reciever y = cpu s \<or> heap s (reciever y) = None))"
  by (rule pintos_kernel.stale_receiver [OF assms]) (intro conjI exI; assumption)

theorem sig_exit_stale_witness:
  "thread_exit ref_pintos 6 (Suc 3) ((sdemo 4096 (-1) INTR_ON)\<lparr>initial_thread := Some 16384\<rparr>) = Inl Bad_deref"
proof -
  let ?s = "(sdemo 4096 (-1) INTR_ON)\<lparr>initial_thread := Some 16384\<rparr>"
  have p: "pending fst ?s = [\<lparr>sig = SIG_KILL, sender = 1, reciever = 12288\<rparr>, \<lparr>sig = SIG_UBLOCK, sender = 1, reciever = 4096\<rparr>]"
    by (simp add: pending_def)
  have "thread_ok fst (Some 4096) {} ?s t th" if "heap ?s t = Some th" for t th
    using that by (auto simp: thread_ok_def split: if_splits)
  then have "threads_ok fst ref_used (Some 4096) {} ?s"
    by (auto simp: threads_ok_def inj_on_def ref_used_def)
  moreover have "signals_ok fst ref_blocks ?s"
    by (auto simp: signals_ok_def p ref_blocks_def key_def signal_ok_def)
  ultimately have "kernel_ok fst ref_used ref_blocks ?s" by (simp add: kernel_ok_def)
  from sig_exit_stale [OF ref_pintos_kernel this, of 6 3 "\<lparr>sig = SIG_UBLOCK, sender = 1, reciever = 4096\<rparr>", THEN conjunct1]
  show ?thesis by (simp add: p enough_fuel_def)
qed

subsection \<open>Families\<close>

text \<open>C15: the loop of `thread_exit` over all threads: every child of the dying thread, and no other thread, gets the
  parent -1; if its parent lives, one SIG_CHLD is queued for the parent (an old one is renewed) and
  nothing else is queued.  Only if `malloc` can fail there is another outcome, and then only this one: the null pointer it gave is
  dereferenced.\<close>

theorem sig_exit_family:
  assumes "pintos_kernel P items used blocks yielding"
    and "kernel_ok items used blocks s" and "heap s (cpu s) = Some th"
    and "length (items (sig_list s)) \<le> n" and "length (items (all_list s)) \<le> n"
    and "family = for_each n (\<lambda>_. False) (\<lambda>s. list_next P (all_list s)) (leave_family P n (cpu s)) (list_begin P (all_list s)) s"
  shows "(\<exists>s'. family = Inr s' \<and>
      heap s' = orphan (tid th) (set (items (all_list s))) (heap s) \<and>
      pending items s' = tell_parent (live items (parent th) s) (pending items s) \<and>
      ready_list s' = ready_list s \<and> all_list s' = all_list s) \<or>
    family = Inl Null_deref \<and> (\<exists>h. fst (malloc P h) = None)"
proof -
  let ?F = "{f. f = Null_deref \<and> (\<exists>h. fst (malloc P h) = None)}"
  have "cpu s \<in> set (items (all_list s))" using assms(2) by (rule kernel_ok_current)
  moreover from assms(2) have "threads_ok items used (Some (cpu s)) {} s" "signals_ok items blocks s"
    by (simp_all add: kernel_ok_def)
  ultimately have "ok ?F family (left_family P items used blocks th (items (all_list s)) s)"
    unfolding assms(6) by (intro pintos_kernel.leave_family_ok [OF assms(1) _ _ assms(3) _ assms(4,5)]) auto
  then show ?thesis by (cases family) (auto simp: left_family_def signals_only_def live_def)
qed

theorem sig_exit_family_witness:
  "\<exists>s'. for_each 4 (\<lambda>_. False) (\<lambda>s. list_next ref_pintos (all_list s)) (leave_family ref_pintos 4 4096)
      (list_begin ref_pintos (all_list (sdemo 16384 (-1) INTR_OFF))) (sdemo 16384 (-1) INTR_OFF) = Inr s' \<and>
    map_option parent (heap s' 12288) = Some (-1) \<and> pending fst s' = pending fst (sdemo 16384 (-1) INTR_OFF)"
proof -
  have "live fst (-1) (sdemo 16384 (-1) INTR_OFF) = None" by (simp add: live_def find_None_iff)
  with sig_exit_family [OF ref_pintos_kernel sdemo_ok [of 16384 "-1" INTR_OFF] _ _ _ refl, of "sdemo_thread 1 THREAD_RUNNING (-1) (-1) []" 4]
  show ?thesis using ref_malloc by (auto simp: orphan_def tell_parent_def)
qed

text \<open>C18: `thread_create` on a valid priority, while ids are left (`next_tid` below the largest `int`), gives TID_ERROR and leaves the threads alone when no page is left, else a new id: the
  new thread is ready at the end of the list, is the creator's child, acts on every signal and masks none, has no lifetime,
  and the creator's count of children goes up by one.\<close>

theorem sig_create:
  assumes "pintos_kernel P items used blocks yielding"
    and "kernel_ok items used blocks s" and "next_tid s + 1 < 2 ^ 31" and "PRI_MIN \<le> prio" and "prio \<le> PRI_MAX"
    and "heap s (cpu s) = Some up"
  shows "\<exists>r s'. thread_create P (Some nm) prio (Some f) aux s = Inr (r, s') \<and> kernel_ok items used blocks s' \<and>
    pending items s' = pending items s \<and>
    r = (if fst (palloc_get_page P (hw s)) = None then TID_ERROR else next_tid s) \<and>
    (case fst (palloc_get_page P (hw s)) of
       None \<Rightarrow> heap s' = heap s \<and> ready_list s' = ready_list s
     | Some p \<Rightarrow> items (ready_list s') = items (ready_list s) @ [p] \<and>
         heap s' = (heap s)(cpu s \<mapsto> up\<lparr>child := child up + 1\<rparr>,
           p \<mapsto> (new_child P p (next_tid s) nm prio f aux (tid up) (clock_count s))\<lparr>status := THREAD_READY\<rparr>))"
proof -
  from pintos_kernel.sig_create_ok [OF assms(1-5), of nm f aux] obtain r s'
    where "thread_create P (Some nm) prio (Some f) aux s = Inr (r, s')" "kernel_ok items used blocks s'"
      "pending items s' = pending items s" "r = (if fst (palloc_get_page P (hw s)) = None then TID_ERROR else next_tid s)"
      "case fst (palloc_get_page P (hw s)) of
           None \<Rightarrow> heap s' = heap s \<and> ready_list s' = ready_list s \<and> all_list s' = all_list s
         | Some p \<Rightarrow> items (ready_list s') = items (ready_list s) @ [p] \<and> items (all_list s') = items (all_list s) @ [p] \<and>
             heap s' = (heap s)(cpu s \<mapsto> (the (heap s (cpu s)))\<lparr>child := child (the (heap s (cpu s))) + 1\<rparr>,
               p \<mapsto> (new_child P p (next_tid s) nm prio f aux (tid (the (heap s (cpu s)))) (clock_count s))
                 \<lparr>status := THREAD_READY\<rparr>)" .
  with assms(6) show ?thesis
    by (intro exI [of _ r] exI [of _ s']) (simp split: option.splits)
qed

theorem sig_create_witness:
  "\<exists>s'. thread_create ref_pintos (Some ''w'') 31 (Some 7) 0 (sdemo 16384 (-1) INTR_ON) = Inr (5, s') \<and>
    fst (ready_list s') = [12288, 20480] \<and> map_option parent (heap s' 20480) = Some 1"
proof -
  have "fst (palloc_get_page ref_pintos (hw (sdemo 16384 (-1) INTR_ON))) = Some 20480"
    by (simp add: ref_get_page_def)
  with sig_create [OF ref_pintos_kernel sdemo_ok [of 16384 "-1" INTR_ON], of 31 "sdemo_thread 1 THREAD_RUNNING (-1) (-1) []" "''w''" 7 0]
  show ?thesis by (auto simp: PRI_MIN_def PRI_MAX_def new_child_def)
qed

subsection \<open>Boot\<close>

text \<open>C19: booting from what the loader leaves succeeds: `thread_init`, `thread_start` and the idle thread's first code end in
  a well-formed state with no signal queued, in which the idle thread runs with interrupts on and without a parent,
  and the initial thread is ready with no children counted: the -1 it starts with is made up for by the
  idle thread.\<close>

theorem sig_boots:
  assumes "pintos_kernel P items used blocks yielding" and "sig_loaded P used s"
  shows "\<exists>s' p m. sig_boot P n k code aux s = Inr s' \<and> kernel_ok items used blocks s' \<and> cpu s' = p \<and>
    idle_thread s' = Some p \<and> items (ready_list s') = [cpu s] \<and> items (sig_list s') = [] \<and>
    items (all_list s') = [cpu s, p] \<and> intr_get_level P (hw s') = INTR_ON \<and>
    heap s' (cpu s) = Some m \<and> child m = 0 \<and> parent m = -1"
  by (rule pintos_kernel.sig_boot_ok [OF assms, of n k code aux]) blast

theorem sig_boots_witness:
  "\<exists>s' p. sig_boot ref_pintos 0 0 100 200 sdemo_loaded = Inr s' \<and> idle_thread s' = Some p \<and> fst (ready_list s') = [4096]"
proof -
  have "cpu sdemo_loaded = 4096" by (simp add: sdemo_loaded_def)
  with sig_boots [OF ref_pintos_kernel sdemo_loaded, of 0 0 100 200] show ?thesis by auto
qed

end
