(* ===== verification/Libc_Text.thy ===== *)
theory Libc_Text
  imports Prelude
begin

text \<open>
  What the command-line programs use of the C library's text handling: `isspace`, the conversions
  `%s` and `%d` of `scanf` and `%d` of `printf`.  Text is a list of characters; a C string ends where
  the list ends.
\<close>

definition is_space :: "char \<Rightarrow> bool" where
  "is_space c \<longleftrightarrow> c \<in> {CHR 0x20, CHR 0x09, CHR 0x0A, CHR 0x0B, CHR 0x0C, CHR 0x0D}"

definition is_digit :: "char \<Rightarrow> bool" where
  "is_digit c \<longleftrightarrow> 48 \<le> (of_char c :: nat) \<and> (of_char c :: nat) \<le> 57"

definition skip_ws :: "string \<Rightarrow> string" where
  "skip_ws s = dropWhile is_space s"

text \<open>`%s`: `None` is the input failure at the end of the stream.\<close>

definition scan_word :: "string \<Rightarrow> (string \<times> string) option" where
  "scan_word s =
     (let s = skip_ws s in
      if s = [] then None else Some (takeWhile (Not \<circ> is_space) s, dropWhile (Not \<circ> is_space) s))"

definition digit_val :: "char \<Rightarrow> nat" where
  "digit_val c = of_char c - 48"

definition nat_val :: "string \<Rightarrow> nat" where
  "nat_val ds = foldl (\<lambda>a c. 10 * a + digit_val c) 0 ds"

text \<open>`%d`: a sign is consumed even when no digit follows.\<close>

definition scan_int :: "string \<Rightarrow> int option \<times> string" where
  "scan_int s =
     (let s = skip_ws s;
          neg = (s \<noteq> [] \<and> hd s = CHR ''-'');
          d = (if s \<noteq> [] \<and> hd s \<in> {CHR ''-'', CHR ''+''} then tl s else s);
          ds = takeWhile is_digit d
      in if ds = [] then (None, d)
         else (Some (if neg then - int (nat_val ds) else int (nat_val ds)), dropWhile is_digit d))"

definition digit_char :: "nat \<Rightarrow> char" where
  "digit_char n = char_of (48 + n)"

fun show_nat :: "nat \<Rightarrow> string" where
  "show_nat n = (if n < 10 then [digit_char n] else show_nat (n div 10) @ [digit_char (n mod 10)])"

declare show_nat.simps [simp del]

definition show_int :: "int \<Rightarrow> string" where
  "show_int n = (if n < 0 then CHR ''-'' # show_nat (nat (- n)) else show_nat (nat n))"

definition int_range :: "int \<Rightarrow> bool" where
  "int_range n \<longleftrightarrow> - (2 ^ 31) \<le> n \<and> n < 2 ^ 31"

subsection \<open>Reading back what was printed\<close>

lemma of_digit_char: "n < 10 \<Longrightarrow> (of_char (digit_char n) :: nat) = 48 + n"
  by (simp add: digit_char_def)

lemma digit_chars [simp]:
  "char_of (48 :: nat) = CHR ''0''" "char_of (49 :: nat) = CHR ''1''" "char_of (50 :: nat) = CHR ''2''"
  "char_of (51 :: nat) = CHR ''3''" "char_of (52 :: nat) = CHR ''4''" "char_of (53 :: nat) = CHR ''5''"
  "char_of (54 :: nat) = CHR ''6''" "char_of (55 :: nat) = CHR ''7''" "char_of (56 :: nat) = CHR ''8''"
  "char_of (57 :: nat) = CHR ''9''"
  by (simp_all add: char_of_def bit_iff_odd)

lemma digit_char_facts [simp]:
  "n < 10 \<Longrightarrow> is_digit (digit_char n)" "n < 10 \<Longrightarrow> digit_val (digit_char n) = n"
  by (simp_all add: is_digit_def digit_val_def of_digit_char)

lemma digit_not_space: "is_digit c \<Longrightarrow> \<not> is_space c"
  by (auto simp: is_digit_def is_space_def)

lemma digit_not_sign: "is_digit c \<Longrightarrow> c \<noteq> CHR ''-'' \<and> c \<noteq> CHR ''+''"
  by (auto simp: is_digit_def)

lemma nat_val_snoc: "nat_val (ds @ [c]) = 10 * nat_val ds + digit_val c"
  by (simp add: nat_val_def)

lemma show_nat_facts: "show_nat n \<noteq> [] \<and> (\<forall>c \<in> set (show_nat n). is_digit c) \<and> nat_val (show_nat n) = n"
proof (induction n rule: show_nat.induct)
  case (1 n)
  show ?case
  proof (cases "n < 10")
    case True
    then show ?thesis by (simp add: show_nat.simps [of n] nat_val_def)
  next
    case False
    with 1 show ?thesis by (simp add: show_nat.simps [of n] nat_val_snoc)
  qed
qed

lemma takeWhile_stop: "(\<forall>x \<in> set xs. p x) \<Longrightarrow> ys = [] \<or> \<not> p (hd ys) \<Longrightarrow> takeWhile p (xs @ ys) = xs"
  by (cases ys) (auto simp: takeWhile_append)

lemma dropWhile_stop: "(\<forall>x \<in> set xs. p x) \<Longrightarrow> ys = [] \<or> \<not> p (hd ys) \<Longrightarrow> dropWhile p (xs @ ys) = ys"
  by (cases ys) (auto simp: dropWhile_append)

lemma skip_ws_word: "xs \<noteq> [] \<Longrightarrow> \<not> is_space (hd xs) \<Longrightarrow> skip_ws (xs @ ys) = xs @ ys"
  by (cases xs) (simp_all add: skip_ws_def)

lemma skip_ws_Cons [simp]: "is_space c \<Longrightarrow> skip_ws (c # xs) = skip_ws xs"
  by (simp add: skip_ws_def)

definition word_ok :: "string \<Rightarrow> bool" where
  "word_ok w \<longleftrightarrow> w \<noteq> [] \<and> (\<forall>c \<in> set w. \<not> is_space c)"

lemma scan_word_eq:
  assumes "word_ok w" and "rest = [] \<or> is_space (hd rest)"
  shows "scan_word (w @ rest) = Some (w, rest)"
proof -
  from assms(1) have "skip_ws (w @ rest) = w @ rest" by (intro skip_ws_word) (simp_all add: word_ok_def)
  with assms show ?thesis
    by (cases rest) (simp_all add: scan_word_def word_ok_def takeWhile_stop dropWhile_stop)
qed

lemma scan_word_space [simp]: "is_space c \<Longrightarrow> scan_word (c # s) = scan_word s"
  by (simp add: scan_word_def)

lemma scan_int_space [simp]: "is_space c \<Longrightarrow> scan_int (c # s) = scan_int s"
  by (simp add: scan_int_def)

lemma scan_show_int:
  assumes "rest = [] \<or> \<not> is_digit (hd rest)"
  shows "scan_int (show_int n @ rest) = (Some n, rest)"
proof -
  obtain c ds where sh: "show_nat (nat (abs n)) = c # ds" and c: "is_digit c"
    using show_nat_facts [of "nat (abs n)"] by (cases "show_nat (nat (abs n))") auto
  note facts = show_nat_facts [of "nat (abs n)", unfolded sh]
  have digits: "takeWhile is_digit (c # ds @ rest) = c # ds" "dropWhile is_digit (c # ds @ rest) = rest"
    using facts assms takeWhile_stop [of "c # ds" is_digit rest] dropWhile_stop [of "c # ds" is_digit rest] by simp_all
  show ?thesis
  proof (cases "n < 0")
    case True
    have "skip_ws (show_int n @ rest) = CHR ''-'' # c # ds @ rest"
      using True sh by (simp add: show_int_def skip_ws_def is_space_def)
    with True facts digits show ?thesis by (simp add: scan_int_def Let_def)
  next
    case False
    have "skip_ws (show_int n @ rest) = c # ds @ rest"
      using False sh c digit_not_space [OF c] by (simp add: show_int_def skip_ws_def)
    with False facts digits digit_not_sign [OF c] show ?thesis by (simp add: scan_int_def Let_def)
  qed
qed

end
