(* ===== verification/Records.thy ===== *)
theory Records
  imports Libc_Text
begin

text \<open>
  `Querying and updation`: the record server `X.c`, the client `Y.c` and `clean.c`.  The shared memory
  segment is a list of 101 records, the file a text; `fl` converts between text and the C type
  `float`, which stays the type 'f.  Each program is translated for itself, with a round of each of its loops as a
  definition of its own; `Records_System` runs them together, round by round.
\<close>

subsection \<open>Data\<close>

record 'f student =
  First_Name :: string
  last_Name :: string
  roll :: int
  CG :: 'f

text \<open>`%f` of `scanf`, which gives the value and the rest of the text, and of `printf`.\<close>

record 'f float_text =
  scan_float :: "string \<Rightarrow> 'f option \<times> string"
  show_float :: "'f \<Rightarrow> string"

definition NAME_SIZE :: nat where "NAME_SIZE = 20"
definition SEGMENT :: nat where "SEGMENT = 101"

text \<open>`s_shared[i]` read and written.\<close>

definition entry :: "'f student list \<Rightarrow> nat \<Rightarrow> 'f student res" where
  "entry tbl i = (if i < length tbl then Inr (tbl ! i) else Inl Out_of_bounds)"

definition put :: "nat \<Rightarrow> ('f student \<Rightarrow> 'f student) \<Rightarrow> 'f student list \<Rightarrow> 'f student list res" where
  "put i g tbl = (if i < length tbl then Inr (tbl[i := g (tbl ! i)]) else Inl Out_of_bounds)"

subsection \<open>X: loading\<close>

text \<open>
  `fscanf (fin, "%s %s %d %f", ...)` into record `i`: the conversions up to the first that fails are
  stored.  A name of `NAME_SIZE` characters or more overruns its array, an integer out of range is
  undefined.
\<close>

definition scan_name :: "((string \<Rightarrow> string) \<Rightarrow> 'f student \<Rightarrow> 'f student) \<Rightarrow> nat \<Rightarrow> 'f student list \<Rightarrow> string
    \<Rightarrow> ('f student list \<times> string) res \<Rightarrow> ('f student list \<Rightarrow> string \<Rightarrow> ('f student list \<times> string) res)
    \<Rightarrow> ('f student list \<times> string) res" where
  "scan_name upd i tbl s fail k =
     (case scan_word s of
        None \<Rightarrow> fail
      | Some (w, s) \<Rightarrow>
          if length w < NAME_SIZE then bind (put i (upd (\<lambda>_. w)) tbl) (\<lambda>tbl. k tbl s)
          else Inl Out_of_bounds)"

definition scan_record ::
  "'f float_text \<Rightarrow> nat \<Rightarrow> 'f student list \<Rightarrow> string \<Rightarrow> ('f student list \<times> string) res"
where
  "scan_record fl i tbl s =
     scan_name First_Name_update i tbl s (Inr (tbl, [])) (\<lambda>tbl s.
     scan_name last_Name_update i tbl s (Inr (tbl, [])) (\<lambda>tbl s.
     case scan_int s of
       (None, s) \<Rightarrow> Inr (tbl, s)
     | (Some n, s) \<Rightarrow>
         if int_range n then
           bind (put i (roll_update (\<lambda>_. n)) tbl) (\<lambda>tbl.
           case scan_float fl (skip_ws s) of
             (None, s) \<Rightarrow> Inr (tbl, s)
           | (Some x, s) \<Rightarrow> bind (put i (CG_update (\<lambda>_. x)) tbl) (\<lambda>tbl. Inr (tbl, s)))
         else Inl Signed_overflow))"

text \<open>
  `for (i = 0; !feof (fin); i++) fscanf (...)`.  After a call of `fscanf`, which always looks one
  character past what it converts, the end-of-file flag is set iff no text is left.
\<close>

fun load :: "'f float_text \<Rightarrow> nat \<Rightarrow> bool \<Rightarrow> nat \<Rightarrow> 'f student list \<Rightarrow> string \<Rightarrow> (nat \<times> 'f student list) res" where
  "load fl n True i tbl s = Inr (i, tbl)"
| "load fl 0 False i tbl s = Inl Out_of_fuel"
| "load fl (Suc n) False i tbl s =
     bind (scan_record fl i tbl s) (\<lambda>(tbl, s). load fl n (s = []) (Suc i) tbl s)"

definition show_record :: "'f float_text \<Rightarrow> 'f student \<Rightarrow> string" where
  "show_record fl r = First_Name r @ '' '' @ last_Name r @ '' '' @ show_int (roll r) @ '' '' @ show_float fl (CG r) @ ''\<newline>''"

text \<open>`for (i = 0; i < len; i++) printf (...)`.\<close>

fun print_records :: "'f float_text \<Rightarrow> nat \<Rightarrow> 'f student list \<Rightarrow> string res" where
  "print_records fl 0 tbl = Inr []"
| "print_records fl (Suc n) tbl =
     bind (print_records fl n tbl) (\<lambda>out. bind (entry tbl n) (\<lambda>r. Inr (out @ show_record fl r)))"

text \<open>X up to its endless loop: the number of records, the segment, and what it prints.\<close>

definition x_start :: "'f float_text \<Rightarrow> nat \<Rightarrow> 'f student list \<Rightarrow> string \<Rightarrow> (nat \<times> 'f student list \<times> string) res" where
  "x_start fl fuel tbl file =
     bind (load fl fuel False 0 tbl file) (\<lambda>(i, tbl).
     let len = i - 1 in
     bind (put len (roll_update (\<lambda>_. -1)) tbl) (\<lambda>tbl.
     bind (print_records fl len tbl) (\<lambda>out. Inr (len, tbl, out))))"

text \<open>
  `main` of X up to its endless loop.  `key`, `shm` and `key2` say whether `ftok` for the segment, `shmget` with `IPC_EXCL` and
  `ftok` for the semaphore succeed, `src` is the file if it can be opened, `tbl` the new segment; `None` when the
  program gives up.
\<close>

definition x_main :: "bool \<Rightarrow> bool \<Rightarrow> bool \<Rightarrow> 'f float_text \<Rightarrow> nat \<Rightarrow> 'f student list \<Rightarrow> string option
    \<Rightarrow> (nat \<times> 'f student list \<times> string) option res" where
  "x_main key shm key2 fl fuel tbl src =
     (if \<not> key then Inr None else if \<not> shm then Inr None else if \<not> key2 then Inr None
      else case src of None \<Rightarrow> Inr None | Some text \<Rightarrow> bind (x_start fl fuel tbl text) (\<lambda>r. Inr (Some r)))"

text \<open>
  One round of the endless loop: the file and the output afterwards.  Nothing is written unless
  the entry after the last record is marked -2, and the mark stays.
\<close>

definition x_check :: "nat \<Rightarrow> 'f student list \<Rightarrow> bool res" where
  "x_check len tbl = bind (entry tbl len) (\<lambda>r. Inr (roll r = -2))"

definition x_save :: "'f float_text \<Rightarrow> nat \<Rightarrow> 'f student list \<Rightarrow> (string \<times> string) res" where
  "x_save fl len tbl = bind (print_records fl len tbl) (\<lambda>out. Inr (out, out @ ''\<newline>successfully updated\<newline>''))"

definition x_round :: "'f float_text \<Rightarrow> nat \<Rightarrow> 'f student list \<Rightarrow> string \<Rightarrow> (string \<times> string) res" where
  "x_round fl len tbl file = bind (x_check len tbl) (\<lambda>marked. if marked then x_save fl len tbl else Inr (file, []))"

subsection \<open>Y: searching and updating\<close>

text \<open>
  The locals of `main` in Y, the text left on its standard input, the segment and what it has printed.
\<close>

record 'f client =
  choice :: int
  yroll :: int
  yCGPA :: 'f
  stdin :: string
  shm :: "'f student list"
  stdout :: string

definition say :: "string \<Rightarrow> 'f client \<Rightarrow> 'f client" where
  "say txt c = c\<lparr>stdout := stdout c @ txt\<rparr>"

text \<open>`scanf ("%d", &v)` and `scanf ("%f", &v)`: a failed conversion leaves the variable alone.\<close>

definition read_int :: "int \<Rightarrow> string \<Rightarrow> (int \<times> string) res" where
  "read_int old s =
     (case scan_int s of
        (None, s) \<Rightarrow> Inr (old, s)
      | (Some n, s) \<Rightarrow> if int_range n then Inr (n, s) else Inl Signed_overflow)"

definition read_roll :: "'f client \<Rightarrow> 'f client res" where
  "read_roll c = bind (read_int (yroll c) (stdin c)) (\<lambda>(n, s). Inr (c\<lparr>yroll := n, stdin := s\<rparr>))"

definition read_CGPA :: "'f float_text \<Rightarrow> 'f client \<Rightarrow> 'f client" where
  "read_CGPA fl c =
     (let (v, s) = scan_float fl (skip_ws (stdin c))
      in c\<lparr>yCGPA := (case v of None \<Rightarrow> yCGPA c | Some x \<Rightarrow> x), stdin := s\<rparr>)"

text \<open>`for (i = 0; s_shared[i].roll != -1; i++); length = i;`\<close>

fun y_length :: "nat \<Rightarrow> nat \<Rightarrow> 'f student list \<Rightarrow> nat res" where
  "y_length 0 i tbl = Inl Out_of_fuel"
| "y_length (Suc n) i tbl =
     bind (entry tbl i) (\<lambda>r. if roll r \<noteq> -1 then y_length n (Suc i) tbl else Inr i)"

text \<open>The line printed for a match has no newline.\<close>

definition match_text :: "'f float_text \<Rightarrow> 'f student \<Rightarrow> string" where
  "match_text fl r = First_Name r @ '' '' @ last_Name r @ '' '' @ show_int (roll r) @ '' '' @ show_float fl (CG r)"

text \<open>One round of the search at record `i`; `None` at the mark -1.\<close>

definition search_round :: "'f float_text \<Rightarrow> nat \<Rightarrow> bool \<Rightarrow> 'f client \<Rightarrow> (bool \<times> 'f client) option res" where
  "search_round fl i match c =
     bind (entry (shm c) i) (\<lambda>r.
     if roll r \<noteq> -1 then
       if roll r = yroll c then Inr (Some (True, say (match_text fl r) c))
       else Inr (Some (match, c))
     else Inr None)"

fun search_loop :: "'f float_text \<Rightarrow> nat \<Rightarrow> nat \<Rightarrow> bool \<Rightarrow> 'f client \<Rightarrow> (bool \<times> 'f client) res" where
  "search_loop fl 0 i match c = Inl Out_of_fuel"
| "search_loop fl (Suc n) i match c =
     bind (search_round fl i match c) (\<lambda>r. case r of
       None \<Rightarrow> Inr (match, c)
     | Some (match, c) \<Rightarrow> search_loop fl n (Suc i) match c)"

definition y_search :: "'f float_text \<Rightarrow> nat \<Rightarrow> 'f client \<Rightarrow> 'f client res" where
  "y_search fl fuel c =
     bind (read_roll (say ''Enter Roll_no to be searched: '' c)) (\<lambda>c.
     bind (search_loop fl fuel 0 False c) (\<lambda>(match, c).
     Inr (if \<not> match then say ''\<newline>NO match found\<newline>'' c else c)))"

text \<open>One round of the update at record `i`, which on a match also writes the roll number of entry `len`.\<close>

definition update_round :: "'f float_text \<Rightarrow> nat \<Rightarrow> nat \<Rightarrow> 'f client \<Rightarrow> 'f client option res" where
  "update_round fl len i c =
     bind (entry (shm c) i) (\<lambda>r.
     if roll r \<noteq> -1 then
       if roll r = yroll c then
         (let c = read_CGPA fl (say ''\<newline>update CGPA: '' (say (match_text fl r) c)) in
          bind (put i (CG_update (\<lambda>_. yCGPA c)) (shm c)) (\<lambda>tbl.
          bind (put len (roll_update (\<lambda>_. -2)) tbl) (\<lambda>tbl. Inr (Some (c\<lparr>shm := tbl\<rparr>)))))
       else Inr (Some c)
     else Inr None)"

fun update_loop :: "'f float_text \<Rightarrow> nat \<Rightarrow> nat \<Rightarrow> nat \<Rightarrow> 'f client \<Rightarrow> 'f client res" where
  "update_loop fl len 0 i c = Inl Out_of_fuel"
| "update_loop fl len (Suc n) i c =
     bind (update_round fl len i c) (\<lambda>r. case r of None \<Rightarrow> Inr c | Some c \<Rightarrow> update_loop fl len n (Suc i) c)"

definition y_update :: "'f float_text \<Rightarrow> nat \<Rightarrow> nat \<Rightarrow> 'f client \<Rightarrow> 'f client res" where
  "y_update fl fuel len c =
     bind (read_roll (say ''Enter corresponding Roll_no: '' c)) (update_loop fl len fuel 0)"

text \<open>
  The menu, whose choice keeps its value when the input is no number, and the loop around it; `rounds` is its fuel.
\<close>

definition y_choose :: "'f client \<Rightarrow> 'f client res" where
  "y_choose c =
     (let c = say ''\<newline>\<newline>Enter number:\<newline>1.Search\<newline>2.update\<newline>3.Exit\<newline>'' c in
      bind (read_int (choice c) (stdin c)) (\<lambda>(n, s). Inr (c\<lparr>choice := n, stdin := s\<rparr>)))"

fun y_menu :: "'f float_text \<Rightarrow> nat \<Rightarrow> nat \<Rightarrow> nat \<Rightarrow> 'f client \<Rightarrow> 'f client res" where
  "y_menu fl fuel len 0 c = Inl Out_of_fuel"
| "y_menu fl fuel len (Suc rounds) c =
     bind (y_choose c) (\<lambda>c.
     if choice c = 3 then Inr c
     else bind (if choice c = 1 then y_search fl fuel c else Inr c) (\<lambda>c.
          bind (if choice c = 2 then y_update fl fuel len c else Inr c)
          (y_menu fl fuel len rounds)))"

text \<open>
  The loop `do ... while (s_flag == -1)`: `shmget` is tried until the segment is there; an error other than `ENOENT` ends the
  program (`None`).  `found n` is the answer of attempt `n`.
\<close>

datatype attempt = Attached | Absent | Failed

fun y_attach :: "nat \<Rightarrow> (nat \<Rightarrow> attempt) \<Rightarrow> nat \<Rightarrow> unit option res" where
  "y_attach 0 found n = Inl Out_of_fuel"
| "y_attach (Suc fuel) found n =
     (case found n of
        Attached \<Rightarrow> Inr (Some ())
      | Failed \<Rightarrow> Inr None
      | Absent \<Rightarrow> y_attach fuel found (Suc n))"

text \<open>A client that waits for a segment that appears goes on, with fuel for the attempts until then.\<close>

lemma y_attach_appears:
  assumes "\<forall>i<m. found (n + i) = Absent" and "found (n + m) = Attached" and "m < fuel"
  shows "y_attach fuel found n = Inr (Some ())"
  using assms
proof (induction m arbitrary: n fuel)
  case 0
  then show ?case by (cases fuel) simp_all
next
  case (Suc m)
  then obtain f where fuel: "fuel = Suc f" by (cases fuel) auto
  have "found n = Absent" using Suc.prems(1) by force
  moreover have "y_attach f found (Suc n) = Inr (Some ())"
    using Suc.prems fuel by (intro Suc.IH) auto
  ultimately show ?case by (simp add: fuel)
qed

definition y_main :: "bool \<Rightarrow> (nat \<Rightarrow> attempt) \<Rightarrow> bool \<Rightarrow> 'f float_text \<Rightarrow> nat \<Rightarrow> nat \<Rightarrow> nat \<Rightarrow> 'f client \<Rightarrow> 'f client option res" where
  "y_main key found key2 fl tries fuel rounds c =
     (if \<not> key then Inr None
      else bind (y_attach tries found 0) (\<lambda>a. case a of
        None \<Rightarrow> Inr None
      | Some _ \<Rightarrow>
          if \<not> key2 then Inr None
          else bind (y_length fuel 0 (shm c)) (\<lambda>len. bind (y_menu fl fuel len rounds c) (\<lambda>c. Inr (Some c)))))"

subsection \<open>clean\<close>

text \<open>
  `main` of `clean.c`: whether there is a key, whether the segment was there (`shmget`), and whether removing it worked
  (`shmctl`); the counts printed, or `None` when it gives up.
\<close>

definition clean_main :: "bool \<Rightarrow> bool \<Rightarrow> bool \<Rightarrow> string option" where
  "clean_main key got removed =
     (if \<not> key then None
      else let el = (if got then 1 else 0 :: nat); cl = (if removed then 1 else 0 :: nat)
      in Some (''\<newline>Cleaned '' @ show_nat cl @ ''/'' @ show_nat el @ '' accessable shared memory segments.\<newline>''))"

end
