(* ===== verification/Records_Main.thy ===== *)
theory Records_Main
  imports Records
begin

text \<open>
  The properties of the record server and its client: loading undoes printing, a search finds
  exactly the matches, an update marks the segment and then runs off its end.
\<close>

subsection \<open>Loading what was printed\<close>

text \<open>What the C library must do with the CGPA of a record: reading the text `%f` gives back.\<close>

definition float_ok :: "'f float_text \<Rightarrow> 'f \<Rightarrow> bool" where
  "float_ok fl x \<longleftrightarrow> (\<forall>rest. rest = [] \<or> is_space (hd rest) \<longrightarrow>
     scan_float fl (skip_ws (show_float fl x @ rest)) = (Some x, rest))"

definition student_ok :: "'f float_text \<Rightarrow> 'f student \<Rightarrow> bool" where
  "student_ok fl r \<longleftrightarrow> word_ok (First_Name r) \<and> length (First_Name r) < NAME_SIZE \<and>
     word_ok (last_Name r) \<and> length (last_Name r) < NAME_SIZE \<and> int_range (roll r) \<and> float_ok fl (CG r)"

definition file_text :: "'f float_text \<Rightarrow> 'f student list \<Rightarrow> string" where
  "file_text fl rs = concat (map (show_record fl) rs)"

lemma space_simps [simp]: "is_space CHR '' ''" "is_space CHR ''\<newline>''" "\<not> is_digit CHR '' ''"
  by (simp_all add: is_space_def is_digit_def)

lemma scan_record_line:
  assumes ok: "student_ok fl r" and i: "i < length tbl" and rest: "rest = [] \<or> is_space (hd rest)"
  shows "scan_record fl i tbl (match_text fl r @ rest) = Inr (tbl[i := r], rest)"
proof -
  have "(tbl ! i)\<lparr>First_Name := First_Name r, last_Name := last_Name r, roll := roll r, CG := CG r\<rparr> = r"
    by simp
  then have "tbl[i := (tbl ! i)\<lparr>First_Name := First_Name r, last_Name := last_Name r, roll := roll r, CG := CG r\<rparr>] = tbl[i := r]"
    by (rule arg_cong)
  moreover have "scan_int (show_int (roll r) @ '' '' @ show_float fl (CG r) @ rest) =
      (Some (roll r), '' '' @ show_float fl (CG r) @ rest)"
    by (rule scan_show_int) simp
  moreover have "scan_float fl (skip_ws (show_float fl (CG r) @ rest)) = (Some (CG r), rest)"
    using ok rest unfolding student_ok_def float_ok_def by blast
  ultimately show ?thesis using ok i
    by (simp add: scan_record_def scan_name_def match_text_def scan_word_eq student_ok_def put_def)
qed

lemma show_match: "show_record fl r = match_text fl r @ ''\<newline>''"
  by (simp add: show_record_def match_text_def)

lemma scan_word_spaces: "\<forall>c \<in> set pre. is_space c \<Longrightarrow> scan_word (pre @ s) = scan_word s"
  by (induction pre) auto

lemma scan_record_spaces:
  assumes "\<forall>c \<in> set pre. is_space c"
  shows "scan_record fl i tbl (pre @ s) = scan_record fl i tbl s"
  using scan_word_spaces [OF assms] by (simp add: scan_record_def scan_name_def)

lemma scan_record_end: "\<forall>c \<in> set pre. is_space c \<Longrightarrow> scan_record fl i tbl pre = Inr (tbl, [])"
  using scan_record_spaces [of pre fl i tbl "[]"] by (simp add: scan_record_def scan_name_def scan_word_def skip_ws_def)

lemma place_step:
  assumes "i < length tbl"
  shows "take (Suc i) (tbl[i := r]) = take i tbl @ [r]" and "drop (Suc i) (tbl[i := r]) = drop (Suc i) tbl"
  using assms by (simp_all add: take_Suc_conv_app_nth)

text \<open>Reading the complete lines at the front of a text; what follows is read with the last newline before it.\<close>

lemma load_lines:
  assumes "\<forall>r \<in> set rs. student_ok fl r" and "i + length rs \<le> length tbl" and "\<forall>c \<in> set pre. is_space c"
  shows "\<exists>pre'. (\<forall>c \<in> set pre'. is_space c) \<and>
    load fl (length rs + n) False i tbl (pre @ file_text fl rs @ z) =
    load fl n False (i + length rs) (take i tbl @ rs @ drop (i + length rs) tbl) (pre' @ z)"
  using assms
proof (induction rs arbitrary: i tbl pre)
  case Nil
  then show ?case by (intro exI [of _ pre]) (simp add: file_text_def)
next
  case (Cons r rs)
  have line: "pre @ file_text fl (r # rs) @ z = pre @ (match_text fl r @ (''\<newline>'' @ file_text fl rs @ z))"
    by (simp add: file_text_def show_match)
  have "scan_record fl i tbl (pre @ file_text fl (r # rs) @ z) = Inr (tbl[i := r], ''\<newline>'' @ file_text fl rs @ z)"
    unfolding line scan_record_spaces [OF Cons.prems(3)] using Cons.prems by (intro scan_record_line) simp_all
  moreover from Cons.IH [of "Suc i" "tbl[i := r]" "''\<newline>''"] Cons.prems obtain pre' where
    "\<forall>c \<in> set pre'. is_space c"
    "load fl (length rs + n) False (Suc i) (tbl[i := r]) (''\<newline>'' @ file_text fl rs @ z) =
      load fl n False (Suc i + length rs) (take (Suc i) (tbl[i := r]) @ rs @ drop (Suc i + length rs) (tbl[i := r])) (pre' @ z)"
    by auto
  ultimately show ?case using Cons.prems
    by (intro exI [of _ pre']) (simp add: place_step)
qed

lemma print_records_eq:
  "n \<le> length tbl \<Longrightarrow> print_records fl n tbl = Inr (file_text fl (take n tbl))"
  by (induction n) (simp_all add: file_text_def entry_def take_Suc_conv_app_nth)

text \<open>The segment once X has loaded `rs`: the records, the mark, and the rest as it was.\<close>

definition loaded :: "'f student list \<Rightarrow> 'f student list \<Rightarrow> 'f student list" where
  "loaded rs tbl = rs @ (tbl ! length rs)\<lparr>roll := -1\<rparr> # drop (Suc (length rs)) tbl"

lemma x_start_lines:
  assumes "\<forall>r \<in> set rs. student_ok fl r" and "length rs < length tbl" and "length rs < fuel"
  shows "x_start fl fuel tbl (file_text fl rs) = Inr (length rs, loaded rs tbl, file_text fl rs)"
proof -
  let ?t = "rs @ drop (length rs) tbl"
  obtain n where n: "fuel = length rs + Suc n" using assms(3) less_imp_Suc_add by force
  from load_lines [of rs fl 0 tbl "[]" "Suc n" "[]"] assms obtain pre' where "\<forall>c \<in> set pre'. is_space c"
    "load fl fuel False 0 tbl (file_text fl rs) = load fl (Suc n) False (length rs) ?t pre'" by (auto simp: n)
  then have "load fl fuel False 0 tbl (file_text fl rs) = Inr (Suc (length rs), ?t)" by (simp add: scan_record_end)
  moreover have "?t[length rs := (?t ! length rs)\<lparr>roll := -1\<rparr>] = loaded rs tbl"
    using assms(2) by (simp add: loaded_def list_update_append Cons_nth_drop_Suc [symmetric])
  ultimately show ?thesis using assms(2) by (simp add: x_start_def put_def print_records_eq loaded_def Let_def)
qed

text \<open>C21: X loads what X writes: a file of at most 100 well-formed records, printed one per line, fills the first
  entries of the segment with exactly these records, puts the mark -1 after them and prints the same text; when a
  client has set the mark to -2, the next round writes that text back to the file, and otherwise leaves
  the file alone.\<close>

theorem records_roundtrip:
  assumes "\<forall>r \<in> set rs. student_ok fl r" and "length rs < SEGMENT" and "length tbl = SEGMENT" and "length rs < fuel"
  shows "\<exists>tbl'. x_start fl fuel tbl (file_text fl rs) = Inr (length rs, tbl', file_text fl rs) \<and>
    take (length rs) tbl' = rs \<and> length tbl' = SEGMENT \<and> roll (tbl' ! length rs) = -1 \<and>
    x_round fl (length rs) tbl' file = Inr (file, []) \<and>
    x_round fl (length rs) (tbl'[length rs := (tbl' ! length rs)\<lparr>roll := -2\<rparr>]) file =
      Inr (file_text fl rs, file_text fl rs @ ''\<newline>successfully updated\<newline>'')"
proof -
  let ?t' = "loaded rs tbl"
  have "take (length rs) ?t' = rs" "length ?t' = SEGMENT" using assms by (simp_all add: loaded_def)
  with x_start_lines [OF assms(1)] assms show ?thesis
    by (intro exI [of _ ?t']) (simp add: x_round_def x_check_def x_save_def entry_def print_records_eq loaded_def)
qed

text \<open>A `%f` for CGPAs, counted in millionths: six digits after the point.\<close>

fun digits :: "nat \<Rightarrow> nat \<Rightarrow> string" where
  "digits 0 m = []"
| "digits (Suc k) m = digits k (m div 10) @ [digit_char (m mod 10)]"

definition fixed_text :: "nat float_text" where
  "fixed_text = \<lparr>scan_float = (\<lambda>s. case scan_int s of
       (Some n, CHR ''.'' # r) \<Rightarrow> (Some (10 ^ 6 * nat n + nat_val (takeWhile is_digit r)), dropWhile is_digit r)
     | (_, r) \<Rightarrow> (None, r)),
     show_float = (\<lambda>x. show_nat (x div 10 ^ 6) @ ''.'' @ digits 6 (x mod 10 ^ 6))\<rparr>"

lemma digits_facts: "(\<forall>c \<in> set (digits k m). is_digit c) \<and> nat_val (digits k m) = m mod 10 ^ k"
proof (induction k arbitrary: m)
  case (Suc k)
  have "m mod (10 * 10 ^ k) = 10 * (m div 10 mod 10 ^ k) + m mod 10" by (rule mod_mult2_eq)
  with Suc show ?case by (simp add: nat_val_snoc)
qed (simp add: nat_val_def)

lemma fixed_text_ok: "float_ok fixed_text x"
  unfolding float_ok_def
proof (intro allI impI)
  fix rest :: string
  assume rest: "rest = [] \<or> is_space (hd rest)"
  let ?n = "x div 10 ^ 6" and ?ds = "digits 6 (x mod 10 ^ 6)"
  from show_nat_facts [of ?n] have "skip_ws (show_nat ?n @ ''.'' @ ?ds @ rest) = show_nat ?n @ ''.'' @ ?ds @ rest"
    by (intro skip_ws_word) (auto dest: digit_not_space)
  moreover have "scan_int (show_nat ?n @ ''.'' @ ?ds @ rest) = (Some (int ?n), ''.'' @ ?ds @ rest)"
    using scan_show_int [of "''.'' @ ?ds @ rest" "int ?n"] by (simp add: show_int_def is_digit_def)
  moreover have "takeWhile is_digit rest = []" "dropWhile is_digit rest = rest"
    using rest digit_not_space by (cases rest; force)+
  moreover note digits_facts [of 6 "x mod 10 ^ 6"]
  ultimately show "scan_float fixed_text (skip_ws (show_float fixed_text x @ rest)) = (Some x, rest)"
    by (simp add: fixed_text_def)
qed

definition akhilesh :: "nat student" where
  "akhilesh = \<lparr>First_Name = ''akhilesh'', last_Name = ''kumar'', roll = 1302, CG = 8200000\<rparr>"

definition manikya :: "nat student" where
  "manikya = \<lparr>First_Name = ''manikya'', last_Name = ''singh'', roll = 1523, CG = 6600000\<rparr>"

definition no_student :: "nat student" where
  "no_student = \<lparr>First_Name = [], last_Name = [], roll = 0, CG = 0\<rparr>"

lemma students_ok: "\<forall>r \<in> set [akhilesh, manikya]. student_ok fixed_text r"
  by (auto simp: student_ok_def akhilesh_def manikya_def word_ok_def NAME_SIZE_def int_range_def
      is_space_def fixed_text_ok)


theorem records_roundtrip_witness:
  "\<exists>tbl'. x_start fixed_text 3 (replicate 101 no_student) (file_text fixed_text [akhilesh, manikya]) =
      Inr (2, tbl', file_text fixed_text [akhilesh, manikya]) \<and>
    take 2 tbl' = [akhilesh, manikya] \<and> roll (tbl' ! 2) = -1"
  using records_roundtrip [OF students_ok, of "replicate 101 no_student" 3 "[]"]
  by (auto simp: SEGMENT_def numeral_2_eq_2)

text \<open>C22: a file whose last line does not end in a newline loses its last record: the loop stops at the end of the
  file one round earlier, and the mark -1 is written over that record.\<close>

theorem records_last_line:
  assumes "\<forall>r \<in> set (rs @ [r]). student_ok fl r" and "length rs < SEGMENT" and "length tbl = SEGMENT"
    and "Suc (length rs) < fuel"
  shows "\<exists>tbl'. x_start fl fuel tbl (file_text fl rs @ match_text fl r) = Inr (length rs, tbl', file_text fl rs) \<and>
    take (length rs) tbl' = rs \<and> tbl' ! length rs = r\<lparr>roll := -1\<rparr>"
proof -
  let ?t = "(rs @ drop (length rs) tbl)[length rs := r]"
  obtain n where n: "fuel = length rs + Suc n" using assms(4) less_imp_Suc_add by force
  from load_lines [of rs fl 0 tbl "[]" "Suc n" "match_text fl r"] assms obtain pre' where pre: "\<forall>c \<in> set pre'. is_space c"
    and "load fl fuel False 0 tbl (file_text fl rs @ match_text fl r) =
      load fl (Suc n) False (length rs) (rs @ drop (length rs) tbl) (pre' @ match_text fl r)" by (auto simp: n)
  moreover have "scan_record fl (length rs) (rs @ drop (length rs) tbl) (pre' @ match_text fl r @ []) = Inr (?t, [])"
    unfolding scan_record_spaces [OF pre] using assms by (intro scan_record_line) simp_all
  ultimately have "load fl fuel False 0 tbl (file_text fl rs @ match_text fl r) = Inr (Suc (length rs), ?t)" by simp
  then show ?thesis using assms
    by (intro exI [of _ "?t[length rs := r\<lparr>roll := -1\<rparr>]"])
      (simp add: x_start_def put_def print_records_eq Let_def)
qed

theorem records_last_line_witness:
  "\<exists>tbl'. x_start fixed_text 3 (replicate 101 no_student) (file_text fixed_text [akhilesh] @ match_text fixed_text manikya) =
      Inr (1, tbl', file_text fixed_text [akhilesh]) \<and> take 1 tbl' = [akhilesh] \<and> tbl' ! 1 = manikya\<lparr>roll := -1\<rparr>"
  using records_last_line [of "[akhilesh]" manikya fixed_text "replicate 101 no_student" 3] students_ok
  by (simp add: SEGMENT_def)

subsection \<open>Searching\<close>

lemma say_sel [simp]:
  "shm (say t c) = shm c" "yroll (say t c) = yroll c" "stdin (say t c) = stdin c" "stdout (say t c) = stdout c @ t"
  "yCGPA (say t c) = yCGPA c" "choice (say t c) = choice c"
  by (simp_all add: say_def)

lemma say_append [simp]: "say u (say t c) = say (t @ u) c"
  by (simp add: say_def)

lemma say_Nil [simp]: "say [] c = c"
  by (simp add: say_def)

lemma entry_split [simp]: "entry (xs @ r # ys) (length xs) = Inr r"
  by (simp add: entry_def)

lemma y_length_eq:
  "\<forall>r \<in> set rs. roll r \<noteq> -1 \<Longrightarrow> roll z = -1 \<Longrightarrow> length rs < n \<Longrightarrow>
    y_length n (length ds) (ds @ rs @ z # es) = Inr (length ds + length rs)"
proof (induction rs arbitrary: ds n)
  case Nil
  then obtain m where "n = Suc m" by (cases n) auto
  with Nil show ?case by simp
next
  case (Cons r rs)
  then obtain m where "n = Suc m" by (cases n) auto
  with Cons.prems Cons.IH [of m "ds @ [r]"] show ?case by simp
qed

lemmas loop_rounds = search_round_def update_round_def

lemma search_loop_eq:
  assumes "\<forall>r \<in> set rs. roll r \<noteq> -1" and "roll z = -1" and "length rs < n" and "shm c = ds @ rs @ z # es"
  shows "search_loop fl n (length ds) m c =
    (let found = filter (\<lambda>r. roll r = yroll c) rs
     in Inr (m \<or> found \<noteq> [], say (concat (map (match_text fl) found)) c))"
  using assms
proof (induction rs arbitrary: ds n m c)
  case Nil
  then obtain k where "n = Suc k" by (cases n) auto
  with Nil show ?case by (simp add: loop_rounds)
next
  case (Cons r rs)
  then obtain k where "n = Suc k" by (cases n) auto
  with Cons.prems Cons.IH [of k _ "ds @ [r]"] show ?case by (simp add: loop_rounds Let_def)
qed

text \<open>C23: a search reads a roll number and prints exactly the records with that roll number, all of them and in
  order, out of the records before the mark -1, or that there is no match; it changes no record and stops at the mark.
  Fuel of one round per record and one for the mark is enough.\<close>

theorem records_search:
  assumes "shm c = rs @ z # es" and "\<forall>r \<in> set rs. roll r \<noteq> -1" and "roll z = -1" and "length rs < fuel"
    and "scan_int (stdin c) = (Some y, rest)" and "int_range y"
  shows "y_length fuel 0 (shm c) = Inr (length rs) \<and>
    (\<exists>c'. y_search fl fuel c = Inr c' \<and> shm c' = shm c \<and> stdin c' = rest \<and>
      stdout c' = stdout c @ ''Enter Roll_no to be searched: '' @
        (let found = filter (\<lambda>r. roll r = y) rs
         in if found = [] then ''\<newline>NO match found\<newline>'' else concat (map (match_text fl) found)))"
proof -
  let ?c = "(say ''Enter Roll_no to be searched: '' c)\<lparr>yroll := y, stdin := rest\<rparr>"
  have "search_loop fl fuel 0 False ?c =
    (let found = filter (\<lambda>r. roll r = yroll ?c) rs in Inr (False \<or> found \<noteq> [], say (concat (map (match_text fl) found)) ?c))"
    using search_loop_eq [of rs z fuel ?c "[]" es fl False] assms(1-4) by simp
  then have "y_search fl fuel c = Inr (let found = filter (\<lambda>r. roll r = y) rs
      in if found = [] then say ''\<newline>NO match found\<newline>'' ?c else say (concat (map (match_text fl) found)) ?c)"
    using assms(5,6) by (simp add: y_search_def read_roll_def read_int_def Let_def)
  moreover have "y_length fuel 0 (shm c) = Inr (length rs)"
    using y_length_eq [of rs z fuel "[]" es] assms(1-4) by simp
  ultimately show ?thesis using assms(1) by (simp add: Let_def)
qed

definition ademo :: "nat client" where
  "ademo = \<lparr>choice = 0, yroll = 0, yCGPA = 0, stdin = ''1523 9.1'',
     shm = akhilesh # manikya # no_student\<lparr>roll := -1\<rparr> # replicate 98 no_student, stdout = []\<rparr>"

lemma ademo_scan: "scan_int (stdin ademo) = (Some 1523, '' 9.1'')" "int_range 1523"
proof -
  have "show_nat 1523 = ''1523''" by (simp add: show_nat.simps digit_char_def)
  then have "show_int 1523 = ''1523''" by (simp add: show_int_def)
  with scan_show_int [of "'' 9.1''" 1523] show "scan_int (stdin ademo) = (Some 1523, '' 9.1'')"
    by (simp add: ademo_def)
qed (simp add: int_range_def)

lemma ademo_shm: "shm ademo = [akhilesh, manikya] @ no_student\<lparr>roll := -1\<rparr> # replicate 98 no_student"
  "\<forall>r \<in> set [akhilesh, manikya]. roll r \<noteq> -1" "stdout ademo = []"
  by (simp_all add: ademo_def akhilesh_def manikya_def)

lemma demo_texts: "show_nat 1523 = ''1523''" "match_text fixed_text manikya = ''manikya singh 1523 6.600000''"
proof -
  show n: "show_nat 1523 = ''1523''" by (simp add: show_nat.simps digit_char_def)
  have six: "(6 :: nat) = Suc (Suc (Suc (Suc (Suc (Suc 0)))))" by simp
  have "digits 6 600000 = ''600000''" unfolding six by (simp add: digit_char_def)
  moreover have "show_nat 6 = ''6''" by (simp add: show_nat.simps digit_char_def)
  ultimately show "match_text fixed_text manikya = ''manikya singh 1523 6.600000''"
    by (simp add: match_text_def manikya_def fixed_text_def show_int_def n)
qed

theorem records_search_witness:
  "\<exists>c'. y_search fixed_text 3 ademo = Inr c' \<and> stdout c' = ''Enter Roll_no to be searched: manikya singh 1523 6.600000''"
proof -
  have f: "filter (\<lambda>r. roll r = 1523) [akhilesh, manikya] = [manikya]" by (simp add: akhilesh_def manikya_def)
  have "roll (no_student\<lparr>roll := -1\<rparr>) = -1" "length [akhilesh, manikya] < 3" by simp_all
  from records_search [OF ademo_shm(1,2) this ademo_scan, of fixed_text] obtain c'
    where "y_search fixed_text 3 ademo = Inr c'" and out: "stdout c' = stdout ademo @ ''Enter Roll_no to be searched: '' @
      (let found = filter (\<lambda>r. roll r = 1523) [akhilesh, manikya]
       in if found = [] then ''\<newline>NO match found\<newline>'' else concat (map (match_text fixed_text) found))" by blast
  moreover have "stdout c' = ''Enter Roll_no to be searched: manikya singh 1523 6.600000''"
    unfolding out f by (simp add: ademo_shm(3) demo_texts)
  ultimately show ?thesis by blast
qed

subsection \<open>Updating\<close>

lemma put_ok: "i < length tbl \<Longrightarrow> put i g tbl = Inr (tbl[i := g (tbl ! i)])"
  by (simp add: put_def)

lemma read_CGPA_sel [simp]: "shm (read_CGPA fl c) = shm c" "yroll (read_CGPA fl c) = yroll c"
  by (simp_all add: read_CGPA_def split_def Let_def)

text \<open>The segment after a match at `i`.\<close>

definition marked :: "'f float_text \<Rightarrow> nat \<Rightarrow> nat \<Rightarrow> 'f client \<Rightarrow> 'f client" where
  "marked fl len i c =
     (let d = read_CGPA fl (say (match_text fl (shm c ! i) @ ''\<newline>update CGPA: '') c);
          tbl = (shm c)[i := (shm c ! i)\<lparr>CG := yCGPA d\<rparr>]
      in d\<lparr>shm := tbl[len := (tbl ! len)\<lparr>roll := -2\<rparr>]\<rparr>)"

lemma update_match:
  assumes "i < length (shm c)" and "len < length (shm c)" and "roll (shm c ! i) = yroll c" and "roll (shm c ! i) \<noteq> -1"
  shows "update_loop fl len (Suc n) i c = update_loop fl len n (Suc i) (marked fl len i c)"
  using assms by (simp add: loop_rounds entry_def put_def marked_def Let_def)

lemma update_other:
  "i < length (shm c) \<Longrightarrow> roll (shm c ! i) \<noteq> yroll c \<Longrightarrow>
    update_loop fl len (Suc n) i c = (if roll (shm c ! i) = -1 then Inr c else update_loop fl len n (Suc i) c)"
  by (simp add: loop_rounds entry_def)

lemma update_outside: "\<not> i < length (shm c) \<Longrightarrow> update_loop fl len (Suc n) i c = Inl Out_of_bounds"
  by (simp add: loop_rounds entry_def)

lemma update_end: "i < length (shm c) \<Longrightarrow> roll (shm c ! i) = -1 \<Longrightarrow> update_loop fl len (Suc n) i c = Inr c"
  by (simp add: loop_rounds entry_def)

declare update_loop.simps [simp del]

lemma marked_sel [simp]: "length (shm (marked fl len i c)) = length (shm c)"
  "j \<noteq> i \<Longrightarrow> j \<noteq> len \<Longrightarrow> shm (marked fl len i c) ! j = shm c ! j"
  "len < length (shm c) \<Longrightarrow> roll (shm (marked fl len i c) ! len) = -2"
  by (simp_all add: marked_def Let_def)

text \<open>With no mark -1 ahead the loop runs off the segment.\<close>

lemma update_runs_off:
  assumes "\<forall>j. i \<le> j \<longrightarrow> j < length (shm c) \<longrightarrow> roll (shm c ! j) \<noteq> -1"
    and "len < length (shm c)" and "length (shm c) - i < n"
  shows "update_loop fl len n i c = Inl Out_of_bounds"
  using assms
proof (induction n arbitrary: i c)
  case (Suc n)
  show ?case
  proof (cases "i < length (shm c)")
    case False
    then show ?thesis by (rule update_outside)
  next
    case i: True
    show ?thesis
    proof (cases "roll (shm c ! i) = yroll c")
      case True
      have "roll (shm (marked fl len i c) ! j) \<noteq> -1" if "Suc i \<le> j" "j < length (shm c)" for j
        using Suc.prems that by (cases "j = len") simp_all
      then have "update_loop fl len n (Suc i) (marked fl len i c) = Inl Out_of_bounds"
        by (intro Suc.IH) (use Suc.prems i in auto)
      moreover have "roll (shm c ! i) \<noteq> -1" using i Suc.prems(1) by simp
      ultimately show ?thesis using update_match [OF i Suc.prems(2) True, of fl n] by simp
    next
      case False
      have "update_loop fl len n (Suc i) c = Inl Out_of_bounds"
        by (rule Suc.IH) (use Suc.prems i in auto)
      with False i show ?thesis using Suc.prems by (simp add: update_other)
    qed
  qed
qed simp

lemma update_skip:
  assumes "\<forall>r \<in> set xs. roll r \<noteq> -1 \<and> roll r \<noteq> yroll c" and "shm c = ds @ xs @ ys"
  shows "update_loop fl len (length xs + n) (length ds) c = update_loop fl len n (length ds + length xs) c"
  using assms
proof (induction xs arbitrary: ds)
  case (Cons x xs)
  from Cons.IH [of "ds @ [x]"] Cons.prems show ?case by (simp add: update_other)
qed simp

text \<open>C24: an update never ends well: without a match it changes nothing, but with one the first match overwrites the mark -1
  by -2, on which the loop does not stop, so it reads past the end of the segment, unless some entry after
  the mark happens to hold the roll number -1.\<close>

theorem records_update:
  assumes "shm c = rs @ z # es" and "\<forall>r \<in> set rs. roll r \<noteq> -1" and "roll z = -1" and "\<forall>r \<in> set es. roll r \<noteq> -1"
    and "length (shm c) < fuel" and "scan_int (stdin c) = (Some y, rest)" and "int_range y"
  shows "y_update fl fuel (length rs) c =
    (if \<exists>r \<in> set rs. roll r = y then Inl Out_of_bounds
     else Inr ((say ''Enter corresponding Roll_no: '' c)\<lparr>yroll := y, stdin := rest\<rparr>))"
proof -
  let ?c = "(say ''Enter corresponding Roll_no: '' c)\<lparr>yroll := y, stdin := rest\<rparr>"
  have run: "y_update fl fuel (length rs) c = update_loop fl (length rs) fuel 0 ?c"
    using assms(6,7) by (simp add: y_update_def read_roll_def read_int_def)
  show ?thesis
  proof (cases "\<exists>r \<in> set rs. roll r = y")
    case False
    obtain n where n: "fuel = length rs + Suc n" using assms(1,5) less_imp_Suc_add [of "length rs" fuel] by auto
    have "update_loop fl (length rs) (length rs + Suc n) 0 ?c = update_loop fl (length rs) (Suc n) (length rs) ?c"
      using update_skip [of rs ?c "[]" "z # es" fl "length rs" "Suc n"] False assms(1,2) by auto
    also have "\<dots> = Inr ?c" using assms(1,3) by (intro update_end) simp_all
    finally show ?thesis using False run [unfolded n] by (simp add: n)
  next
    case True
    from split_list_first_propE [OF True] obtain xs r ys
      where rs: "rs = xs @ r # ys" "roll r = y" "\<forall>x \<in> set xs. roll x \<noteq> y" by metis
    obtain n where n: "fuel = length xs + Suc n" using assms(1,5) rs(1) less_imp_Suc_add [of "length xs" fuel] by auto
    have "update_loop fl (length rs) (length xs + Suc n) 0 ?c = update_loop fl (length rs) (Suc n) (length xs) ?c"
      using update_skip [of xs ?c "[]" "r # ys @ z # es" fl "length rs" "Suc n"] rs assms(1,2) by auto
    also have "\<dots> = update_loop fl (length rs) n (Suc (length xs)) (marked fl (length rs) (length xs) ?c)"
      by (rule update_match) (use assms(1,2) rs in \<open>auto simp: nth_append\<close>)
    also have "\<dots> = Inl Out_of_bounds"
    proof (rule update_runs_off)
      have "roll (shm (marked fl (length rs) (length xs) ?c) ! j) \<noteq> -1" if "Suc (length xs) \<le> j" "j < length (shm c)" for j
      proof (cases "j = length rs")
        case True
        with assms(1) show ?thesis by simp
      next
        case False
        then have "shm c ! j \<in> set rs \<union> set es"
          using that assms(1) by (auto simp: nth_append nth_Cons split: nat.splits)
        with False that assms(2,4) show ?thesis by auto
      qed
      then show "\<forall>j. Suc (length xs) \<le> j \<longrightarrow> j < length (shm (marked fl (length rs) (length xs) ?c)) \<longrightarrow>
          roll (shm (marked fl (length rs) (length xs) ?c) ! j) \<noteq> -1" by simp
    qed (use assms(1,5) rs n in auto)
    finally show ?thesis using True run [unfolded n] by (simp add: n)
  qed
qed

theorem records_update_witness: "y_update fixed_text 102 2 ademo = Inl Out_of_bounds"
proof -
  have m: "\<exists>r \<in> set [akhilesh, manikya]. roll r = 1523" by (simp add: manikya_def)
  have "roll (no_student\<lparr>roll := -1\<rparr>) = -1" "\<forall>r \<in> set (replicate 98 no_student). roll r \<noteq> -1"
    "length (shm ademo) < 102" by (simp_all add: no_student_def ademo_def)
  from records_update [OF ademo_shm(1,2) this ademo_scan, of fixed_text]
  have "y_update fixed_text 102 (length [akhilesh, manikya]) ademo = Inl Out_of_bounds" unfolding if_P [OF m] .
  then show ?thesis by (simp add: numeral_2_eq_2)
qed

end
