(* ===== verification/Records_System.thy ===== *)
theory Records_System
  imports Records_Main
begin

text \<open>
  X and its clients together: the server, from the moment it has made the segment, and any number of clients, each started at any
  time and with any input, interleaved.  They share the segment, the file and the semaphore `mute`.  A step is one
  round of a loop, one menu choice, or one semaphore operation; a wrong access ends the process it happens in.
\<close>

subsection \<open>State and steps\<close>

datatype x_pc = X_semget | X_load nat string bool | X_print | X_sleep | X_P | X_save | X_V | X_crashed

datatype y_pc = Y_count nat | Y_choose | Y_search nat bool | Y_P | Y_ask | Y_update nat | Y_V | Y_exited | Y_crashed

text \<open>
  A client process: its locals, its `length`, where it stands, and whether its `semget` has found a semaphore; its view of the segment is
  the shared one.
\<close>

record 'f process =
  me :: "'f client"
  counted :: nat
  y_at :: y_pc
  has_sem :: bool

text \<open>`made`: whether the semaphore exists.  `x_len` is `len` of X, `saved` the file.\<close>

record 'f shop =
  s_shared :: "'f student list"
  made :: bool
  mute :: nat
  saved :: string
  x_at :: x_pc
  x_len :: nat
  x_out :: string
  ys :: "'f process list"

text \<open>
  X: making the semaphore with the value 1 and opening the file, which is there; a round of the loop that loads; the mark; printing; and
  the rounds of the endless loop.
\<close>

definition x_step :: "'f float_text \<Rightarrow> 'f shop \<Rightarrow> 'f shop option" where
  "x_step fl s =
     (case x_at s of
        X_semget \<Rightarrow> Some (s\<lparr>made := True, mute := 1, x_at := X_load 0 (saved s) False\<rparr>)
      | X_load i text eof \<Rightarrow>
          if eof then
            (case put (i - 1) (roll_update (\<lambda>_. -1)) (s_shared s) of
               Inl e \<Rightarrow> Some (s\<lparr>x_at := X_crashed\<rparr>)
             | Inr tbl \<Rightarrow> Some (s\<lparr>s_shared := tbl, x_len := i - 1, x_at := X_print\<rparr>))
          else
            (case scan_record fl i (s_shared s) text of
               Inl e \<Rightarrow> Some (s\<lparr>x_at := X_crashed\<rparr>)
             | Inr (tbl, text) \<Rightarrow> Some (s\<lparr>s_shared := tbl, x_at := X_load (Suc i) text (text = [])\<rparr>))
      | X_print \<Rightarrow>
          (case print_records fl (x_len s) (s_shared s) of
             Inl e \<Rightarrow> Some (s\<lparr>x_at := X_crashed\<rparr>)
           | Inr out \<Rightarrow> Some (s\<lparr>x_out := x_out s @ out, x_at := X_sleep\<rparr>))
      | X_sleep \<Rightarrow>
          (case x_check (x_len s) (s_shared s) of
             Inl e \<Rightarrow> Some (s\<lparr>x_at := X_crashed\<rparr>)
           | Inr updated \<Rightarrow> Some (if updated then s\<lparr>x_at := X_P\<rparr> else s))
      | X_P \<Rightarrow> if mute s = 0 then None else Some (s\<lparr>mute := mute s - 1, x_at := X_save\<rparr>)
      | X_save \<Rightarrow>
          (case x_save fl (x_len s) (s_shared s) of
             Inl e \<Rightarrow> Some (s\<lparr>x_at := X_crashed\<rparr>)
           | Inr (text, out) \<Rightarrow> Some (s\<lparr>saved := text, x_out := x_out s @ out, x_at := X_V\<rparr>))
      | X_V \<Rightarrow> Some (s\<lparr>mute := mute s + 1, x_at := X_sleep\<rparr>)
      | X_crashed \<Rightarrow> None)"

text \<open>What a client does next on its own: the process afterwards, its view of the segment included.\<close>

definition choose_step :: "'f process \<Rightarrow> 'f process res" where
  "choose_step p =
     bind (y_choose (me p)) (\<lambda>c.
     if choice c = 3 then Inr (p\<lparr>me := c, y_at := Y_exited\<rparr>)
     else if choice c = 1 then
       bind (read_roll (say ''Enter Roll_no to be searched: '' c)) (\<lambda>c. Inr (p\<lparr>me := c, y_at := Y_search 0 False\<rparr>))
     else if choice c = 2 then Inr (p\<lparr>me := c, y_at := Y_P\<rparr>)
     else Inr (p\<lparr>me := c\<rparr>))"

definition y_local :: "'f float_text \<Rightarrow> 'f process \<Rightarrow> 'f process res" where
  "y_local fl p =
     (let c = me p in
      case y_at p of
        Y_count i \<Rightarrow>
          bind (entry (shm c) i) (\<lambda>r.
          Inr (if roll r \<noteq> -1 then p\<lparr>y_at := Y_count (Suc i)\<rparr> else p\<lparr>counted := i, y_at := Y_choose\<rparr>))
      | Y_choose \<Rightarrow> choose_step p
      | Y_search i match \<Rightarrow>
          bind (search_round fl i match c) (\<lambda>r. Inr (case r of
            Some (match, c) \<Rightarrow> p\<lparr>me := c, y_at := Y_search (Suc i) match\<rparr>
          | None \<Rightarrow> p\<lparr>me := (if \<not> match then say ''\<newline>NO match found\<newline>'' c else c), y_at := Y_choose\<rparr>))
      | Y_ask \<Rightarrow>
          bind (read_roll (say ''Enter corresponding Roll_no: '' c)) (\<lambda>c. Inr (p\<lparr>me := c, y_at := Y_update 0\<rparr>))
      | Y_update i \<Rightarrow>
          bind (update_round fl (counted p) i c) (\<lambda>r. Inr (case r of
            Some c \<Rightarrow> p\<lparr>me := c, y_at := Y_update (Suc i)\<rparr>
          | None \<Rightarrow> p\<lparr>y_at := Y_V\<rparr>))
      | _ \<Rightarrow> Inr p)"

text \<open>A step of client `k`.  Without a semaphore the calls of `semop` fail at once, and the client does not look at their results.\<close>

definition y_step :: "'f float_text \<Rightarrow> nat \<Rightarrow> 'f shop \<Rightarrow> 'f shop option" where
  "y_step fl k s =
     (if length (ys s) \<le> k then None
      else let p = ys s ! k; become = (\<lambda>p. (ys s)[k := p]) in
      case y_at p of
        Y_P \<Rightarrow>
          if \<not> has_sem p then Some (s\<lparr>ys := become (p\<lparr>y_at := Y_ask\<rparr>)\<rparr>)
          else if mute s = 0 then None
          else Some (s\<lparr>mute := mute s - 1, ys := become (p\<lparr>y_at := Y_ask\<rparr>)\<rparr>)
      | Y_V \<Rightarrow>
          if \<not> has_sem p then Some (s\<lparr>ys := become (p\<lparr>y_at := Y_choose\<rparr>)\<rparr>)
          else Some (s\<lparr>mute := mute s + 1, ys := become (p\<lparr>y_at := Y_choose\<rparr>)\<rparr>)
      | Y_exited \<Rightarrow> None
      | Y_crashed \<Rightarrow> None
      | _ \<Rightarrow>
          (case y_local fl (p\<lparr>me := (me p)\<lparr>shm := s_shared s\<rparr>\<rparr>) of
             Inl e \<Rightarrow> Some (s\<lparr>ys := become (p\<lparr>y_at := Y_crashed\<rparr>)\<rparr>)
           | Inr p \<Rightarrow> Some (s\<lparr>s_shared := shm (me p), ys := become p\<rparr>)))"

text \<open>A new client, whose locals hold anything; it looks for the semaphore when it starts.\<close>

definition join :: "'f client \<Rightarrow> 'f shop \<Rightarrow> 'f shop" where
  "join c s = s\<lparr>ys := ys s @ [\<lparr>me = c, counted = 0, y_at = Y_count 0, has_sem = made s\<rparr>]\<rparr>"

inductive shop_step :: "'f float_text \<Rightarrow> 'f shop \<Rightarrow> 'f shop \<Rightarrow> bool" for fl where
  server: "x_step fl s = Some s' \<Longrightarrow> shop_step fl s s'"
| client: "y_step fl k s = Some s' \<Longrightarrow> shop_step fl s s'"
| joins: "shop_step fl s (join c s)"

text \<open>
  X has made a new segment, which the system fills with zeros (`zero`); the file holds the records `rs`.
\<close>

definition begun :: "'f float_text \<Rightarrow> 'f student \<Rightarrow> 'f student list \<Rightarrow> 'f shop \<Rightarrow> bool" where
  "begun fl zero rs s \<longleftrightarrow> s_shared s = replicate SEGMENT zero \<and> \<not> made s \<and> saved s = file_text fl rs \<and>
     x_at s = X_semget \<and> x_out s = [] \<and> ys s = []"

subsection \<open>The segment before and after the first update\<close>

text \<open>`m` is the mark in entry `n`, and no other entry holds -1.\<close>

definition table :: "int \<Rightarrow> nat \<Rightarrow> 'f student list \<Rightarrow> bool" where
  "table m n tbl \<longleftrightarrow> length tbl = SEGMENT \<and> n < SEGMENT \<and> roll (tbl ! n) = m \<and>
     (\<forall>j < SEGMENT. j \<noteq> n \<longrightarrow> roll (tbl ! j) \<noteq> -1)"

definition holds :: "y_pc \<Rightarrow> nat" where
  "holds p = (case p of Y_ask \<Rightarrow> 1 | Y_update i \<Rightarrow> 1 | Y_V \<Rightarrow> 1 | _ \<Rightarrow> 0)"

definition holders :: "'f shop \<Rightarrow> nat" where
  "holders s = sum_list (map (\<lambda>p. holds (y_at p)) (ys s))"

text \<open>
  How far a client with a semaphore can have come, with `n` records before the mark -1.  One that counts may have passed the entry of the mark
  before X has written it; it runs off the segment.
\<close>

definition within :: "nat \<Rightarrow> 'f process \<Rightarrow> bool" where
  "within n p \<longleftrightarrow> has_sem p \<and>
     (case y_at p of
        Y_count i \<Rightarrow> True
      | Y_search i match \<Rightarrow> i \<le> n \<and> counted p = n
      | Y_update i \<Rightarrow> i \<le> n \<and> counted p = n
      | Y_crashed \<Rightarrow> True
      | _ \<Rightarrow> counted p = n)"

text \<open>After the mark is gone a client never gets, or gives back, the semaphore.\<close>

definition stuck :: "nat \<Rightarrow> 'f process \<Rightarrow> bool" where
  "stuck n p \<longleftrightarrow> has_sem p \<and> y_at p \<noteq> Y_ask \<and> y_at p \<noteq> Y_V \<and> (\<forall>i. y_at p = Y_update i \<longrightarrow> counted p = n)"

definition running :: "y_pc \<Rightarrow> bool" where
  "running p \<longleftrightarrow> p \<notin> {Y_P, Y_V, Y_exited, Y_crashed}"

lemma marked_roll: "j \<noteq> len \<Longrightarrow> roll (shm (marked fl len i c) ! j) = roll (shm c ! j)"
  by (cases "i < length (shm c)") (auto simp: marked_def Let_def nth_list_update list_update_beyond)

lemma update_round_eq:
  assumes "i < length (shm c)" and "len < length (shm c)"
  shows "update_round fl len i c =
    Inr (if roll (shm c ! i) = -1 then None else Some (if roll (shm c ! i) = yroll c then marked fl len i c else c))"
  using assms by (simp add: update_round_def entry_def put_def marked_def Let_def)

lemma table_marked:
  assumes "table m n (shm c)"
  shows "table (-2) n (shm (marked fl n i c))"
  using assms by (auto simp: table_def marked_roll)

lemma table_end:
  "table (-1) n tbl \<Longrightarrow> i \<le> n \<Longrightarrow> i < length tbl \<and> (roll (tbl ! i) = -1 \<longleftrightarrow> i = n)"
  by (cases "i = n") (auto simp: table_def)

lemma entry_in: "i < length tbl \<Longrightarrow> entry tbl i = Inr (tbl ! i)"
  by (simp add: entry_def)

lemma entry_out: "\<not> i < length tbl \<Longrightarrow> entry tbl i = Inl Out_of_bounds"
  by (simp add: entry_def)

lemma read_roll_shm: "read_roll c = Inr c' \<Longrightarrow> shm c' = shm c"
  by (auto simp: read_roll_def read_int_def split: option.splits prod.splits if_splits)

lemma choose_step_eq:
  assumes "choose_step p = Inr p'"
  shows "shm (me p') = shm (me p) \<and> counted p' = counted p \<and> has_sem p' = has_sem p \<and> y_at p' \<in> {Y_exited, Y_search 0 False, Y_P, y_at p}"
  using assms by (auto simp: choose_step_def y_choose_def Let_def dest!: read_roll_shm split: if_splits prod.splits)

text \<open>A client before the first update: its step keeps within the records, or is the first update.\<close>

lemma local_intact:
  assumes tab: "table (-1) n (shm (me p))" and wi: "within n p" and run: "running (y_at p)" and step: "y_local fl p = Inr p'"
  shows "within n p' \<and> holds (y_at p') = holds (y_at p) \<and> shm (me p') = shm (me p) \<or>
    holds (y_at p) = 1 \<and> table (-2) n (shm (me p')) \<and> stuck n p'"
proof (cases "y_at p")
  case (Y_count i)
  show ?thesis
  proof (cases "i < length (shm (me p))")
    case True
    with tab have "roll (shm (me p) ! i) = -1 \<longleftrightarrow> i = n" by (cases "i = n") (simp_all add: table_def)
    with True Y_count step wi show ?thesis by (auto simp: y_local_def entry_in Let_def within_def holds_def split: if_splits)
  next
    case False
    with Y_count step show ?thesis by (simp add: y_local_def Let_def entry_out)
  qed
next
  case Y_choose
  with choose_step_eq [of p p'] step wi show ?thesis by (auto simp: y_local_def Let_def within_def holds_def)
next
  case (Y_search i m)
  with wi table_end [OF tab, of i] have "i < length (shm (me p))" "roll (shm (me p) ! i) = -1 \<longleftrightarrow> i = n"
    by (simp_all add: within_def)
  with Y_search step wi show ?thesis
    by (auto simp: y_local_def search_round_def entry_in Let_def within_def holds_def split: if_splits)
next
  case Y_ask
  with step wi show ?thesis by (auto simp: y_local_def Let_def within_def holds_def dest!: read_roll_shm)
next
  case (Y_update i)
  with wi table_end [OF tab, of i] table_end [OF tab, of n]
  have i: "i < length (shm (me p))" "n < length (shm (me p))" "counted p = n" "roll (shm (me p) ! i) = -1 \<longleftrightarrow> i = n"
    by (simp_all add: within_def)
  show ?thesis
  proof (cases "i \<noteq> n \<and> roll (shm (me p) ! i) = yroll (me p)")
    case True
    with step Y_update i have "p' = p\<lparr>me := marked fl n i (me p), y_at := Y_update (Suc i)\<rparr>"
      by (simp add: y_local_def Let_def update_round_eq)
    with table_marked [OF tab] Y_update i(3) wi show ?thesis by (simp add: stuck_def holds_def within_def)
  next
    case False
    with step Y_update i wi show ?thesis
      by (auto simp: y_local_def Let_def update_round_eq within_def holds_def split: if_splits)
  qed
qed (use run in \<open>auto simp: running_def\<close>)

text \<open>And after it: no entry holds -1 any more.\<close>

lemma local_marked:
  assumes tab: "table (-2) n (shm (me p))" and st: "stuck n p" and run: "running (y_at p)" and step: "y_local fl p = Inr p'"
  shows "table (-2) n (shm (me p')) \<and> stuck n p'"
proof -
  have none: "roll (shm (me p) ! i) \<noteq> -1" if "i < length (shm (me p))" for i
    using tab that by (cases "i = n") (simp_all add: table_def)
  show ?thesis
  proof (cases "y_at p")
    case (Y_count i)
    with step tab st none show ?thesis
      by (cases "i < length (shm (me p))") (auto simp: y_local_def entry_in entry_out Let_def stuck_def)
  next
    case Y_choose
    with choose_step_eq [of p p'] step tab st show ?thesis by (auto simp: y_local_def Let_def stuck_def)
  next
    case (Y_search i m)
    with step tab st none show ?thesis
      by (cases "i < length (shm (me p))")
        (auto simp: y_local_def search_round_def entry_in entry_out Let_def stuck_def split: if_splits)
  next
    case (Y_update i)
    show ?thesis
    proof (cases "i < length (shm (me p))")
      case True
      with Y_update step st tab none have "p' = p\<lparr>me := (if roll (shm (me p) ! i) = yroll (me p) then marked fl n i (me p)
          else me p), y_at := Y_update (Suc i)\<rparr>"
        by (simp add: y_local_def Let_def update_round_eq stuck_def table_def)
      with tab table_marked [OF tab] Y_update st show ?thesis by (simp add: stuck_def)
    next
      case False
      with Y_update step show ?thesis by (simp add: y_local_def Let_def update_round_def entry_out)
    qed
  qed (use st run in \<open>auto simp: running_def stuck_def\<close>)
qed

subsection \<open>Loading\<close>

text \<open>The segment with the first `i` records.\<close>

definition filled :: "'f student \<Rightarrow> 'f student list \<Rightarrow> nat \<Rightarrow> 'f student list" where
  "filled zero rs i = take i rs @ replicate (SEGMENT - i) zero"

lemma filled_next:
  assumes "i < length rs" and "length rs < SEGMENT"
  shows "(filled zero rs i)[i := rs ! i] = filled zero rs (Suc i)"
proof -
  have "replicate (SEGMENT - i) zero = zero # replicate (SEGMENT - Suc i) zero" using assms by (simp flip: replicate_Suc add: Suc_diff_Suc)
  with assms show ?thesis by (simp add: filled_def list_update_append take_Suc_conv_app_nth)
qed

lemma filled_loaded:
  assumes "length rs < SEGMENT"
  shows "(filled zero rs (length rs))[length rs := (filled zero rs (length rs) ! length rs)\<lparr>roll := -1\<rparr>] = loaded rs (replicate SEGMENT zero)"
proof -
  have "replicate (SEGMENT - length rs) zero = zero # replicate (SEGMENT - Suc (length rs)) zero"
    using assms by (simp flip: replicate_Suc add: Suc_diff_Suc)
  with assms show ?thesis by (simp add: filled_def loaded_def list_update_append nth_append)
qed

text \<open>Where X is when it has read `i` records.\<close>

definition reading :: "'f float_text \<Rightarrow> 'f student \<Rightarrow> 'f student list \<Rightarrow> 'f shop \<Rightarrow> bool" where
  "reading fl zero rs s \<longleftrightarrow>
     (\<exists>i pre. i \<le> length rs \<and> (\<forall>c \<in> set pre. is_space c) \<and> s_shared s = filled zero rs i \<and>
        x_at s = X_load i (pre @ file_text fl (drop i rs)) False) \<or>
     s_shared s = filled zero rs (length rs) \<and> x_at s = X_load (Suc (length rs)) [] True"

definition x_loads :: "'f float_text \<Rightarrow> 'f student \<Rightarrow> 'f student list \<Rightarrow> 'f shop \<Rightarrow> bool" where
  "x_loads fl zero rs s \<longleftrightarrow>
     (if made s then mute s = 1 \<and> reading fl zero rs s else x_at s = X_semget \<and> s_shared s = filled zero rs 0)"

text \<open>A round of the loop, or the mark.\<close>

lemma reading_line:
  assumes "i < length rs" and spaces: "\<forall>c \<in> set pre. is_space c" and "s_shared s = filled zero rs i"
    and "x_at s = X_load i (pre @ file_text fl (drop i rs)) False" and "\<forall>r \<in> set rs. student_ok fl r" and len: "length rs < SEGMENT"
  shows "x_step fl s =
    Some (s\<lparr>s_shared := filled zero rs (Suc i), x_at := X_load (Suc i) (''\<newline>'' @ file_text fl (drop (Suc i) rs)) False\<rparr>)"
proof -
  have line_text: "pre @ file_text fl (drop i rs) = pre @ (match_text fl (rs ! i) @ (''\<newline>'' @ file_text fl (drop (Suc i) rs)))"
    using assms(1) by (simp add: file_text_def show_match flip: Cons_nth_drop_Suc)
  have "scan_record fl i (filled zero rs i) (pre @ file_text fl (drop i rs)) =
      Inr ((filled zero rs i)[i := rs ! i], ''\<newline>'' @ file_text fl (drop (Suc i) rs))"
    unfolding line_text scan_record_spaces [OF spaces] using assms(1,5) len
    by (intro scan_record_line) (simp_all add: filled_def)
  with assms(3,4) filled_next [OF assms(1) len] show ?thesis by (simp add: x_step_def)
qed

lemma reading_step:
  assumes read: "reading fl zero rs s" and ok: "\<forall>r \<in> set rs. student_ok fl r" and len: "length rs < SEGMENT"
  obtains (more) tbl at where "x_step fl s = Some (s\<lparr>s_shared := tbl, x_at := at\<rparr>)" and "reading fl zero rs (s\<lparr>s_shared := tbl, x_at := at\<rparr>)"
    | (loaded) "x_step fl s = Some (s\<lparr>s_shared := loaded rs (replicate SEGMENT zero), x_len := length rs, x_at := X_print\<rparr>)"
proof -
  from read consider (line) i pre where "i < length rs" "\<forall>c \<in> set pre. is_space c" "s_shared s = filled zero rs i"
      "x_at s = X_load i (pre @ file_text fl (drop i rs)) False"
    | (last) pre where "\<forall>c \<in> set pre. is_space c" "s_shared s = filled zero rs (length rs)" "x_at s = X_load (length rs) pre False"
    | (mark) "s_shared s = filled zero rs (length rs)" "x_at s = X_load (Suc (length rs)) [] True"
    unfolding reading_def by (fastforce simp: le_less file_text_def)
  then show thesis
  proof cases
    case line
    from reading_line [OF line ok len] show thesis
      by (rule more) (use line(1) in \<open>auto simp: reading_def intro!: exI [of _ "Suc i"] exI [of _ "''\<newline>''"]\<close>)
  next
    case last
    then have "x_step fl s = Some (s\<lparr>s_shared := filled zero rs (length rs), x_at := X_load (Suc (length rs)) [] True\<rparr>)"
      by (simp add: x_step_def scan_record_end)
    then show thesis by (rule more) (simp add: reading_def)
  next
    case mark
    with len filled_loaded [OF len, of zero] show thesis
      by (intro loaded) (simp add: x_step_def put_def filled_def)
  qed
qed

lemma loaded_table:
  assumes "roll zero \<noteq> -1" and "\<forall>r \<in> set rs. roll r \<noteq> -1" and "length rs < SEGMENT"
  shows "table (-1) (length rs) (loaded rs (replicate SEGMENT zero))"
  using assms unfolding table_def loaded_def by (auto simp: nth_append nth_Cons split: nat.split)

subsection \<open>Every run\<close>

text \<open>
  While X loads no entry holds -1, so the clients count, or have run off.  Until the first update nobody but an updating client has the
  semaphore; after it nobody gets it any more.  A client that was `early`, before there was a semaphore, is free to do anything.
\<close>

definition counting :: "'f process \<Rightarrow> bool" where
  "counting p \<longleftrightarrow> has_sem p \<and> (y_at p = Y_crashed \<or> (\<exists>i. y_at p = Y_count i))"

definition loading :: "'f float_text \<Rightarrow> 'f student \<Rightarrow> 'f student list \<Rightarrow> 'f shop \<Rightarrow> bool" where
  "loading fl zero rs s \<longleftrightarrow> x_loads fl zero rs s \<and> (\<forall>p \<in> set (ys s). counting p)"

definition before :: "nat \<Rightarrow> 'f student list \<Rightarrow> 'f shop \<Rightarrow> bool" where
  "before n tbl s \<longleftrightarrow> table (-1) n tbl \<and> s_shared s = tbl \<and> made s \<and> x_len s = n \<and> x_at s \<in> {X_print, X_sleep} \<and>
     mute s + holders s \<le> 1 \<and> (\<forall>p \<in> set (ys s). within n p)"

definition after :: "nat \<Rightarrow> 'f shop \<Rightarrow> bool" where
  "after n s \<longleftrightarrow> table (-2) n (s_shared s) \<and> made s \<and> x_len s = n \<and> x_at s \<in> {X_print, X_sleep, X_P} \<and> mute s = 0 \<and>
     (\<forall>p \<in> set (ys s). stuck n p)"

definition early :: "'f shop \<Rightarrow> bool" where
  "early s \<longleftrightarrow> (\<exists>p \<in> set (ys s). \<not> has_sem p)"

text \<open>The files treated: well-formed records, none with the roll number -1, and room for the mark.\<close>

definition file_ok :: "'f float_text \<Rightarrow> 'f student \<Rightarrow> 'f student list \<Rightarrow> bool" where
  "file_ok fl zero rs \<longleftrightarrow> roll zero \<noteq> -1 \<and> (\<forall>r \<in> set rs. student_ok fl r \<and> roll r \<noteq> -1) \<and> length rs < SEGMENT"

definition shop_inv :: "'f float_text \<Rightarrow> 'f student \<Rightarrow> 'f student list \<Rightarrow> 'f shop \<Rightarrow> bool" where
  "shop_inv fl zero rs s \<longleftrightarrow> early s \<or> saved s = file_text fl rs \<and>
     (loading fl zero rs s \<or> before (length rs) (loaded rs (replicate SEGMENT zero)) s \<or> after (length rs) s)"

lemma begun_loading: "begun fl zero rs s \<Longrightarrow> loading fl zero rs s"
  by (simp add: begun_def loading_def x_loads_def filled_def)

lemma holders_counting: "\<forall>p \<in> set (ys s). counting p \<Longrightarrow> holders s = 0"
  by (auto simp: holders_def counting_def holds_def)

lemma x_check_table: "table m n tbl \<Longrightarrow> x_check n tbl = Inr (m = -2)"
  by (auto simp: table_def x_check_def entry_def)

lemma server_saves: "loading fl zero rs s \<Longrightarrow> x_step fl s = Some s' \<Longrightarrow> saved s' = saved s"
  by (auto simp: loading_def x_loads_def reading_def x_step_def split: if_splits sum.splits)

lemma loading_server:
  assumes "file_ok fl zero rs" and load: "loading fl zero rs s" and step: "x_step fl s = Some s'" and "saved s = file_text fl rs"
  shows "loading fl zero rs s' \<or> before (length rs) (loaded rs (replicate SEGMENT zero)) s'"
proof (cases "made s")
  case False
  with load step have "s' = s\<lparr>made := True, mute := 1, x_at := X_load 0 ([] @ file_text fl (drop 0 rs)) False\<rparr>"
    using assms(4) by (simp add: loading_def x_loads_def x_step_def)
  moreover from this False load have "reading fl zero rs s'" unfolding reading_def
    by (intro disjI1 exI [of _ 0] exI [of _ "[]"]) (simp add: loading_def x_loads_def)
  ultimately show ?thesis using load by (simp add: loading_def x_loads_def)
next
  case True
  with load have read: "reading fl zero rs s" and mute: "mute s = 1" by (simp_all add: loading_def x_loads_def)
  from assms(1) have ok: "\<forall>r \<in> set rs. student_ok fl r" "length rs < SEGMENT" by (simp_all add: file_ok_def)
  from read ok show ?thesis
  proof (cases rule: reading_step)
    case (more tbl at)
    with step load True show ?thesis by (auto simp: loading_def x_loads_def)
  next
    case loaded
    moreover have "within n p" if "counting p" for n and p :: "'a process" using that by (auto simp: counting_def within_def)
    moreover have "table (-1) (length rs) (loaded rs (replicate SEGMENT zero))" using assms(1) by (intro loaded_table) (simp_all add: file_ok_def)
    ultimately show ?thesis using step load True mute holders_counting [of s] by (auto simp: loading_def before_def holders_def)
  qed
qed

lemma holders_replace:
  "k < length (ys s) \<Longrightarrow> ys s' = (ys s)[k := p] \<Longrightarrow> holders s' + holds (y_at (ys s ! k)) = holders s + holds (y_at p)"
  using sum_list_replace [of k "ys s" "\<lambda>p. holds (y_at p)" p] by (simp add: holders_def)

lemma all_replace: "\<forall>p \<in> set xs. P p \<Longrightarrow> P q \<Longrightarrow> \<forall>p \<in> set (xs[k := q]). P p"
  using set_update_subset_insert [of xs k q] by auto

text \<open>A step of a client, as the process it makes of the one at `k`.\<close>

lemma y_step_cases:
  assumes "y_step fl k s = Some s'"
  obtains (lock) p where "k < length (ys s)" "p = ys s ! k" "y_at p = Y_P" "mute s \<noteq> 0"
      "s' = s\<lparr>mute := mute s - 1, ys := (ys s)[k := p\<lparr>y_at := Y_ask\<rparr>]\<rparr>"
    | (unlock) p where "k < length (ys s)" "p = ys s ! k" "y_at p = Y_V"
      "s' = s\<lparr>mute := mute s + 1, ys := (ys s)[k := p\<lparr>y_at := Y_choose\<rparr>]\<rparr>"
    | (bare) p at where "k < length (ys s)" "p = ys s ! k" "\<not> has_sem p" "s' = s\<lparr>ys := (ys s)[k := p\<lparr>y_at := at\<rparr>]\<rparr>"
    | (crash) p where "k < length (ys s)" "p = ys s ! k" "running (y_at p)"
      "s' = s\<lparr>ys := (ys s)[k := p\<lparr>y_at := Y_crashed\<rparr>]\<rparr>"
    | (moved) p p' where "k < length (ys s)" "p = ys s ! k" "running (y_at p)"
      "y_local fl (p\<lparr>me := (me p)\<lparr>shm := s_shared s\<rparr>\<rparr>) = Inr p'"
      "s' = s\<lparr>s_shared := shm (me p'), ys := (ys s)[k := p']\<rparr>"
proof -
  let ?p = "ys s ! k"
  from assms(1) have k: "k < length (ys s)" by (simp add: y_step_def split: if_splits)
  consider (run) "running (y_at ?p)" | (P) "y_at ?p = Y_P" | (V) "y_at ?p = Y_V" | (ended) "y_at ?p \<in> {Y_exited, Y_crashed}"
    by (auto simp: running_def)
  then show thesis
  proof cases
    case run
    let ?r = "y_local fl (?p\<lparr>me := (me ?p)\<lparr>shm := s_shared s\<rparr>\<rparr>)"
    have "y_step fl k s = (case ?r of Inl e \<Rightarrow> Some (s\<lparr>ys := (ys s)[k := ?p\<lparr>y_at := Y_crashed\<rparr>]\<rparr>)
        | Inr p \<Rightarrow> Some (s\<lparr>s_shared := shm (me p), ys := (ys s)[k := p]\<rparr>))"
      using k run by (cases "y_at ?p") (simp_all add: y_step_def running_def Let_def)
    with assms k run crash [of ?p] moved [of ?p] show thesis by (cases ?r) simp_all
  next
    case P
    with assms k lock [of ?p] bare [of ?p Y_ask] show thesis by (simp add: y_step_def Let_def split: if_splits)
  next
    case V
    with assms k unlock [of ?p] bare [of ?p Y_choose] show thesis by (simp add: y_step_def Let_def split: if_splits)
  next
    case ended
    with assms k show thesis by (auto simp: y_step_def Let_def)
  qed
qed

text \<open>The first update: the client that makes it is the one that has the semaphore.\<close>

lemma within_me [simp]: "within n (p\<lparr>me := c\<rparr>) = within n p"
  by (cases "y_at p") (simp_all add: within_def)

lemma within_stuck: "within n p \<Longrightarrow> holds (y_at p) = 0 \<Longrightarrow> stuck n p"
  by (cases "y_at p") (simp_all add: within_def holds_def stuck_def)

lemma first_update:
  assumes bef: "before n tbl s" and k: "k < length (ys s)" and h: "holds (y_at (ys s ! k)) = 1"
    and tab: "table (-2) n tbl'" and st: "stuck n p"
  shows "after n (s\<lparr>s_shared := tbl', ys := (ys s)[k := p]\<rparr>)"
proof -
  have "holders s = holds (y_at (ys s ! k)) + sum_list (map (\<lambda>p. holds (y_at p)) (take k (ys s) @ drop (Suc k) (ys s)))"
    using arg_cong [OF id_take_nth_drop [OF k], of "\<lambda>xs. sum_list (map (\<lambda>p. holds (y_at p)) xs)"] by (simp add: holders_def)
  with bef h have mute: "mute s = 0" and none: "\<forall>q \<in> set (take k (ys s) @ drop (Suc k) (ys s)). holds (y_at q) = 0"
    by (auto simp: before_def)
  have "stuck n q" if "q \<in> set ((ys s)[k := p])" for q
  proof (cases "q = p")
    case False
    with that k have "q \<in> set (take k (ys s) @ drop (Suc k) (ys s))" by (simp add: upd_conv_take_nth_drop)
    moreover from this have "q \<in> set (ys s)" by (auto dest: in_set_takeD in_set_dropD)
    ultimately show ?thesis using none bef by (intro within_stuck) (auto simp: before_def)
  qed (use st in simp)
  with bef mute tab show ?thesis by (auto simp: after_def before_def)
qed

text \<open>The clients while X loads.\<close>

lemma filled_none:
  assumes "file_ok fl zero rs" and "i < length (filled zero rs k)"
  shows "roll (filled zero rs k ! i) \<noteq> -1"
proof -
  from nth_mem [OF assms(2)] have "filled zero rs k ! i \<in> set rs \<union> {zero}" by (auto simp: filled_def dest: in_set_takeD)
  with assms(1) show ?thesis by (auto simp: file_ok_def)
qed

lemma loading_client:
  assumes rs: "file_ok fl zero rs" and load: "loading fl zero rs s" and step: "y_step fl k s = Some s'"
  shows "loading fl zero rs s' \<and> saved s' = saved s"
proof -
  from load have all: "\<forall>p \<in> set (ys s). counting p" by (simp add: loading_def)
  then have there: "counting (ys s ! k)" if "k < length (ys s)" using that by simp
  have none: "roll (s_shared s ! i) \<noteq> -1" if "i < length (s_shared s)" for i
    using load filled_none [OF rs] that by (auto simp: loading_def x_loads_def reading_def split: if_splits)
  have keep: "loading fl zero rs (s\<lparr>ys := (ys s)[k := p]\<rparr>)" if "counting p" for p
    using load all_replace [OF all that] by (auto simp: loading_def x_loads_def reading_def)
  from step show ?thesis
  proof (cases rule: y_step_cases)
    case (crash p)
    with there keep [of "p\<lparr>y_at := Y_crashed\<rparr>"] show ?thesis by (simp add: counting_def)
  next
    case (moved p p')
    let ?p = "p\<lparr>me := (me p)\<lparr>shm := s_shared s\<rparr>\<rparr>"
    from moved there obtain i where i: "y_at p = Y_count i" "has_sem p" by (auto simp: counting_def running_def)
    with moved(4) none have "p' = ?p\<lparr>y_at := Y_count (Suc i)\<rparr>"
      by (cases "i < length (s_shared s)") (auto simp: y_local_def entry_in entry_out Let_def)
    with moved i keep [of p'] show ?thesis by (simp add: counting_def)
  qed (use there in \<open>auto simp: counting_def\<close>)
qed

text \<open>The steps of X after it has loaded.\<close>

lemma before_server:
  assumes bef: "before n tbl s" and step: "x_step fl s = Some s'"
  shows "before n tbl s' \<and> saved s' = saved s"
proof -
  from bef have tab: "table (-1) n tbl" "s_shared s = tbl" "x_len s = n" by (simp_all add: before_def)
  then have "x_check n tbl = Inr False" "n \<le> length tbl" by (simp_all add: x_check_table) (simp add: table_def)
  with tab step bef have "s' = s \<or> (\<exists>out. s' = s\<lparr>x_out := x_out s @ out, x_at := X_sleep\<rparr>)"
    by (auto simp: before_def x_step_def print_records_eq)
  with bef show ?thesis by (auto simp: before_def holders_def)
qed

lemma after_server:
  assumes aft: "after n s" and step: "x_step fl s = Some s'"
  shows "after n s' \<and> saved s' = saved s"
proof -
  from aft have tab: "table (-2) n (s_shared s)" "x_len s = n" "mute s = 0" by (simp_all add: after_def)
  then have "x_check n (s_shared s) = Inr True" "n \<le> length (s_shared s)" by (simp_all add: x_check_table) (simp add: table_def)
  with tab step aft have "s' = s\<lparr>x_at := X_P\<rparr> \<or> (\<exists>out. s' = s\<lparr>x_out := x_out s @ out, x_at := X_sleep\<rparr>)"
    by (auto simp: after_def x_step_def print_records_eq)
  with aft show ?thesis by (auto simp: after_def)
qed

text \<open>The steps of the clients then.\<close>

lemma before_client:
  assumes bef: "before n tbl s" and step: "y_step fl k s = Some s'"
  shows "(before n tbl s' \<or> after n s') \<and> saved s' = saved s"
proof -
  from bef have all: "\<forall>p \<in> set (ys s). within n p" and tab: "table (-1) n tbl" "s_shared s = tbl"
    and one: "mute s + holders s \<le> 1" and x: "x_at s \<in> {X_print, X_sleep}" "made s" "x_len s = n" by (simp_all add: before_def)
  have there: "within n (ys s ! k)" if "k < length (ys s)" using all that by simp
  have keep: "before n tbl s'" if "k < length (ys s)" "ys s' = (ys s)[k := p]" "within n p" "s_shared s' = tbl" "x_at s' = x_at s"
    "made s'" "x_len s' = n" "mute s' + holds (y_at p) \<le> mute s + holds (y_at (ys s ! k))" for p
    using holders_replace [OF that(1,2)] that all_replace [OF all that(3)] one tab(1) x by (simp add: before_def)
  from step show ?thesis
  proof (cases rule: y_step_cases)
    case (lock p)
    with there x tab have "before n tbl s'" by (intro keep) (auto simp: within_def holds_def)
    with lock show ?thesis by simp
  next
    case (unlock p)
    with there x tab have "before n tbl s'" by (intro keep) (auto simp: within_def holds_def)
    with unlock show ?thesis by simp
  next
    case (bare p at)
    with there show ?thesis by (simp add: within_def)
  next
    case (crash p)
    with there x tab have "before n tbl s'" by (intro keep [of "p\<lparr>y_at := Y_crashed\<rparr>"]) (auto simp: within_def holds_def)
    with crash show ?thesis by simp
  next
    case (moved p p')
    let ?p = "p\<lparr>me := (me p)\<lparr>shm := s_shared s\<rparr>\<rparr>"
    from moved there have "within n ?p" by simp
    with local_intact [of n ?p fl p'] moved tab consider
        (quiet) "within n p'" "holds (y_at p') = holds (y_at p)" "shm (me p') = tbl"
      | (first) "holds (y_at p) = 1" "table (-2) n (shm (me p'))" "stuck n p'" by auto
    then show ?thesis
    proof cases
      case quiet
      with moved x have "before n tbl s'" by (intro keep) auto
      with moved show ?thesis by simp
    next
      case first
      have "after n s'" using first_update [OF bef moved(1) _ first(2,3)] first(1) moved by simp
      with moved show ?thesis by simp
    qed
  qed
qed

lemma after_client:
  assumes aft: "after n s" and step: "y_step fl k s = Some s'"
  shows "after n s' \<and> saved s' = saved s"
proof -
  from aft have all: "\<forall>p \<in> set (ys s). stuck n p" by (simp add: after_def)
  have there: "stuck n (ys s ! k)" if "k < length (ys s)" using all that by simp
  have keep: "after n s'" if "ys s' = (ys s)[k := p]" "stuck n p" "table (-2) n (s_shared s')" "x_at s' = x_at s" "mute s' = 0"
    "made s' = made s" "x_len s' = x_len s" for p
    using that all_replace [OF all that(2)] aft by (simp add: after_def)
  from step show ?thesis
  proof (cases rule: y_step_cases)
    case (lock p)
    with aft show ?thesis by (simp add: after_def)
  next
    case (unlock p)
    with there show ?thesis by (simp add: stuck_def)
  next
    case (bare p at)
    with there show ?thesis by (simp add: stuck_def)
  next
    case (crash p)
    with aft there have "after n s'" by (intro keep) (auto simp: stuck_def after_def)
    with crash show ?thesis by simp
  next
    case (moved p p')
    let ?p = "p\<lparr>me := (me p)\<lparr>shm := s_shared s\<rparr>\<rparr>"
    from moved there have "stuck n ?p" by (simp add: stuck_def)
    with local_marked [of n ?p fl p'] moved aft have "after n s'" by (intro keep [of p']) (auto simp: after_def)
    with moved show ?thesis by simp
  qed
qed

text \<open>A client keeps what it has found when it looked for the semaphore.\<close>

lemma y_local_sem: "y_local fl p = Inr p' \<Longrightarrow> has_sem p' = has_sem p"
  using choose_step_eq [of p p']
  by (cases "y_at p") (auto simp: y_local_def Let_def split: if_splits option.splits)

lemma early_client:
  assumes "y_step fl k s = Some s'"
  shows "map has_sem (ys s') = map has_sem (ys s)"
proof -
  from assms have k: "k < length (ys s)" by (simp add: y_step_def split: if_splits)
  then have same: "map has_sem ((ys s)[k := p]) = map has_sem (ys s)" if "has_sem p = has_sem (ys s ! k)" for p
    using that by (simp add: map_update list_update_same_conv)
  from assms show ?thesis
    by (auto simp: y_step_def Let_def same dest!: y_local_sem split: if_splits y_pc.splits sum.splits)
qed

lemma x_step_ys: "x_step fl s = Some s' \<Longrightarrow> ys s' = ys s"
  by (auto simp: x_step_def split: x_pc.splits sum.splits if_splits)

lemma early_map: "early s \<longleftrightarrow> False \<in> set (map has_sem (ys s))"
  by (auto simp: early_def)

lemma early_step: "shop_step fl s s' \<Longrightarrow> early s \<Longrightarrow> early s'"
  by (elim shop_step.cases) (auto simp: early_client x_step_ys early_map join_def)

lemma after_joins: "after n s \<Longrightarrow> after n (join c s)"
  by (auto simp: after_def join_def stuck_def)

lemma after_step: "shop_step fl s s' \<Longrightarrow> after n s \<Longrightarrow> after n s' \<and> saved s' = saved s"
  by (elim shop_step.cases) (auto dest: after_server after_client after_joins, simp add: join_def)

lemma after_steps:
  assumes "(shop_step fl)\<^sup>*\<^sup>* s s'" and "after n s"
  shows "after n s' \<and> saved s' = saved s"
  using assms by (induction rule: rtranclp_induct) (auto dest: after_step)

lemma before_joins: "before n tbl s \<Longrightarrow> before n tbl (join c s)"
  by (auto simp: before_def join_def within_def holders_def holds_def)

lemma loading_joins: "loading fl zero rs s \<Longrightarrow> early (join c s) \<or> loading fl zero rs (join c s)"
  by (auto simp: loading_def x_loads_def reading_def join_def early_def counting_def)

lemma shop_step_inv:
  assumes rs: "file_ok fl zero rs" and inv: "shop_inv fl zero rs s" and step: "shop_step fl s s'"
  shows "shop_inv fl zero rs s'"
proof (cases "early s \<or> early s'")
  case True
  with step early_step show ?thesis by (auto simp: shop_inv_def)
next
  case False
  let ?n = "length rs" and ?tbl = "loaded rs (replicate SEGMENT zero)"
  from inv False have saved: "saved s = file_text fl rs" by (simp add: shop_inv_def)
  from inv False consider (load) "loading fl zero rs s" | (bef) "before ?n ?tbl s" | (aft) "after ?n s" by (auto simp: shop_inv_def)
  then have "(loading fl zero rs s' \<or> before ?n ?tbl s' \<or> after ?n s') \<and> saved s' = saved s"
  proof cases
    case load
    from step show ?thesis
    proof cases
      case server
      with loading_server [OF rs load server saved] server_saves [OF load server] show ?thesis by auto
    next
      case (client k)
      with loading_client [OF rs load client] show ?thesis by simp
    next
      case (joins c)
      with loading_joins [OF load] False show ?thesis by (auto simp: join_def)
    qed
  next
    case bef
    from step show ?thesis
    proof cases
      case (joins c)
      with before_joins [OF bef, of c] show ?thesis by (simp add: join_def)
    qed (auto dest: before_server [OF bef] before_client [OF bef])
  next
    case aft
    with after_step [OF step] show ?thesis by simp
  qed
  with inv False show ?thesis by (simp add: shop_inv_def)
qed

interpretation shop: transition_system "\<lambda>s. file_ok fl zero rs \<and> begun fl zero rs s" "shop_step fl"
    "\<lambda>s. file_ok fl zero rs \<and> shop_inv fl zero rs s" for fl zero rs
proof
  fix s
  assume "file_ok fl zero rs \<and> begun fl zero rs s"
  then show "file_ok fl zero rs \<and> shop_inv fl zero rs s" using begun_loading [of fl zero rs s] by (simp add: shop_inv_def begun_def)
next
  fix s t
  assume "file_ok fl zero rs \<and> shop_inv fl zero rs s" "shop_step fl s t"
  then show "file_ok fl zero rs \<and> shop_inv fl zero rs t" using shop_step_inv by blast
qed

lemma shop_reach_inv:
  assumes "reach (begun fl zero rs) (shop_step fl) s" and "file_ok fl zero rs"
  shows "shop_inv fl zero rs s"
  using reach_steps [OF assms(1)] shop.steps_inv begun_loading assms(2) by (metis shop_inv_def begun_def)

end
