(* ===== verification/Records_Runs.thy ===== *)
theory Records_Runs
  imports Records_System
begin

text \<open>
  The properties of the record server and its clients together, and the runs that show what they leave open: an update by a client that has
  found the semaphore, and by one that has come too early to find it.
\<close>

subsection \<open>A run with one client\<close>

lemma x_moves: "reach st (shop_step fl) s \<Longrightarrow> x_step fl s = Some s' \<Longrightarrow> reach st (shop_step fl) s'"
  by (blast intro: reach_step server)

text \<open>X loads its file.\<close>

lemma reading_run:
  assumes "reach st (shop_step fl) s" and "s_shared s = filled zero rs i" and "x_at s = X_load i (pre @ file_text fl (drop i rs)) False"
    and "i \<le> length rs" and "\<forall>c \<in> set pre. is_space c" and rs: "file_ok fl zero rs"
  shows "reach st (shop_step fl) (s\<lparr>s_shared := filled zero rs (length rs), x_at := X_load (Suc (length rs)) [] True\<rparr>)"
  using assms(1-5)
proof (induction "length rs - i" arbitrary: i s pre)
  case 0
  then have "x_step fl s = Some (s\<lparr>s_shared := filled zero rs (length rs), x_at := X_load (Suc (length rs)) [] True\<rparr>)"
    by (simp add: x_step_def file_text_def scan_record_end)
  with 0 show ?case by (blast intro: x_moves)
next
  case (Suc m)
  then have i: "i < length rs" by simp
  let ?s = "s\<lparr>s_shared := filled zero rs (Suc i), x_at := X_load (Suc i) (''\<newline>'' @ file_text fl (drop (Suc i) rs)) False\<rparr>"
  from Suc i rs have "x_step fl s = Some ?s" by (simp add: reading_line file_ok_def)
  with Suc.prems have "reach st (shop_step fl) ?s" by (blast intro: x_moves)
  from Suc.hyps(1) [OF _ this, of "Suc i" "''\<newline>''"] Suc.hyps(2) i show ?case by simp
qed

lemma x_loads_run:
  assumes start: "reach st (shop_step fl) s" and "s_shared s = replicate SEGMENT zero" and "x_at s = X_semget" and "saved s = file_text fl rs"
    and rs: "file_ok fl zero rs"
  shows "reach st (shop_step fl) (s\<lparr>made := True, mute := 1, s_shared := loaded rs (replicate SEGMENT zero), x_len := length rs,
    x_out := x_out s @ file_text fl rs, x_at := X_sleep\<rparr>)"
proof -
  let ?n = "length rs" and ?tbl = "loaded rs (replicate SEGMENT zero)"
  let ?s = "\<lambda>tbl at. s\<lparr>made := True, mute := 1, s_shared := tbl, x_at := at\<rparr>"
  from rs have len: "?n < SEGMENT" by (simp add: file_ok_def)
  have "x_step fl s = Some (?s (filled zero rs 0) (X_load 0 (file_text fl rs) False))"
    using assms(2-4) by (cases s) (simp add: x_step_def filled_def)
  from x_moves [OF start this] have "reach st (shop_step fl) (?s (filled zero rs 0) (X_load 0 (file_text fl rs) False))" .
  from reading_run [OF this, of zero rs 0 "[]"] rs have "reach st (shop_step fl) (?s (filled zero rs ?n) (X_load (Suc ?n) [] True))" by simp
  moreover have "x_step fl (?s (filled zero rs ?n) (X_load (Suc ?n) [] True)) = Some (?s ?tbl X_print\<lparr>x_len := ?n\<rparr>)"
    using len filled_loaded [OF len, of zero] by (simp add: x_step_def put_def filled_def)
  ultimately have "reach st (shop_step fl) (?s ?tbl X_print\<lparr>x_len := ?n\<rparr>)" by (rule x_moves)
  moreover have "x_step fl (?s ?tbl X_print\<lparr>x_len := ?n\<rparr>) =
      Some (s\<lparr>made := True, mute := 1, s_shared := ?tbl, x_len := ?n, x_out := x_out s @ file_text fl rs, x_at := X_sleep\<rparr>)"
    using len by (simp add: x_step_def print_records_eq loaded_def)
  ultimately show ?thesis by (rule x_moves)
qed

text \<open>A single client, whose view of the segment is the segment.\<close>

definition lone :: "'f shop \<Rightarrow> 'f process \<Rightarrow> 'f shop" where
  "lone s p = s\<lparr>s_shared := shm (me p), ys := [p]\<rparr>"

lemma lone_moves:
  assumes "reach st (shop_step fl) (lone s p)" and "running (y_at p)" and "y_local fl p = Inr p'"
  shows "reach st (shop_step fl) (lone s p')"
proof -
  have "p\<lparr>me := (me p)\<lparr>shm := shm (me p)\<rparr>\<rparr> = p" by simp
  with assms(2,3) have "y_step fl 0 (lone s p) = Some (lone s p')"
    by (cases "y_at p") (simp_all add: y_step_def lone_def running_def Let_def)
  with assms(1) show ?thesis by (blast intro: reach_step client)
qed

lemma count_run:
  assumes "reach st (shop_step fl) (lone s p)" and "y_at p = Y_count i" and "i \<le> n" and "table (-1) n (shm (me p))"
  shows "reach st (shop_step fl) (lone s (p\<lparr>counted := n, y_at := Y_choose\<rparr>))"
  using assms
proof (induction "n - i" arbitrary: i p)
  case 0
  then show ?case using table_end [of n "shm (me p)" n]
    by (intro lone_moves [OF 0(2)]) (simp_all add: y_local_def running_def entry_in Let_def)
next
  case (Suc m)
  then have one: "reach st (shop_step fl) (lone s (p\<lparr>y_at := Y_count (Suc i)\<rparr>))" using table_end [of n "shm (me p)" i]
    by (intro lone_moves [OF Suc.prems(1)]) (simp_all add: y_local_def running_def entry_in Let_def)
  have "reach st (shop_step fl) (lone s (p\<lparr>y_at := Y_count (Suc i), counted := n, y_at := Y_choose\<rparr>))"
    by (rule Suc.hyps(1) [of "Suc i", OF _ one]) (use Suc.hyps(2) Suc.prems(3,4) in simp_all)
  then show ?case by simp
qed

lemma skip_run:
  assumes "reach st (shop_step fl) (lone s p)" and "y_at p = Y_update i" and "i \<le> k" and "counted p = n" and "k < n"
    and "table (-1) n (shm (me p))" and "\<forall>j < k. roll (shm (me p) ! j) \<noteq> yroll (me p)"
  shows "reach st (shop_step fl) (lone s (p\<lparr>y_at := Y_update k\<rparr>))"
  using assms
proof (induction "k - i" arbitrary: i p)
  case 0
  then have "p\<lparr>y_at := Y_update k\<rparr> = p" by (cases p) simp
  with 0 show ?case by metis
next
  case (Suc m)
  then have one: "reach st (shop_step fl) (lone s (p\<lparr>y_at := Y_update (Suc i)\<rparr>))"
    using table_end [of n "shm (me p)" i] table_end [of n "shm (me p)" n]
    by (intro lone_moves [OF Suc.prems(1)]) (simp_all add: y_local_def running_def update_round_eq Let_def)
  have "reach st (shop_step fl) (lone s (p\<lparr>y_at := Y_update (Suc i), y_at := Y_update k\<rparr>))"
    by (rule Suc.hyps(1) [of "Suc i", OF _ one]) (use Suc.hyps(2) Suc.prems in simp_all)
  then show ?case by simp
qed

text \<open>
  The input of a client that chooses to update and types a roll number, which the first record to have it has at `k`: what
  the client is when it starts to look for it.
\<close>

definition wants :: "'f client \<Rightarrow> nat \<Rightarrow> 'f client \<Rightarrow> bool" where
  "wants c k d \<longleftrightarrow> (\<exists>c'. y_choose c = Inr c' \<and> choice c' = 2 \<and> read_roll (say ''Enter corresponding Roll_no: '' c') = Inr d) \<and>
     roll (shm c ! k) = yroll d \<and> (\<forall>j < k. roll (shm c ! j) \<noteq> yroll d)"

lemma update_run:
  assumes start: "reach st (shop_step fl) (lone s \<lparr>me = c, counted = m, y_at = Y_count 0, has_sem = h\<rparr>)" and tab: "table (-1) n (shm c)"
    and "wants c k d" and k: "k < n" and "mute s = 1"
  shows "reach st (shop_step fl)
    (lone (s\<lparr>mute := (if h then 0 else 1)\<rparr>) \<lparr>me = marked fl n k d, counted = n, y_at = Y_update (Suc k), has_sem = h\<rparr>)"
proof -
  let ?p = "\<lambda>c at. \<lparr>me = c, counted = n, y_at = at, has_sem = h\<rparr>" and ?s = "s\<lparr>mute := (if h then 0 else 1)\<rparr>"
  from assms(3) obtain c' where c': "y_choose c = Inr c'" "choice c' = 2" and d: "read_roll (say ''Enter corresponding Roll_no: '' c') = Inr d"
    and yroll: "roll (shm c ! k) = yroll d" "\<forall>j < k. roll (shm c ! j) \<noteq> yroll d" by (auto simp: wants_def)
  have shm: "shm c' = shm c" "shm d = shm c" using c'(1) read_roll_shm [OF d] by (auto simp: y_choose_def Let_def)
  from count_run [OF start] tab have "reach st (shop_step fl) (lone s (?p c Y_choose))" by simp
  then have "reach st (shop_step fl) (lone s (?p c' Y_P))"
    by (rule lone_moves) (simp_all add: y_local_def running_def choose_step_def c' Let_def)
  moreover have "y_step fl 0 (lone s (?p c' Y_P)) = Some (lone ?s (?p c' Y_ask))"
    using assms(5) by (cases s) (simp add: y_step_def lone_def)
  ultimately have "reach st (shop_step fl) (lone ?s (?p c' Y_ask))" by (blast intro: reach_step client)
  then have "reach st (shop_step fl) (lone ?s (?p d (Y_update 0)))"
    by (rule lone_moves) (simp_all add: y_local_def running_def d Let_def)
  from skip_run [OF this, of 0 k n] have "reach st (shop_step fl) (lone ?s (?p d (Y_update k)))" using tab shm yroll k by simp
  moreover have "k < length (shm c)" "n < length (shm c)" "yroll d \<noteq> -1"
    using table_end [OF tab, of k] table_end [OF tab, of n] k yroll by simp_all
  ultimately show ?thesis
    by (elim lone_moves) (simp_all add: y_local_def running_def update_round_eq Let_def shm yroll)
qed

subsection \<open>The run of a client that comes too early\<close>

lemma marked_records:
  assumes "shm d = loaded rs tbl" and "k < length rs" and "length rs < length tbl"
  shows "take (length rs) (shm (marked fl (length rs) k d)) = rs[k := (rs ! k)\<lparr>CG := yCGPA (read_CGPA fl d)\<rparr>]"
proof -
  have "yCGPA (read_CGPA fl (say t d)) = yCGPA (read_CGPA fl d)" for t by (simp add: read_CGPA_def split_def Let_def split: option.split)
  with assms show ?thesis by (simp add: marked_def Let_def loaded_def nth_append list_update_append)
qed

lemma wants_shm: "wants c k d \<Longrightarrow> shm d = shm c"
  by (auto simp: wants_def y_choose_def Let_def dest!: read_roll_shm)

lemma x_saves_run:
  assumes start: "reach st (shop_step fl) s" and "x_at s = X_sleep" and "x_len s = n" and "mute s = 1"
    and tab: "table (-2) n (s_shared s)"
  shows "\<exists>s'. reach st (shop_step fl) s' \<and> saved s' = file_text fl (take n (s_shared s))"
proof -
  from tab have "n \<le> length (s_shared s)" by (simp add: table_def)
  then have out: "print_records fl n (s_shared s) = Inr (file_text fl (take n (s_shared s)))" by (rule print_records_eq)
  have "x_step fl s = Some (s\<lparr>x_at := X_P\<rparr>)" using assms(2,3) x_check_table [OF tab] by (simp add: x_step_def)
  from x_moves [OF start this] have "reach st (shop_step fl) (s\<lparr>x_at := X_P\<rparr>)" .
  moreover have "x_step fl (s\<lparr>x_at := X_P\<rparr>) = Some (s\<lparr>mute := 0, x_at := X_save\<rparr>)" using assms(4) by (simp add: x_step_def)
  ultimately have run: "reach st (shop_step fl) (s\<lparr>mute := 0, x_at := X_save\<rparr>)" by (rule x_moves)
  obtain s' where "x_step fl (s\<lparr>mute := 0, x_at := X_save\<rparr>) = Some s'" "saved s' = file_text fl (take n (s_shared s))"
    using out assms(3) by (simp add: x_step_def x_save_def)
  with x_moves [OF run] show ?thesis by blast
qed

subsection \<open>The properties\<close>

text \<open>C25: however X and any number of clients that have found the semaphore run together, from the moment X has made the segment, X never writes the
  file.  While X loads, the clients count, or have run off the segment; after that the segment stays as loaded until the
  first update, and who has counted then has counted the records.  The first update overwrites the mark -1 while its client has the semaphore; from
  then on, along every further run, the semaphore is never free, so X, waiting for it, never saves, and no client gets or gives it
  back.\<close>

theorem records_never_saved:
  assumes "reach (begun fl zero rs) (shop_step fl) s" and "file_ok fl zero rs" and "\<forall>p \<in> set (ys s). has_sem p"
  shows "saved s = file_text fl rs \<and> x_at s \<notin> {X_save, X_V, X_crashed} \<and>
    ((x_at s = X_semget \<or> (\<exists>i text eof. x_at s = X_load i text eof)) \<and> (\<forall>p \<in> set (ys s). y_at p = Y_crashed \<or> (\<exists>i. y_at p = Y_count i)) \<or>
     s_shared s = loaded rs (replicate SEGMENT zero) \<and>
       (\<forall>p \<in> set (ys s). y_at p = Y_crashed \<or> (\<exists>i. y_at p = Y_count i) \<or> counted p = length rs) \<or>
     (\<forall>s'. (shop_step fl)\<^sup>*\<^sup>* s s' \<longrightarrow> roll (s_shared s' ! length rs) = -2 \<and> mute s' = 0 \<and> saved s' = file_text fl rs \<and>
        (\<forall>p \<in> set (ys s'). y_at p \<noteq> Y_ask \<and> y_at p \<noteq> Y_V)))"
proof -
  let ?n = "length rs" and ?t = "loaded rs (replicate SEGMENT zero)"
  from shop_reach_inv [OF assms(1,2)] assms(3) have saved: "saved s = file_text fl rs"
    and phase: "loading fl zero rs s \<or> before ?n ?t s \<or> after ?n s" by (auto simp: shop_inv_def early_def)
  from phase show ?thesis
  proof (elim disjE)
    assume "loading fl zero rs s"
    with saved show ?thesis by (auto simp: loading_def x_loads_def reading_def counting_def split: if_splits)
  next
    assume "before ?n ?t s"
    moreover have "y_at p = Y_crashed \<or> (\<exists>i. y_at p = Y_count i) \<or> counted p = ?n" if "within ?n p" for p :: "'a process"
      using that by (cases "y_at p") (simp_all add: within_def)
    ultimately show ?thesis using saved by (auto simp: before_def)
  next
    assume aft: "after ?n s"
    have "roll (s_shared s' ! ?n) = -2 \<and> mute s' = 0 \<and> saved s' = file_text fl rs \<and> (\<forall>p \<in> set (ys s'). y_at p \<noteq> Y_ask \<and> y_at p \<noteq> Y_V)"
      if "(shop_step fl)\<^sup>*\<^sup>* s s'" for s'
      using after_steps [OF that aft] saved by (simp add: after_def table_def stuck_def)
    with saved aft show ?thesis by (auto simp: after_def)
  qed
qed

text \<open>C26: a client that starts between the two calls in which X makes the segment and the semaphore updates without a lock, and an update
  can reach the file: for every well-formed file of fewer than 101 records none of which has the roll number -1, every record of it that is the first with its roll number, and
  every input that chooses to update it, there is a run in which X writes the file with the new CGPA in that record and all else as it was.\<close>

theorem records_unlocked:
  assumes "file_ok fl zero rs" and "shm c = loaded rs (replicate SEGMENT zero)" and "wants c k d" and "k < length rs"
  shows "\<exists>s. reach (begun fl zero rs) (shop_step fl) s \<and>
    saved s = file_text fl (rs[k := (rs ! k)\<lparr>CG := yCGPA (read_CGPA fl d)\<rparr>])"
proof -
  let ?n = "length rs" and ?t = "loaded rs (replicate SEGMENT zero)" and ?reach = "reach (begun fl zero rs) (shop_step fl)"
  let ?p = "\<lparr>me = c, counted = 0, y_at = Y_count 0, has_sem = False\<rparr>"
  let ?q = "\<lparr>me = marked fl ?n k d, counted = ?n, y_at = Y_update (Suc k), has_sem = False\<rparr>"
  let ?first = "\<lparr>s_shared = replicate SEGMENT zero, made = False, mute = 0, saved = file_text fl rs, x_at = X_semget, x_len = 0, x_out = [], ys = []\<rparr>"
  let ?s = "\<lparr>s_shared = ?t, made = True, mute = 1, saved = file_text fl rs, x_at = X_sleep, x_len = ?n, x_out = file_text fl rs, ys = [?p]\<rparr>"
  from assms(1) have len: "?n < SEGMENT" and tab: "table (-1) ?n ?t" by (auto simp: file_ok_def intro: loaded_table)
  have "begun fl zero rs ?first" by (simp add: begun_def)
  then have "?reach ?first" by (rule reach_start)
  then have "?reach (join c ?first)" by (rule reach_step) (rule joins)
  from x_loads_run [OF this, of zero rs] assms(1) have "?reach ?s" by (simp add: join_def)
  moreover have "?s = lone ?s ?p" using assms(2) by (simp add: lone_def)
  ultimately have "?reach (lone ?s ?p)" by (rule subst [rotated])
  moreover have "table (-1) ?n (shm c)" "mute ?s = 1" using tab assms(2) by simp_all
  moreover have "?s\<lparr>mute := (if False then 0 else 1)\<rparr> = ?s" by simp
  ultimately have "?reach (lone ?s ?q)" using update_run [of "begun fl zero rs" fl ?s c 0 False ?n k d] assms(3,4) by (simp only:)
  moreover have "shm d = ?t" using wants_shm [OF assms(3)] assms(2) by simp
  ultimately show ?thesis
    using x_saves_run [of "begun fl zero rs" fl "lone ?s ?q" ?n] table_marked [of "-1" ?n d] tab len
      marked_records [of d rs "replicate SEGMENT zero" k fl] assms(4) by (simp add: lone_def)
qed

subsection \<open>Witnesses\<close>

text \<open>A client updates the second of two records.\<close>

definition two :: "nat student list" where
  "two = loaded [akhilesh, manikya] (replicate SEGMENT no_student)"

definition updater :: "nat client" where
  "updater = ademo\<lparr>stdin := ''2 1523 9.100000'', shm := two\<rparr>"

definition updating :: "nat client" where
  "updating = updater\<lparr>choice := 2, yroll := 1523, stdin := '' 9.100000'',
     stdout := stdout updater @ ''\<newline>\<newline>Enter number:\<newline>1.Search\<newline>2.update\<newline>3.Exit\<newline>'' @ ''Enter corresponding Roll_no: ''\<rparr>"

lemma two: "two ! 0 = akhilesh" "two ! Suc 0 = manikya" "file_ok fixed_text no_student [akhilesh, manikya]" "table (-1) 2 two"
proof -
  have rs: "\<forall>r \<in> set [akhilesh, manikya]. roll r \<noteq> -1" by (simp add: akhilesh_def manikya_def)
  then show "file_ok fixed_text no_student [akhilesh, manikya]"
    using students_ok by (auto simp: file_ok_def no_student_def SEGMENT_def)
  show "table (-1) 2 two"
    using loaded_table [of no_student "[akhilesh, manikya]"] rs by (simp add: two_def no_student_def SEGMENT_def numeral_2_eq_2)
qed (simp_all add: two_def loaded_def)

lemma updater_wants: "wants updater 1 updating"
proof -
  have n: "show_int 2 = ''2''" "show_int 1523 = ''1523''" by (simp_all add: show_int_def show_nat.simps digit_char_def)
  have s: "scan_int ''2 1523 9.100000'' = (Some 2, '' 1523 9.100000'')" "scan_int ''1523 9.100000'' = (Some 1523, '' 9.100000'')"
    using scan_show_int [of "'' 1523 9.100000''" 2] scan_show_int [of "'' 9.100000''" 1523] by (simp_all add: n)
  have "scan_int '' 1523 9.100000'' = scan_int ''1523 9.100000''" by (simp add: scan_int_def skip_ws_def is_space_def)
  with s(1) s(2) show ?thesis
    by (auto simp: wants_def y_choose_def read_roll_def read_int_def int_range_def updating_def updater_def say_def Let_def two akhilesh_def
        manikya_def)
qed

lemma updating_CGPA: "yCGPA (read_CGPA fixed_text updating) = 9100000"
proof -
  have "show_float fixed_text 9100000 = ''9.100000''"
  proof -
    have six: "(6 :: nat) = Suc (Suc (Suc (Suc (Suc (Suc 0)))))" by simp
    have "digits 6 100000 = ''100000''" unfolding six by (simp add: digit_char_def)
    moreover have "show_nat 9 = ''9''" by (simp add: show_nat.simps digit_char_def)
    ultimately show ?thesis by (simp add: fixed_text_def)
  qed
  with fixed_text_ok [of 9100000] have "scan_float fixed_text (skip_ws ''9.100000'') = (Some 9100000, [])"
    by (simp add: float_ok_def)
  moreover have "skip_ws '' 9.100000'' = skip_ws ''9.100000''" by (simp add: skip_ws_def is_space_def)
  ultimately show ?thesis by (simp add: read_CGPA_def updating_def)
qed

lemma records_unlocked_witness:
  "\<exists>s. reach (begun fixed_text no_student [akhilesh, manikya]) (shop_step fixed_text) s \<and>
    saved s = file_text fixed_text [akhilesh, manikya\<lparr>CG := 9100000\<rparr>]"
  using records_unlocked [OF two(3) _ updater_wants] updating_CGPA by (simp add: updater_def two_def)

text \<open>The same update, by a client that has found the semaphore.\<close>

lemma locked_run:
  "\<exists>s. reach (begun fixed_text no_student [akhilesh, manikya]) (shop_step fixed_text) s \<and>
    (\<forall>p \<in> set (ys s). has_sem p) \<and> x_at s = X_sleep \<and> roll (s_shared s ! 2) = -2"
proof -
  let ?reach = "reach (begun fixed_text no_student [akhilesh, manikya]) (shop_step fixed_text)" and ?f = "file_text fixed_text [akhilesh, manikya]"
  let ?first = "\<lparr>s_shared = replicate SEGMENT no_student, made = False, mute = 0, saved = ?f, x_at = X_semget, x_len = 0, x_out = [], ys = []\<rparr>"
  let ?s = "\<lparr>s_shared = two, made = True, mute = 1, saved = ?f, x_at = X_sleep, x_len = 2, x_out = ?f, ys = []\<rparr>"
  let ?p = "\<lparr>me = updater, counted = 0, y_at = Y_count 0, has_sem = True\<rparr>"
  have "begun fixed_text no_student [akhilesh, manikya] ?first" by (simp add: begun_def)
  then have "?reach ?first" by (rule reach_start)
  from x_loads_run [OF this _ _ _ two(3)] have "?reach ?s" by (simp add: two_def numeral_2_eq_2)
  then have "?reach (join updater ?s)" by (rule reach_step) (rule joins)
  moreover have "join updater ?s = lone (join updater ?s) ?p" by (simp add: join_def lone_def updater_def)
  ultimately have "?reach (lone (join updater ?s) ?p)" by (rule subst [rotated])
  from update_run [OF this _ updater_wants, of 2] two(4)
  have "?reach (lone (join updater ?s\<lparr>mute := 0\<rparr>) \<lparr>me = marked fixed_text 2 1 updating, counted = 2, y_at = Y_update 2, has_sem = True\<rparr>)"
    by (simp add: updater_def join_def numeral_2_eq_2)
  moreover have "shm updating = two" by (simp add: updating_def updater_def)
  with table_marked [of "-1" 2 updating fixed_text 1] two(4) have "roll (shm (marked fixed_text 2 1 updating) ! 2) = -2" by (simp add: table_def)
  ultimately show ?thesis by (intro exI conjI) (assumption, simp_all add: lone_def join_def)
qed

lemma records_never_saved_witness:
  "\<exists>s. roll (s_shared s ! 2) = -2 \<and> saved s = file_text fixed_text [akhilesh, manikya] \<and>
    (\<forall>s'. (shop_step fixed_text)\<^sup>*\<^sup>* s s' \<longrightarrow> mute s' = 0)"
proof -
  from locked_run obtain s where run: "reach (begun fixed_text no_student [akhilesh, manikya]) (shop_step fixed_text) s"
    and sem: "\<forall>p \<in> set (ys s). has_sem p" and at: "x_at s = X_sleep" and mark: "roll (s_shared s ! 2) = -2" by blast
  have "s_shared s \<noteq> loaded [akhilesh, manikya] (replicate SEGMENT no_student)" using mark two(4) by (auto simp: table_def two_def)
  with records_never_saved [OF run two(3) sem] at mark show ?thesis by (intro exI [of _ s]) simp
qed

end
