(* ===== verification/Tickets.thy ===== *)
theory Tickets
  imports Prelude
begin

text \<open>
  `Multithread_server_client`: the client `A.c`, which puts requests into a ring of ten cells in
  shared memory, and the server `B.c`, whose main thread takes them out and starts a thread per
  request that books tickets.  The two processes and the threads are interleaved: each function
  below is one step of one of them, with at most one access to shared data, and gives
  `None` when that step is blocked.
\<close>

subsection \<open>State\<close>

text \<open>Where A, the main thread of B and a booking thread stand.\<close>

datatype a_pc = A_check | A_P | A_write | A_V | A_exited

datatype b_pc = B_P | B_lock | B_test | B_while | B_wait | B_relock | B_inc | B_unlock | B_spawn | B_V

datatype t_pc = T_lock | T_test | T_take | T_print | T_refuse | T_unlock | T_lock2 | T_dec | T_signal | T_unlock2 | T_done

record server_thread =
  req :: int
  t_at :: t_pc

datatype owner = Main | Thread nat

datatype report = Tickets_available int | Cannot_fulfil | Received_SIGINT | Cleaned_memory nat nat | Cleaned_semaphores nat

text \<open>
  `Aqueue` are the ten request cells of the shared memory (the eleventh holds the server's process
  id, here `up`: whether that process and its semaphores exist).  `a_out` and `b_out` are what the
  processes print; A prints every request it makes.  The threads started so far stay in `threads`.
\<close>

record system =
  Aqueue :: "int list"
  up :: bool
  PS :: nat
  CS :: nat
  a_at :: a_pc
  in_at :: nat
  a_out :: "int list"
  b_at :: b_pc
  out :: nat
  ticket :: int
  global_count :: int
  cnt_mutex :: "nat option"
  cnt_mutex2 :: "owner option"
  threads :: "server_thread list"
  b_out :: "report list"

definition MIN_of :: "int \<Rightarrow> int \<Rightarrow> int" where
  "MIN_of x y = (if x < y then x else y)"

text \<open>
  What `main` of B does before its loop: `key`, `shm` and `key2` say whether `ftok` for the segment, `shmget` with `IPC_EXCL`, and
  `ftok` for the first semaphore succeed; otherwise the program exits (`None`).  After making `key3` the code looks at
  `key2` again.  The semaphores are taken to be created; `cells` is what is in the segment.
\<close>

definition server_start :: "bool \<Rightarrow> bool \<Rightarrow> bool \<Rightarrow> int list \<Rightarrow> system option" where
  "server_start key shm key2 cells =
     (if \<not> key then None else if \<not> shm then None else if \<not> key2 then None else if \<not> key2 then None
      else Some \<lparr>Aqueue = cells, up = True, PS = 10, CS = 0, a_at = A_check, in_at = 0, a_out = [], b_at = B_P, out = 0,
        ticket = 100, global_count = 0, cnt_mutex = None, cnt_mutex2 = None, threads = [], b_out = []\<rparr>)"

text \<open>The same for A, which attaches to what B has made; here `shm` is `shmget` without `IPC_CREAT`.\<close>

definition client_start :: "bool \<Rightarrow> bool \<Rightarrow> bool \<Rightarrow> system \<Rightarrow> system option" where
  "client_start key shm key2 s =
     (if \<not> key then None else if \<not> shm then None else if \<not> key2 then None else if \<not> key2 then None
      else Some (s\<lparr>a_at := A_check, in_at := 0\<rparr>))"

definition start :: "int list \<Rightarrow> system \<Rightarrow> bool" where
  "start cells s \<longleftrightarrow> length cells = 10 \<and> (\<exists>b. server_start True True True cells = Some b \<and> client_start True True True b = Some s)"

lemma start_eq:
  "start cells s \<longleftrightarrow> length cells = 10 \<and>
     s = \<lparr>Aqueue = cells, up = True, PS = 10, CS = 0, a_at = A_check, in_at = 0, a_out = [], b_at = B_P, out = 0,
       ticket = 100, global_count = 0, cnt_mutex = None, cnt_mutex2 = None, threads = [], b_out = []\<rparr>"
  by (auto simp: start_def server_start_def client_start_def)

subsection \<open>The client\<close>

text \<open>
  A step of A; `r` is the value of `rand ()`.  Once the semaphores are removed `semop` fails at once,
  and A does not look at its result.
\<close>

definition a_step :: "nat \<Rightarrow> system \<Rightarrow> system option" where
  "a_step r s =
     (case a_at s of
        A_check \<Rightarrow> Some (if up s then s\<lparr>a_at := A_P\<rparr> else s\<lparr>a_at := A_exited\<rparr>)
      | A_P \<Rightarrow>
          if up s then if PS s = 0 then None else Some (s\<lparr>PS := PS s - 1, a_at := A_write\<rparr>)
          else Some (s\<lparr>a_at := A_write\<rparr>)
      | A_write \<Rightarrow>
          let x = int (r mod 11) - 5 in
          Some (s\<lparr>Aqueue := (Aqueue s)[in_at s := x], a_out := a_out s @ [x], in_at := (in_at s + 1) mod 10, a_at := A_V\<rparr>)
      | A_V \<Rightarrow> Some (if up s then s\<lparr>CS := CS s + 1, a_at := A_check\<rparr> else s\<lparr>a_at := A_check\<rparr>)
      | A_exited \<Rightarrow> None)"

subsection \<open>The server's main thread\<close>

definition lock2 :: "owner \<Rightarrow> system \<Rightarrow> system option" where
  "lock2 me s = (if cnt_mutex2 s = None then Some (s\<lparr>cnt_mutex2 := Some me\<rparr>) else None)"

text \<open>
  `B_wait` is inside `pthread_cond_wait`, which has released the mutex; it goes on, to take the mutex
  again, when another thread signals, or without a reason.
\<close>

definition b_step :: "system \<Rightarrow> system option" where
  "b_step s =
     (if \<not> up s then None
      else case b_at s of
        B_P \<Rightarrow> if CS s = 0 then None else Some (s\<lparr>CS := CS s - 1, b_at := B_lock\<rparr>)
      | B_lock \<Rightarrow> map_option (\<lambda>s. s\<lparr>b_at := B_test\<rparr>) (lock2 Main s)
      | B_test \<Rightarrow> Some (if 10 \<le> global_count s then s\<lparr>b_at := B_while\<rparr> else s\<lparr>b_at := B_inc\<rparr>)
      | B_while \<Rightarrow> Some (if 5 < global_count s then s\<lparr>cnt_mutex2 := None, b_at := B_wait\<rparr> else s\<lparr>b_at := B_inc\<rparr>)
      | B_wait \<Rightarrow> None
      | B_relock \<Rightarrow> map_option (\<lambda>s. s\<lparr>b_at := B_while\<rparr>) (lock2 Main s)
      | B_inc \<Rightarrow> Some (s\<lparr>global_count := global_count s + 1, b_at := B_unlock\<rparr>)
      | B_unlock \<Rightarrow> Some (s\<lparr>cnt_mutex2 := None, b_at := B_spawn\<rparr>)
      | B_spawn \<Rightarrow>
          Some (s\<lparr>threads := threads s @ [\<lparr>req = Aqueue s ! out s, t_at = T_lock\<rparr>], out := (out s + 1) mod 10, b_at := B_V\<rparr>)
      | B_V \<Rightarrow> Some (s\<lparr>PS := PS s + 1, b_at := B_P\<rparr>))"

text \<open>
  The step after `B_unlock` when `pthread_create` fails.  Its result is not looked at: the request has been counted and its cell is
  given up, but nobody will ever book it or count it out.
\<close>

definition no_thread :: "system \<Rightarrow> system option" where
  "no_thread s = (if up s \<and> b_at s = B_spawn then Some (s\<lparr>out := (out s + 1) mod 10, b_at := B_V\<rparr>) else None)"

definition wake :: "system \<Rightarrow> system option" where
  "wake s = (if up s \<and> b_at s = B_wait then Some (s\<lparr>b_at := B_relock\<rparr>) else None)"

subsection \<open>A booking thread\<close>

definition goto :: "nat \<Rightarrow> t_pc \<Rightarrow> system \<Rightarrow> system" where
  "goto i p s = s\<lparr>threads := (threads s)[i := (threads s ! i)\<lparr>t_at := p\<rparr>]\<rparr>"

definition say :: "report \<Rightarrow> system \<Rightarrow> system" where
  "say m s = s\<lparr>b_out := b_out s @ [m]\<rparr>"

definition book_ticket :: "nat \<Rightarrow> system \<Rightarrow> system option" where
  "book_ticket i s =
     (if \<not> up s \<or> length (threads s) \<le> i then None
      else let x = req (threads s ! i) in
      case t_at (threads s ! i) of
        T_lock \<Rightarrow> if cnt_mutex s = None then Some (goto i T_test (s\<lparr>cnt_mutex := Some i\<rparr>)) else None
      | T_test \<Rightarrow> Some (goto i (if 0 \<le> ticket s - x then T_take else T_refuse) s)
      | T_take \<Rightarrow> Some (goto i T_print (s\<lparr>ticket := MIN_of (ticket s - x) 100\<rparr>))
      | T_print \<Rightarrow> Some (goto i T_unlock (say (Tickets_available (ticket s)) s))
      | T_refuse \<Rightarrow> Some (goto i T_unlock (say Cannot_fulfil s))
      | T_unlock \<Rightarrow> Some (goto i T_lock2 (s\<lparr>cnt_mutex := None\<rparr>))
      | T_lock2 \<Rightarrow> map_option (goto i T_dec) (lock2 (Thread i) s)
      | T_dec \<Rightarrow> Some (goto i T_signal (s\<lparr>global_count := global_count s - 1\<rparr>))
      | T_signal \<Rightarrow>
          Some (goto i T_unlock2 (if global_count s \<le> 5 \<and> b_at s = B_wait then s\<lparr>b_at := B_relock\<rparr> else s))
      | T_unlock2 \<Rightarrow> Some (goto i T_done (s\<lparr>cnt_mutex2 := None\<rparr>))
      | T_done \<Rightarrow> None)"

subsection \<open>The handler of SIGINT\<close>

text \<open>
  `shm`, `ps` and `cs` say whether the three removals succeed.  The process ends, and with it every thread; the semaphores are gone
  afterwards in any case, since removing one's own fails only when somebody else has removed it.
\<close>

definition my_handler :: "bool \<Rightarrow> bool \<Rightarrow> bool \<Rightarrow> system \<Rightarrow> system" where
  "my_handler shm ps cs s =
     (let cl = (if shm then 1 else 0); el = 1 :: nat;
          s = say (Cleaned_memory cl el) (say Received_SIGINT s);
          cl = (if ps then 1 else 0) + (if cs then 1 else 0)
      in (say (Cleaned_semaphores cl) s)\<lparr>up := False\<rparr>)"

subsection \<open>The whole system\<close>

text \<open>Here `pthread_create` starts a thread for each request; `Tickets_Lossy` adds the steps in which it fails.\<close>

inductive tickets_step :: "system \<Rightarrow> system \<Rightarrow> bool" where
  client: "a_step r s = Some s' \<Longrightarrow> tickets_step s s'"
| server: "b_step s = Some s' \<Longrightarrow> tickets_step s s'"
| thread: "book_ticket i s = Some s' \<Longrightarrow> tickets_step s s'"
| spurious: "wake s = Some s' \<Longrightarrow> tickets_step s s'"
| sigint: "up s \<Longrightarrow> tickets_step s (my_handler shm ps cs s)"

text \<open>The same where `pthread_create` may fail, with the number of times it has.\<close>

inductive lossy_step :: "nat \<times> system \<Rightarrow> nat \<times> system \<Rightarrow> bool" where
  step: "tickets_step s s' \<Longrightarrow> lossy_step (n, s) (n, s')"
| lost: "no_thread s = Some s' \<Longrightarrow> lossy_step (n, s) (Suc n, s')"

inductive_cases lossy_stepE: "lossy_step c c'"

end
