(* ===== verification/Tickets_Inv.thy ===== *)
theory Tickets_Inv
  imports Tickets "HOL-Library.Sublist"
begin

text \<open>
  The invariants of the ticket system while the server is up: what the two semaphores and the ring
  say about each other, who holds which mutex, the range of the tickets, the count of the requests in
  service, and why the main thread's wait ends.
\<close>

subsection \<open>The ring\<close>

text \<open>A between `P (PS)` and `V (CS)`, B between `P (CS)` and `V (PS)`, and before it has read the cell.\<close>

definition a_busy :: "system \<Rightarrow> nat" where
  "a_busy s = (if a_at s \<in> {A_write, A_V} then 1 else 0)"

definition b_busy :: "system \<Rightarrow> nat" where
  "b_busy s = (if b_at s \<noteq> B_P then 1 else 0)"

text \<open>The cell of the k-th request.\<close>

definition slot :: "nat \<Rightarrow> nat" where
  "slot k = k mod 10"

lemma slot_simps [simp]: "slot 0 = 0" "slot k < 10" "(slot k + 1) mod 10 = slot (Suc k)" "Suc (slot k) mod 10 = slot (Suc k)"
  by (simp_all add: slot_def mod_Suc_eq)

lemma slot_distinct:
  assumes "m \<le> k" and "k < n" and "n < m + 10"
  shows "slot k \<noteq> slot n"
proof
  assume "slot k = slot n"
  then have "n mod 10 = k mod 10" by (simp add: slot_def)
  then have "10 dvd n - k" using assms(2) by (simp add: mod_eq_dvd_iff_nat)
  then have "10 \<le> n - k" using assms(2) by (intro dvd_imp_le) simp_all
  with assms show False by simp
qed

text \<open>The requests taken out of the ring, when for n of them no thread could be started.\<close>

definition taken :: "nat \<Rightarrow> system \<Rightarrow> nat" where
  "taken n s = length (threads s) + n"

lemma taken_same: "length (threads s') = length (threads s) \<Longrightarrow> taken n s' = taken n s"
  by (simp add: taken_def)

lemma taken_Suc [simp]: "taken (Suc n) s = Suc (taken n s)"
  by (simp add: taken_def)

lemma taken_upd [simp]:
  "taken n (s\<lparr>Aqueue := q\<rparr>) = taken n s" "taken n (s\<lparr>PS := i\<rparr>) = taken n s" "taken n (s\<lparr>CS := i\<rparr>) = taken n s"
  "taken n (s\<lparr>a_at := a\<rparr>) = taken n s" "taken n (s\<lparr>in_at := i\<rparr>) = taken n s" "taken n (s\<lparr>a_out := q\<rparr>) = taken n s"
  "taken n (s\<lparr>b_at := b\<rparr>) = taken n s" "taken n (s\<lparr>out := i\<rparr>) = taken n s" "taken n (s\<lparr>global_count := c\<rparr>) = taken n s"
  "taken n (s\<lparr>cnt_mutex2 := m\<rparr>) = taken n s"
  by (rule taken_same; simp)+

definition flow_inv :: "nat \<Rightarrow> system \<Rightarrow> bool" where
  "flow_inv n s \<longleftrightarrow>
     PS s + CS s + a_busy s + b_busy s = 10 \<and> a_at s \<noteq> A_exited \<and>
     length (a_out s) = taken n s + CS s + (if a_at s = A_V then 1 else 0) + (if b_at s \<in> {B_P, B_V} then 0 else 1) \<and>
     length (Aqueue s) = 10 \<and> in_at s = slot (length (a_out s)) \<and> out s = slot (taken n s) \<and>
     (\<forall>k. taken n s \<le> k \<and> k < length (a_out s) \<longrightarrow> Aqueue s ! slot k = a_out s ! k) \<and>
     subseq (map req (threads s)) (take (taken n s) (a_out s)) \<and>
     (\<forall>x \<in> set (a_out s). -5 \<le> x \<and> x \<le> 5)"

lemma flow_start: "start cells s \<Longrightarrow> flow_inv 0 s"
  by (simp add: start_eq flow_inv_def taken_def a_busy_def b_busy_def)

lemma flow_a:
  assumes inv: "flow_inv n s" and step: "a_step r s = Some s'" and "up s"
  shows "flow_inv n s'"
proof (cases "a_at s = A_write")
  case True
  let ?x = "int (r mod 11) - 5" and ?n = "length (a_out s)" and ?m = "taken n s"
  have "r mod 11 < 11" by simp
  then have x: "-5 \<le> ?x" "?x \<le> 5" by linarith+
  from step True have s': "s' = s\<lparr>Aqueue := (Aqueue s)[in_at s := ?x], a_out := a_out s @ [?x], in_at := (in_at s + 1) mod 10, a_at := A_V\<rparr>"
    by (simp add: a_step_def Let_def)
  from inv True have room: "?n < ?m + 10" "?m \<le> ?n" and q: "length (Aqueue s) = 10" "in_at s = slot ?n"
    by (auto simp: flow_inv_def a_busy_def b_busy_def split: if_splits)
  have "(Aqueue s)[slot ?n := ?x] ! slot k = (a_out s @ [?x]) ! k"
    if "?m \<le> k" "k < Suc ?n" for k
  proof (cases "k = ?n")
    case False
    with that have "k < ?n" by simp
    with that(1) slot_distinct [of ?m k ?n] room inv show ?thesis
      by (simp add: flow_inv_def nth_append)
  qed (simp add: q)
  then show ?thesis using inv True x
    by (simp add: s' flow_inv_def a_busy_def b_busy_def)
next
  case other: False
  show ?thesis
  proof (cases "a_at s")
    case A_P
    with assms have "0 < PS s" "s' = s\<lparr>PS := PS s - 1, a_at := A_write\<rparr>" by (simp_all add: a_step_def split: if_splits)
    with A_P inv show ?thesis by (simp add: flow_inv_def a_busy_def b_busy_def)
  next
    case A_check
    with assms have "s' = s\<lparr>a_at := A_P\<rparr>" by (simp add: a_step_def)
    with A_check inv show ?thesis by (simp add: flow_inv_def a_busy_def b_busy_def)
  next
    case A_V
    with assms have "s' = s\<lparr>CS := CS s + 1, a_at := A_check\<rparr>" by (simp add: a_step_def)
    with A_V inv show ?thesis by (simp add: flow_inv_def a_busy_def b_busy_def)
  qed (use step other in \<open>simp_all add: a_step_def\<close>)
qed

lemma flow_b:
  assumes inv: "flow_inv n s" and step: "b_step s = Some s'"
  shows "flow_inv n s'"
proof (cases "b_at s = B_spawn")
  case True
  let ?m = "taken n s"
  from step True have s': "s' = s\<lparr>threads := threads s @ [\<lparr>req = Aqueue s ! out s, t_at = T_lock\<rparr>],
      out := (out s + 1) mod 10, b_at := B_V\<rparr>"
    by (simp add: b_step_def split: if_splits)
  from inv True have m: "?m < length (a_out s)" "out s = slot ?m" by (auto simp: flow_inv_def)
  with inv have "Aqueue s ! out s = a_out s ! ?m" by (simp add: flow_inv_def)
  moreover have "taken n s' = Suc ?m" by (simp add: s' taken_def)
  ultimately show ?thesis using inv True m
    by (simp add: s' flow_inv_def a_busy_def b_busy_def take_Suc_conv_app_nth)
next
  case other: False
  from step have up: "up s" by (simp add: b_step_def split: if_splits)
  show ?thesis
  proof (cases "b_at s")
    case B_P
    with step have "0 < CS s" "s' = s\<lparr>CS := CS s - 1, b_at := B_lock\<rparr>" by (simp_all add: b_step_def split: if_splits)
    with B_P inv show ?thesis by (simp add: flow_inv_def a_busy_def b_busy_def)
  next
    case B_V
    with step have "s' = s\<lparr>PS := PS s + 1, b_at := B_P\<rparr>" by (simp add: b_step_def split: if_splits)
    with B_V inv show ?thesis by (simp add: flow_inv_def a_busy_def b_busy_def)
  next
    case B_lock
    with step have "s' = s\<lparr>cnt_mutex2 := Some Main, b_at := B_test\<rparr>" by (auto simp: b_step_def lock2_def split: if_splits)
    with B_lock inv show ?thesis by (simp add: flow_inv_def a_busy_def b_busy_def)
  next
    case B_relock
    with step have "s' = s\<lparr>cnt_mutex2 := Some Main, b_at := B_while\<rparr>" by (auto simp: b_step_def lock2_def split: if_splits)
    with B_relock inv show ?thesis by (simp add: flow_inv_def a_busy_def b_busy_def)
  next
    case B_test
    with step have "s' = s\<lparr>b_at := B_while\<rparr> \<or> s' = s\<lparr>b_at := B_inc\<rparr>" by (auto simp: b_step_def split: if_splits)
    with B_test inv show ?thesis by (auto simp: flow_inv_def a_busy_def b_busy_def)
  next
    case B_while
    with step have "s' = s\<lparr>cnt_mutex2 := None, b_at := B_wait\<rparr> \<or> s' = s\<lparr>b_at := B_inc\<rparr>"
      by (auto simp: b_step_def split: if_splits)
    with B_while inv show ?thesis by (auto simp: flow_inv_def a_busy_def b_busy_def)
  next
    case B_inc
    with step have "s' = s\<lparr>global_count := global_count s + 1, b_at := B_unlock\<rparr>" by (simp add: b_step_def split: if_splits)
    with B_inc inv show ?thesis by (simp add: flow_inv_def a_busy_def b_busy_def)
  next
    case B_unlock
    with step have "s' = s\<lparr>cnt_mutex2 := None, b_at := B_spawn\<rparr>" by (simp add: b_step_def split: if_splits)
    with B_unlock inv show ?thesis by (simp add: flow_inv_def a_busy_def b_busy_def)
  qed (use step up other in \<open>simp_all add: b_step_def\<close>)
qed

lemma goto_sel [simp]:
  "Aqueue (goto i p s) = Aqueue s" "up (goto i p s) = up s" "PS (goto i p s) = PS s" "CS (goto i p s) = CS s"
  "a_at (goto i p s) = a_at s" "in_at (goto i p s) = in_at s" "a_out (goto i p s) = a_out s" "b_at (goto i p s) = b_at s"
  "out (goto i p s) = out s" "ticket (goto i p s) = ticket s" "global_count (goto i p s) = global_count s"
  "cnt_mutex (goto i p s) = cnt_mutex s" "cnt_mutex2 (goto i p s) = cnt_mutex2 s" "b_out (goto i p s) = b_out s"
  "length (threads (goto i p s)) = length (threads s)"
  "threads (goto i p s) = (threads s)[i := (threads s ! i)\<lparr>t_at := p\<rparr>]"
  by (simp_all add: goto_def)

lemma print_sel [simp]:
  "Aqueue (say m s) = Aqueue s" "up (say m s) = up s" "PS (say m s) = PS s" "CS (say m s) = CS s"
  "a_at (say m s) = a_at s" "in_at (say m s) = in_at s" "a_out (say m s) = a_out s" "b_at (say m s) = b_at s"
  "out (say m s) = out s" "ticket (say m s) = ticket s" "global_count (say m s) = global_count s"
  "cnt_mutex (say m s) = cnt_mutex s" "cnt_mutex2 (say m s) = cnt_mutex2 s" "threads (say m s) = threads s"
  "b_out (say m s) = b_out s @ [m]"
  by (simp_all add: say_def)

lemma map_req_update [simp]: "map req (ts[i := (ts ! i)\<lparr>t_at := p\<rparr>]) = map req ts"
  by (cases "i < length ts") (auto simp: list_eq_iff_nth_eq nth_list_update)

text \<open>What every step of a thread leaves alone.\<close>

lemma thread_frame:
  assumes "book_ticket i s = Some s'"
  shows "up s \<and> i < length (threads s) \<and> up s' = up s \<and> Aqueue s' = Aqueue s \<and> PS s' = PS s \<and> CS s' = CS s \<and>
    a_at s' = a_at s \<and> in_at s' = in_at s \<and> out s' = out s \<and> a_out s' = a_out s \<and>
    length (threads s') = length (threads s) \<and> map req (threads s') = map req (threads s) \<and>
    (b_at s' = b_at s \<or> b_at s = B_wait \<and> b_at s' = B_relock)"
  using assms by (auto simp: book_ticket_def lock2_def Let_def split: t_pc.splits if_splits)

lemma flow_t:
  assumes "flow_inv n s" and "book_ticket i s = Some s'"
  shows "flow_inv n s'"
  using assms(1) thread_frame [OF assms(2)] taken_same [of s' s n]
  by (auto simp: flow_inv_def a_busy_def b_busy_def split: if_splits)


text \<open>When every thread could be started, the requests handed out are the first ones made.\<close>

lemma flow_requests: "flow_inv 0 s \<Longrightarrow> map req (threads s) = take (length (threads s)) (a_out s)"
  by (rule subseq_same_length) (auto simp: flow_inv_def taken_def min_def split: if_splits)


subsection \<open>The mutexes\<close>

definition t_pos :: "system \<Rightarrow> nat \<Rightarrow> t_pc option" where
  "t_pos s i = (if i < length (threads s) then Some (t_at (threads s ! i)) else None)"

lemma t_pos_goto: "i < length (threads s) \<Longrightarrow> t_pos (goto i p s) = (t_pos s)(i \<mapsto> p)"
  by (auto simp: t_pos_def fun_eq_iff nth_list_update)

lemma t_pos_same: "threads s' = threads s \<Longrightarrow> t_pos s' = t_pos s"
  by (simp add: t_pos_def fun_eq_iff)

lemma t_pos_upd [simp]:
  "t_pos (s\<lparr>cnt_mutex := a\<rparr>) = t_pos s" "t_pos (s\<lparr>cnt_mutex2 := b\<rparr>) = t_pos s" "t_pos (s\<lparr>ticket := c\<rparr>) = t_pos s"
  "t_pos (s\<lparr>global_count := d\<rparr>) = t_pos s" "t_pos (s\<lparr>b_at := e\<rparr>) = t_pos s" "t_pos (say m s) = t_pos s"
  by (rule t_pos_same; simp)+

lemma t_pos_spawn: "threads s' = threads s @ [t] \<Longrightarrow> t_pos s' = (t_pos s)(length (threads s) \<mapsto> t_at t)"
  by (auto simp: t_pos_def fun_eq_iff nth_append)

lemma t_pos_new [simp]: "t_pos s (length (threads s)) = None"
  by (simp add: t_pos_def)

definition holds1 :: "t_pc option \<Rightarrow> bool" where
  "holds1 p \<longleftrightarrow> p \<in> Some ` {T_test, T_take, T_print, T_refuse, T_unlock}"

definition holds2 :: "t_pc option \<Rightarrow> bool" where
  "holds2 p \<longleftrightarrow> p \<in> Some ` {T_dec, T_signal, T_unlock2}"

definition main_holds :: "b_pc \<Rightarrow> bool" where
  "main_holds p \<longleftrightarrow> p \<in> {B_test, B_while, B_inc, B_unlock}"

definition lock_inv :: "system \<Rightarrow> bool" where
  "lock_inv s \<longleftrightarrow> (\<forall>i. cnt_mutex s = Some i \<longleftrightarrow> holds1 (t_pos s i)) \<and>
     (\<forall>i. cnt_mutex2 s = Some (Thread i) \<longleftrightarrow> holds2 (t_pos s i)) \<and>
     (cnt_mutex2 s = Some Main \<longleftrightarrow> main_holds (b_at s))"

definition ticket_inv :: "system \<Rightarrow> bool" where
  "ticket_inv s \<longleftrightarrow> 0 \<le> ticket s \<and> ticket s \<le> 100 \<and>
     (\<forall>i. t_pos s i = Some T_take \<longrightarrow> req (threads s ! i) \<le> ticket s)"

text \<open>The requests in service: threads that have not yet counted themselves out.\<close>

definition in_service :: "system \<Rightarrow> nat set" where
  "in_service s = {i. \<exists>p. t_pos s i = Some p \<and> p \<notin> {T_signal, T_unlock2, T_done}}"

definition count_inv :: "nat \<Rightarrow> system \<Rightarrow> bool" where
  "count_inv n s \<longleftrightarrow> global_count s = int (card (in_service s)) + int n + (if b_at s \<in> {B_unlock, B_spawn} then 1 else 0) \<and>
     global_count s \<le> (if b_at s = B_inc then 9 else 10)"

text \<open>When the main thread waits though the count is low, the thread that will signal it is on its way.\<close>

definition wait_inv :: "system \<Rightarrow> bool" where
  "wait_inv s \<longleftrightarrow> (b_at s = B_wait \<and> global_count s \<le> 5 \<longrightarrow> (\<exists>i. t_pos s i = Some T_signal))"

lemma finite_in_service [simp]: "finite (in_service s)"
proof -
  have "in_service s \<subseteq> {..<length (threads s)}" by (auto simp: in_service_def t_pos_def split: if_splits)
  then show ?thesis by (rule finite_subset) simp
qed

lemma holds_simps [simp]:
  "holds1 (Some p) \<longleftrightarrow> p \<in> {T_test, T_take, T_print, T_refuse, T_unlock}" "\<not> holds1 None"
  "holds2 (Some p) \<longleftrightarrow> p \<in> {T_dec, T_signal, T_unlock2}" "\<not> holds2 None"
  by (auto simp: holds1_def holds2_def)

lemma start_inv:
  assumes "start cells s"
  shows "lock_inv s" and "ticket_inv s" and "count_inv 0 s" and "wait_inv s"
proof -
  from assms have none: "t_pos s i = None" for i by (simp add: start_eq t_pos_def)
  with assms show "lock_inv s" "ticket_inv s" "count_inv 0 s" "wait_inv s"
    by (simp_all add: start_eq lock_inv_def ticket_inv_def count_inv_def wait_inv_def main_holds_def in_service_def)
qed

text \<open>A step of a thread, as the position it leaves and the position it takes.\<close>

lemma thread_cases:
  assumes "book_ticket i s = Some s'"
  obtains p q where "i < length (threads s)" and "t_pos s i = Some p" and "t_pos s' = (t_pos s)(i \<mapsto> q)"
    and "\<forall>j < length (threads s). req (threads s' ! j) = req (threads s ! j)"
    and "(p, q) \<in> {(T_lock, T_test), (T_test, T_take), (T_test, T_refuse), (T_take, T_print), (T_print, T_unlock),
      (T_refuse, T_unlock), (T_unlock, T_lock2), (T_lock2, T_dec), (T_dec, T_signal), (T_signal, T_unlock2), (T_unlock2, T_done)}"
    and "p = T_lock \<longrightarrow> cnt_mutex s = None" and "p = T_lock2 \<longrightarrow> cnt_mutex2 s = None"
    and "q = T_take \<longrightarrow> req (threads s ! i) \<le> ticket s"
    and "ticket s' = (if p = T_take then MIN_of (ticket s - req (threads s ! i)) 100 else ticket s)"
    and "global_count s' = (if p = T_dec then global_count s - 1 else global_count s)"
    and "cnt_mutex s' = (if p = T_lock then Some i else if p = T_unlock then None else cnt_mutex s)"
    and "cnt_mutex2 s' = (if p = T_lock2 then Some (Thread i) else if p = T_unlock2 then None else cnt_mutex2 s)"
    and "b_at s' = (if p = T_signal \<and> global_count s \<le> 5 \<and> b_at s = B_wait then B_relock else b_at s)"
    and "q = T_refuse \<longrightarrow> \<not> req (threads s ! i) \<le> ticket s"
    and "b_out s' = b_out s @ (if p = T_print then [Tickets_available (ticket s)] else if p = T_refuse then [Cannot_fulfil] else [])"
proof -
  from thread_frame [OF assms] have i: "i < length (threads s)" and up: "up s" by simp_all
  define p where "p = t_at (threads s ! i)"
  have p: "t_pos s i = Some p" using i by (simp add: t_pos_def p_def)
  from thread_frame [OF assms] have "map req (threads s') = map req (threads s)" "length (threads s') = length (threads s)" by simp_all
  then have req: "req (threads s' ! j) = req (threads s ! j)" if "j < length (threads s)" for j
    using that by (metis nth_map)
  note facts = i p req
  show thesis
  proof (cases p)
    case T_lock
    with assms up i have "cnt_mutex s = None" "s' = goto i T_test (s\<lparr>cnt_mutex := Some i\<rparr>)"
      by (simp_all add: book_ticket_def p_def split: if_splits)
    with facts T_lock show thesis by (intro that [of p T_test]) (simp_all add: t_pos_goto)
  next
    case T_test
    with assms up i have s': "s' = goto i (if 0 \<le> ticket s - req (threads s ! i) then T_take else T_refuse) s"
      by (simp add: book_ticket_def p_def Let_def)
    show thesis
    proof (cases "0 \<le> ticket s - req (threads s ! i)")
      case True
      with facts T_test s' show thesis by (intro that [of p T_take]) (simp_all add: t_pos_goto)
    next
      case False
      with facts T_test s' show thesis by (intro that [of p T_refuse]) (simp_all add: t_pos_goto)
    qed
  next
    case T_take
    with assms up i have "s' = goto i T_print (s\<lparr>ticket := MIN_of (ticket s - req (threads s ! i)) 100\<rparr>)"
      by (simp add: book_ticket_def p_def Let_def)
    with facts T_take show thesis by (intro that [of p T_print]) (simp_all add: t_pos_goto)
  next
    case T_print
    with assms up i have "s' = goto i T_unlock (say (Tickets_available (ticket s)) s)"
      by (simp add: book_ticket_def p_def)
    with facts T_print show thesis by (intro that [of p T_unlock]) (simp_all add: t_pos_goto)
  next
    case T_refuse
    with assms up i have "s' = goto i T_unlock (say Cannot_fulfil s)"
      by (simp add: book_ticket_def p_def)
    with facts T_refuse show thesis by (intro that [of p T_unlock]) (simp_all add: t_pos_goto)
  next
    case T_unlock
    with assms up i have "s' = goto i T_lock2 (s\<lparr>cnt_mutex := None\<rparr>)"
      by (simp add: book_ticket_def p_def)
    with facts T_unlock show thesis by (intro that [of p T_lock2]) (simp_all add: t_pos_goto)
  next
    case T_lock2
    with assms up i have "cnt_mutex2 s = None" "s' = goto i T_dec (s\<lparr>cnt_mutex2 := Some (Thread i)\<rparr>)"
      by (auto simp: book_ticket_def p_def lock2_def split: if_splits)
    with facts T_lock2 show thesis by (intro that [of p T_dec]) (simp_all add: t_pos_goto)
  next
    case T_dec
    with assms up i have "s' = goto i T_signal (s\<lparr>global_count := global_count s - 1\<rparr>)"
      by (simp add: book_ticket_def p_def)
    with facts T_dec show thesis by (intro that [of p T_signal]) (simp_all add: t_pos_goto)
  next
    case T_signal
    with assms up i have "s' = goto i T_unlock2 (if global_count s \<le> 5 \<and> b_at s = B_wait then s\<lparr>b_at := B_relock\<rparr> else s)"
      by (simp add: book_ticket_def p_def)
    with facts T_signal show thesis by (intro that [of p T_unlock2]) (simp_all add: t_pos_goto)
  next
    case T_unlock2
    with assms up i have "s' = goto i T_done (s\<lparr>cnt_mutex2 := None\<rparr>)"
      by (simp add: book_ticket_def p_def)
    with facts T_unlock2 show thesis by (intro that [of p T_done]) (simp_all add: t_pos_goto)
  next
    case T_done
    with assms up i show thesis by (simp add: book_ticket_def p_def)
  qed
qed


lemma thread_inv:
  assumes "book_ticket i s = Some s'" and lock: "lock_inv s" and tick: "ticket_inv s" and cnt: "count_inv n s"
    and wt: "wait_inv s"
    and args: "\<forall>j < length (threads s). -5 \<le> req (threads s ! j)"
  shows "lock_inv s'" and "ticket_inv s'" and "count_inv n s'" and "wait_inv s'"
proof -
  from thread_cases [OF assms(1)] obtain p q where i: "i < length (threads s)" and p: "t_pos s i = Some p"
    and q: "t_pos s' = (t_pos s)(i \<mapsto> q)"
    and req: "\<forall>j < length (threads s). req (threads s' ! j) = req (threads s ! j)"
    and pq: "(p, q) \<in> {(T_lock, T_test), (T_test, T_take), (T_test, T_refuse), (T_take, T_print), (T_print, T_unlock),
      (T_refuse, T_unlock), (T_unlock, T_lock2), (T_lock2, T_dec), (T_dec, T_signal), (T_signal, T_unlock2), (T_unlock2, T_done)}"
    and free: "p = T_lock \<longrightarrow> cnt_mutex s = None" "p = T_lock2 \<longrightarrow> cnt_mutex2 s = None"
    and enough: "q = T_take \<longrightarrow> req (threads s ! i) \<le> ticket s"
    and ticket': "ticket s' = (if p = T_take then MIN_of (ticket s - req (threads s ! i)) 100 else ticket s)"
    and count': "global_count s' = (if p = T_dec then global_count s - 1 else global_count s)"
    and m1: "cnt_mutex s' = (if p = T_lock then Some i else if p = T_unlock then None else cnt_mutex s)"
    and m2: "cnt_mutex2 s' = (if p = T_lock2 then Some (Thread i) else if p = T_unlock2 then None else cnt_mutex2 s)"
    and b': "b_at s' = (if p = T_signal \<and> global_count s \<le> 5 \<and> b_at s = B_wait then B_relock else b_at s)" .
  from lock p have own1: "cnt_mutex s = Some i \<longleftrightarrow> holds1 (Some p)" and own2: "cnt_mutex2 s = Some (Thread i) \<longleftrightarrow> holds2 (Some p)"
    by (metis lock_inv_def)+
  have main: "main_holds (b_at s') = main_holds (b_at s)" by (simp add: b' main_holds_def)
  have l: "cnt_mutex s = Some j \<longleftrightarrow> holds1 (t_pos s j)" "cnt_mutex2 s = Some (Thread j) \<longleftrightarrow> holds2 (t_pos s j)"
    "cnt_mutex2 s = Some Main \<longleftrightarrow> main_holds (b_at s)" for j
    using lock by (simp_all add: lock_inv_def)
  have "cnt_mutex s' = Some j \<longleftrightarrow> holds1 (t_pos s' j)" for j
    unfolding m1 q using l(1) [of j] own1 free(1) pq by (cases "j = i") auto
  moreover have "cnt_mutex2 s' = Some (Thread j) \<longleftrightarrow> holds2 (t_pos s' j)" for j
    unfolding m2 q using l(2) [of j] own2 free(2) pq by (cases "j = i") auto
  moreover have "cnt_mutex2 s' = Some Main \<longleftrightarrow> main_holds (b_at s')"
    unfolding m2 main using l(3) own2 free(2) pq by auto
  ultimately show "lock_inv s'" by (simp add: lock_inv_def)
  have spawn: "b_at s' \<in> {B_unlock, B_spawn} \<longleftrightarrow> b_at s \<in> {B_unlock, B_spawn}" "b_at s' = B_inc \<longleftrightarrow> b_at s = B_inc"
    by (simp_all add: b')
  show "count_inv n s'"
  proof (cases "p = T_dec")
    case True
    with pq p have "i \<in> in_service s" "in_service s' = in_service s - {i}" by (auto simp: in_service_def q)
    then have "int (card (in_service s')) = int (card (in_service s)) - 1"
      using card_Suc_Diff1 [of "in_service s" i] by simp
    with True cnt show ?thesis unfolding count_inv_def spawn count' by simp
  next
    case False
    with pq p have "in_service s' = in_service s" by (auto simp: in_service_def q)
    with False cnt show ?thesis unfolding count_inv_def spawn count' by simp
  qed
  have "ticket s - req (threads s ! i) \<ge> 0 \<and> ticket s - req (threads s ! i) \<le> 105" if "p = T_take"
    using that tick p args i by (auto simp: ticket_inv_def)
  moreover have "req (threads s ! j) \<le> ticket s'" if "t_pos s' j = Some T_take" for j
  proof (cases "j = i")
    case True
    with that enough pq show ?thesis by (auto simp: q ticket')
  next
    case False
    with that have j: "t_pos s j = Some T_take" by (simp add: q)
    with lock have "cnt_mutex s = Some j" by (simp add: lock_inv_def)
    with own1 False have "p \<noteq> T_take" by auto
    with tick j show ?thesis by (simp add: ticket_inv_def ticket')
  qed
  moreover have "j < length (threads s)" if "t_pos s' j = Some T_take" for j
    using that p i by (auto simp: q t_pos_def split: if_splits)
  ultimately show "ticket_inv s'" using tick req
    by (auto simp: ticket_inv_def ticket' MIN_of_def)
  show "wait_inv s'"
    unfolding wait_inv_def
  proof
    assume w: "b_at s' = B_wait \<and> global_count s' \<le> 5"
    then have nb: "b_at s = B_wait" "p = T_signal \<longrightarrow> \<not> global_count s \<le> 5" by (auto simp: b' split: if_splits)
    show "\<exists>k. t_pos s' k = Some T_signal"
    proof (cases "p = T_dec")
      case True
      with pq have "t_pos s' i = Some T_signal" by (auto simp: q)
      then show ?thesis ..
    next
      case False
      with w nb wt obtain k where k: "t_pos s k = Some T_signal" by (auto simp: wait_inv_def count')
      have "k \<noteq> i" using k p nb w False by (auto simp: count')
      with k have "t_pos s' k = Some T_signal" by (simp add: q)
      then show ?thesis ..
    qed
  qed
qed

lemma main_inv:
  assumes "b_step s = Some s'" and lock: "lock_inv s" and tick: "ticket_inv s" and cnt: "count_inv n s" and wt: "wait_inv s"
  shows "lock_inv s'" and "ticket_inv s'" and "count_inv n s'" and "wait_inv s'"
proof -
  note defs = lock_inv_def ticket_inv_def count_inv_def wait_inv_def main_holds_def
  have up: "up s" using assms(1) by (simp add: b_step_def split: if_splits)
  have "lock_inv s' \<and> ticket_inv s' \<and> count_inv n s' \<and> wait_inv s'"
  proof (cases "b_at s = B_spawn")
    case True
    let ?n = "length (threads s)" and ?t = "\<lparr>req = Aqueue s ! out s, t_at = T_lock\<rparr>"
    from assms(1) up True have "s' = s\<lparr>threads := threads s @ [?t], out := (out s + 1) mod 10, b_at := B_V\<rparr>"
      by (simp add: b_step_def)
    then have s': "threads s' = threads s @ [?t]" "b_at s' = B_V" "ticket s' = ticket s" "global_count s' = global_count s"
      "cnt_mutex s' = cnt_mutex s" "cnt_mutex2 s' = cnt_mutex2 s" by simp_all
    from t_pos_spawn [OF s'(1)] have pos: "t_pos s' = (t_pos s)(?n \<mapsto> T_lock)" by simp
    have new: "?n \<notin> in_service s" "t_pos s ?n = None" by (simp_all add: in_service_def)
    have "in_service s' = insert ?n (in_service s)" by (auto simp: in_service_def pos)
    with new cnt True have "count_inv n s'" by (simp add: count_inv_def s')
    moreover have "t_pos s j = Some p \<Longrightarrow> j < ?n" for j p by (auto simp: t_pos_def split: if_splits)
    then have "ticket_inv s'" using tick by (auto simp: ticket_inv_def pos s' nth_append)
    moreover have "lock_inv s'" "wait_inv s'" using lock True new
      by (auto simp: lock_inv_def wait_inv_def main_holds_def pos s')
    ultimately show ?thesis by blast
  next
    case False
    then have th: "threads s' = threads s" and tk: "ticket s' = ticket s" and mm: "cnt_mutex s' = cnt_mutex s"
      using assms(1) up by (auto simp: b_step_def lock2_def split: b_pc.splits if_splits)
    have pos: "t_pos s' = t_pos s" "in_service s' = in_service s" using t_pos_same [OF th] by (simp_all add: in_service_def)
    from tick have "ticket_inv s'" by (simp add: ticket_inv_def pos tk th)
    moreover from lock have "b_at s \<in> {B_lock, B_relock} \<Longrightarrow> cnt_mutex2 s = None \<Longrightarrow> \<not> holds2 (t_pos s i)" for i
      by (metis lock_inv_def option.distinct(1))
    then have "lock_inv s'" using lock assms(1) up False
      by (cases "b_at s") (auto simp: b_step_def lock2_def lock_inv_def main_holds_def pos mm split: if_splits)
    moreover have "count_inv n s'" using cnt assms(1) up False
      by (cases "b_at s") (auto simp: b_step_def lock2_def count_inv_def pos split: if_splits)
    moreover have "wait_inv s'" using wt assms(1) up False
      by (cases "b_at s") (auto simp: b_step_def lock2_def wait_inv_def pos split: if_splits)
    ultimately show ?thesis by blast
  qed
  then show "lock_inv s'" "ticket_inv s'" "count_inv n s'" "wait_inv s'" by simp_all
qed

subsection \<open>All of it\<close>

definition tickets_inv :: "nat \<Rightarrow> system \<Rightarrow> bool" where
  "tickets_inv n s \<longleftrightarrow> (up s \<longrightarrow> flow_inv n s \<and> lock_inv s \<and> ticket_inv s \<and> count_inv n s \<and> wait_inv s)"

lemma invs_frame:
  assumes "threads s' = threads s" "cnt_mutex s' = cnt_mutex s" "cnt_mutex2 s' = cnt_mutex2 s" "ticket s' = ticket s"
    "global_count s' = global_count s" "b_at s' = b_at s"
  shows "lock_inv s' = lock_inv s" "ticket_inv s' = ticket_inv s" "count_inv n s' = count_inv n s" "wait_inv s' = wait_inv s"
  using assms t_pos_same [OF assms(1)]
  by (simp_all add: lock_inv_def ticket_inv_def count_inv_def wait_inv_def in_service_def)

lemma tickets_step_inv:
  assumes inv: "tickets_inv n s" and step: "tickets_step s s'"
  shows "tickets_inv n s'"
  using step
proof cases
  case (client r)
  then have same: "threads s' = threads s" "cnt_mutex s' = cnt_mutex s" "cnt_mutex2 s' = cnt_mutex2 s" "ticket s' = ticket s"
    "global_count s' = global_count s" "b_at s' = b_at s" "up s' = up s"
    by (auto simp: a_step_def Let_def split: a_pc.splits if_splits)
  with inv flow_a [OF _ client] show ?thesis
    unfolding tickets_inv_def invs_frame [OF same(1-6)] same(7) by blast
next
  case server
  then have up: "up s" by (simp add: b_step_def split: if_splits)
  with inv flow_b [OF _ server] main_inv [OF server] show ?thesis by (auto simp: tickets_inv_def)
next
  case (thread i)
  from thread_frame [OF thread] have up: "up s" by simp
  with inv have f: "flow_inv n s" by (simp add: tickets_inv_def)
  have args: "\<forall>j < length (threads s). -5 \<le> req (threads s ! j)"
  proof (intro allI impI)
    fix j
    assume j: "j < length (threads s)"
    then have "req (threads s ! j) \<in> set (map req (threads s))" by simp
    also have "set (map req (threads s)) \<subseteq> set (a_out s)"
      using f by (auto simp: flow_inv_def elim!: list_emb_set dest: in_set_takeD)
    finally show "-5 \<le> req (threads s ! j)" using f by (simp add: flow_inv_def)
  qed
  from inv up flow_t [OF f thread] thread_inv [where n = n, OF thread _ _ _ _ args] show ?thesis by (simp add: tickets_inv_def)
next
  case spurious
  then have s': "up s" "s' = s\<lparr>b_at := B_relock\<rparr>" "b_at s = B_wait" by (auto simp: wake_def split: if_splits)
  with inv show ?thesis
    by (simp add: tickets_inv_def flow_inv_def a_busy_def b_busy_def lock_inv_def ticket_inv_def count_inv_def
        wait_inv_def main_holds_def in_service_def)
next
  case (sigint shm ps cs)
  then show ?thesis by (simp add: tickets_inv_def my_handler_def Let_def)
qed

text \<open>A request for which no thread could be started moves from those to be served to those lost.\<close>

lemma no_thread_inv:
  assumes inv: "tickets_inv n s" and step: "no_thread s = Some s'"
  shows "tickets_inv (Suc n) s'"
proof -
  let ?m = "taken n s"
  from step have at: "up s" "b_at s = B_spawn" and s': "s' = s\<lparr>out := (out s + 1) mod 10, b_at := B_V\<rparr>"
    by (auto simp: no_thread_def split: if_splits)
  with inv have i: "flow_inv n s" "lock_inv s" "ticket_inv s" "count_inv n s" "wait_inv s" by (simp_all add: tickets_inv_def)
  have pos: "t_pos s' = t_pos s" by (rule t_pos_same) (simp add: s')
  have "subseq (map req (threads s)) (take ?m (a_out s) @ drop ?m (take (Suc ?m) (a_out s)))"
    using i(1) by (intro subseq_rev_drop_many) (simp add: flow_inv_def)
  also have "take ?m (a_out s) @ drop ?m (take (Suc ?m) (a_out s)) = take (Suc ?m) (a_out s)"
    using append_take_drop_id [of ?m "take (Suc ?m) (a_out s)"] by (simp add: min_def)
  finally have "subseq (map req (threads s')) (take (taken (Suc n) s') (a_out s'))" by (simp add: s')
  with i(1) at have "flow_inv (Suc n) s'" by (simp add: flow_inv_def a_busy_def b_busy_def s')
  moreover from i(4) at have "count_inv (Suc n) s'" by (simp add: count_inv_def in_service_def pos) (simp add: s')
  moreover from i at have "lock_inv s'" "ticket_inv s'" "wait_inv s'"
    by (simp_all add: lock_inv_def ticket_inv_def wait_inv_def pos) (simp_all add: s' main_holds_def)
  ultimately show ?thesis by (simp add: tickets_inv_def)
qed

interpretation tickets: transition_system "start cells" tickets_step "tickets_inv 0"
proof
  fix s
  assume "start cells s"
  with flow_start start_inv show "tickets_inv 0 s" by (simp add: tickets_inv_def)
next
  fix s t
  assume "tickets_inv 0 s" "tickets_step s t"
  then show "tickets_inv 0 t" by (rule tickets_step_inv)
qed

definition lossy_start :: "int list \<Rightarrow> nat \<times> system \<Rightarrow> bool" where
  "lossy_start cells c \<longleftrightarrow> fst c = 0 \<and> start cells (snd c)"

interpretation lossy: transition_system "lossy_start cells" lossy_step "\<lambda>c. tickets_inv (fst c) (snd c)"
  using tickets.start_inv
  by unfold_locales (auto simp: lossy_start_def elim!: lossy_stepE intro: tickets_step_inv no_thread_inv)

end
