(* ===== verification/Tickets_Linear.thy ===== *)
theory Tickets_Linear
  imports Tickets_Inv
begin

text \<open>
  The booking threads against their specification: each request is booked in one step, one after the other.
  The threads lock, test, take and print in separate steps, and interleave; what they have printed and the tickets
  left are nevertheless those of the requests booked one at a time, in the order of the answers.
\<close>

subsection \<open>Booking one request\<close>

definition book1 :: "int \<Rightarrow> int \<times> report list \<Rightarrow> int \<times> report list" where
  "book1 x = (\<lambda>(n, rs). if x \<le> n then (MIN_of (n - x) 100, rs @ [Tickets_available (MIN_of (n - x) 100)])
     else (n, rs @ [Cannot_fulfil]))"

definition book_all :: "int list \<Rightarrow> int \<times> report list" where
  "book_all xs = fold book1 xs (100, [])"

lemma book_all_Nil [simp]: "book_all [] = (100, [])"
  by (simp add: book_all_def)

lemma book_all_snoc [simp]: "book_all (xs @ [x]) = book1 x (book_all xs)"
  by (simp add: book_all_def)

lemma book_all_length: "length (snd (book_all xs)) = length xs"
  by (induction xs rule: rev_induct) (auto simp: book1_def split: prod.splits if_splits)

subsection \<open>The threads that have answered\<close>

definition answered :: "t_pc option \<Rightarrow> bool" where
  "answered p \<longleftrightarrow> p \<in> Some ` {T_unlock, T_lock2, T_dec, T_signal, T_unlock2, T_done}"

lemma answered_simps [simp]:
  "answered (Some p) \<longleftrightarrow> p \<in> {T_unlock, T_lock2, T_dec, T_signal, T_unlock2, T_done}" "\<not> answered None"
  by (auto simp: answered_def)

text \<open>The requests of the threads `ks`, in that order.\<close>

definition asked :: "system \<Rightarrow> nat list \<Rightarrow> int list" where
  "asked s ks = map (\<lambda>k. req (threads s ! k)) ks"

text \<open>
  `ks` are the threads that have answered, in the order of their answers.  Between taking the tickets and printing the answer
  a thread is ahead of that order; it holds the mutex, so there is at most one.
\<close>

definition printing :: "system \<Rightarrow> bool" where
  "printing s \<longleftrightarrow> (\<exists>k. t_pos s k = Some T_print)"

definition linear :: "system \<Rightarrow> nat list \<Rightarrow> bool" where
  "linear s ks \<longleftrightarrow> distinct ks \<and> (\<forall>k. k \<in> set ks \<longleftrightarrow> answered (t_pos s k)) \<and>
     b_out s = snd (book_all (asked s ks)) \<and>
     (\<not> printing s \<longrightarrow> ticket s = fst (book_all (asked s ks))) \<and>
     (\<forall>k. t_pos s k = Some T_print \<longrightarrow> req (threads s ! k) \<le> fst (book_all (asked s ks)) \<and>
        ticket s = MIN_of (fst (book_all (asked s ks)) - req (threads s ! k)) 100) \<and>
     (\<forall>k. t_pos s k = Some T_refuse \<longrightarrow> \<not> req (threads s ! k) \<le> ticket s)"

lemma linearI:
  assumes "distinct ks" and "\<And>k. k \<in> set ks \<longleftrightarrow> answered (t_pos s k)" and "b_out s = snd (book_all (asked s ks))"
    and "\<not> printing s \<Longrightarrow> ticket s = fst (book_all (asked s ks))"
    and "\<And>k. t_pos s k = Some T_print \<Longrightarrow> req (threads s ! k) \<le> fst (book_all (asked s ks)) \<and>
      ticket s = MIN_of (fst (book_all (asked s ks)) - req (threads s ! k)) 100"
    and "\<And>k. t_pos s k = Some T_refuse \<Longrightarrow> \<not> req (threads s ! k) \<le> ticket s"
  shows "linear s ks"
  using assms unfolding linear_def by blast

definition linear_inv :: "nat \<Rightarrow> system \<Rightarrow> bool" where
  "linear_inv n s \<longleftrightarrow> tickets_inv n s \<and> (up s \<longrightarrow> (\<exists>ks. linear s ks))"

lemma linear_bound: "linear s ks \<Longrightarrow> k \<in> set ks \<Longrightarrow> k < length (threads s)"
  by (auto simp: linear_def t_pos_def split: if_splits)

text \<open>What leaves the threads, the tickets and the output alone keeps the order; so does starting a thread.\<close>

lemma linear_frame:
  "linear s ks \<Longrightarrow> threads s' = threads s \<Longrightarrow> ticket s' = ticket s \<Longrightarrow> b_out s' = b_out s \<Longrightarrow> linear s' ks"
  using t_pos_same [of s' s] by (simp add: linear_def asked_def printing_def)

lemma linear_spawn:
  assumes "linear s ks" and "threads s' = threads s @ [\<lparr>req = x, t_at = T_lock\<rparr>]" and "ticket s' = ticket s" and "b_out s' = b_out s"
  shows "linear s' ks"
proof -
  have pos: "t_pos s' = (t_pos s)(length (threads s) \<mapsto> T_lock)" using t_pos_spawn [OF assms(2)] by simp
  have old: "req (threads s' ! k) = req (threads s ! k)" if "t_pos s k \<noteq> None" for k
    using that by (auto simp: t_pos_def assms(2) nth_append split: if_splits)
  moreover have "t_pos s k \<noteq> None" if "k \<in> set ks" for k
    using linear_bound [OF assms(1) that] by (simp add: t_pos_def)
  ultimately have "asked s' ks = asked s ks" by (simp add: asked_def)
  moreover have "t_pos s' k = Some T_print \<longleftrightarrow> t_pos s k = Some T_print" for k
    by (cases "k = length (threads s)") (simp_all add: pos)
  then have "printing s' = printing s" by (simp add: printing_def)
  ultimately show ?thesis using assms(1,3,4) old by (auto simp: linear_def pos)
qed

text \<open>A step of a booking thread: one that prints joins the order, the others keep it.\<close>

lemma linear_thread:
  assumes lin: "linear s ks" and lock: "lock_inv s" and tick: "ticket_inv s" and step: "book_ticket i s = Some s'"
  shows "\<exists>ks'. linear s' ks'"
proof -
  from thread_cases [OF step] obtain p q where i: "i < length (threads s)" and p: "t_pos s i = Some p"
    and q: "t_pos s' = (t_pos s)(i \<mapsto> q)"
    and req: "\<forall>j < length (threads s). req (threads s' ! j) = req (threads s ! j)"
    and pq: "(p, q) \<in> {(T_lock, T_test), (T_test, T_take), (T_test, T_refuse), (T_take, T_print), (T_print, T_unlock),
      (T_refuse, T_unlock), (T_unlock, T_lock2), (T_lock2, T_dec), (T_dec, T_signal), (T_signal, T_unlock2), (T_unlock2, T_done)}"
    and take: "q = T_take \<longrightarrow> req (threads s ! i) \<le> ticket s"
    and ticket': "ticket s' = (if p = T_take then MIN_of (ticket s - req (threads s ! i)) 100 else ticket s)"
    and refuse: "q = T_refuse \<longrightarrow> \<not> req (threads s ! i) \<le> ticket s"
    and out': "b_out s' = b_out s @ (if p = T_print then [Tickets_available (ticket s)] else if p = T_refuse then [Cannot_fulfil] else [])" .
  have alone: "k = i" if "holds1 (t_pos s k)" "holds1 (Some p)" for k
    using that p lock unfolding lock_inv_def by (metis option.inject)
  have old: "req (threads s' ! k) = req (threads s ! k)" if "t_pos s k \<noteq> None" for k
    using that req by (simp add: t_pos_def split: if_splits)
  let ?x = "req (threads s ! i)" and ?n = "fst (book_all (asked s ks))"
  have same: "asked s' ks = asked s ks" using linear_bound [OF lin] req by (simp add: asked_def)
  then have snoc: "asked s' (ks @ [i]) = asked s ks @ [?x]" using req i by (simp add: asked_def)
  have book: "book_all (asked s ks) = (?n, b_out s)" using lin by (simp add: linear_def prod_eq_iff)
  have only: "t_pos s k \<notin> {Some T_print, Some T_refuse}" if "k \<noteq> i" "holds1 (Some p)" for k
    using that alone [of k] by auto
  have level: "ticket s = ?n" if "holds1 (Some p)" "p \<noteq> T_print"
  proof -
    have "t_pos s k \<noteq> Some T_print" for k using only [of k] that p by (cases "k = i") auto
    with lin show ?thesis by (simp add: linear_def printing_def)
  qed
  consider (hidden) "answered (Some q) = answered (Some p)" | (print) "p \<in> {T_print, T_refuse}" "q = T_unlock"
    using pq by auto
  then show ?thesis
  proof cases
    case hidden
    have "linear s' ks"
    proof (rule linearI)
      show "distinct ks" using lin by (simp add: linear_def)
      show "k \<in> set ks \<longleftrightarrow> answered (t_pos s' k)" for k
        using lin hidden p by (simp add: q linear_def)
      show "b_out s' = snd (book_all (asked s' ks))" using lin hidden pq by (auto simp: linear_def out' same)
    next
      assume quiet: "\<not> printing s'"
      then have "t_pos s' i \<noteq> Some T_print" by (simp add: printing_def)
      then have "p \<noteq> T_take" using pq by (auto simp: q)
      have "\<not> printing s"
      proof
        assume "printing s"
        then obtain k where "t_pos s k = Some T_print" by (auto simp: printing_def)
        moreover from quiet have "t_pos s' k \<noteq> Some T_print" by (simp add: printing_def)
        ultimately show False using hidden p pq by (cases "k = i") (auto simp: q)
      qed
      with lin \<open>p \<noteq> T_take\<close> show "ticket s' = fst (book_all (asked s' ks))" by (simp add: same linear_def ticket')
    next
      fix k
      assume k: "t_pos s' k = Some T_print"
      show "req (threads s' ! k) \<le> fst (book_all (asked s' ks)) \<and>
          ticket s' = MIN_of (fst (book_all (asked s' ks)) - req (threads s' ! k)) 100"
      proof (cases "k = i")
        case True
        with k pq have "p = T_take" by (auto simp: q)
        with level p tick True old show ?thesis by (auto simp: ticket' same ticket_inv_def)
      next
        case False
        with k have "t_pos s k = Some T_print" by (simp add: q)
        with only [of k] False lin old show ?thesis by (auto simp: linear_def ticket' same)
      qed
    next
      fix k
      assume k: "t_pos s' k = Some T_refuse"
      show "\<not> req (threads s' ! k) \<le> ticket s'"
      proof (cases "k = i")
        case True
        with k pq refuse old p show ?thesis by (auto simp: q ticket')
      next
        case False
        with k have "t_pos s k = Some T_refuse" by (simp add: q)
        with only [of k] False lin old show ?thesis by (auto simp: linear_def ticket')
      qed
    qed
    then show ?thesis ..
  next
    case print
    have none: "t_pos s' k \<noteq> Some T_print" "t_pos s' k \<noteq> Some T_refuse" for k
      using only [of k] print by (cases "k = i"; auto simp: q)+
    have "i \<notin> set ks" using lin p print by (auto simp: linear_def)
    have booked: "book1 ?x (?n, b_out s) = (ticket s', b_out s')"
    proof (cases "p = T_print")
      case True
      with lin p have "?x \<le> ?n" "ticket s = MIN_of (?n - ?x) 100" by (simp_all add: linear_def)
      with True show ?thesis by (simp add: book1_def ticket' out')
    next
      case False
      with print lin p level have "\<not> ?x \<le> ?n" "ticket s = ?n" by (auto simp: linear_def)
      with False print show ?thesis by (simp add: book1_def ticket' out')
    qed
    have total: "book_all (asked s' (ks @ [i])) = (ticket s', b_out s')"
      unfolding snoc book_all_snoc by (subst book) (rule booked)
    have "linear s' (ks @ [i])"
    proof (rule linearI)
      show "distinct (ks @ [i])" using lin \<open>i \<notin> set ks\<close> by (simp add: linear_def)
      show "k \<in> set (ks @ [i]) \<longleftrightarrow> answered (t_pos s' k)" for k
        using lin print by (simp add: q linear_def)
    qed (simp_all add: none total)
    then show ?thesis ..
  qed
qed

text \<open>Along every interleaving.\<close>

lemma linear_start: "start cells s \<Longrightarrow> linear s []"
  by (rule linearI) (simp_all add: start_eq t_pos_def asked_def)

lemma linear_step:
  assumes inv: "linear_inv n s" and step: "tickets_step s s'"
  shows "linear_inv n s'"
proof -
  have inv': "tickets_inv n s'" using inv tickets_step_inv [OF _ step] by (simp add: linear_inv_def)
  have "\<exists>ks. linear s' ks" if up': "up s'"
    using step
  proof cases
    case (client r)
    then have same: "threads s' = threads s" "ticket s' = ticket s" "b_out s' = b_out s" "up s' = up s"
      by (auto simp: a_step_def Let_def split: a_pc.splits if_splits)
    with inv up' show ?thesis by (auto simp: linear_inv_def intro: linear_frame)
  next
    case server
    then have up: "up s" by (simp add: b_step_def split: if_splits)
    with inv obtain ks where ks: "linear s ks" by (auto simp: linear_inv_def)
    have "ticket s' = ticket s" "b_out s' = b_out s"
      "threads s' = threads s \<or> (\<exists>x. threads s' = threads s @ [\<lparr>req = x, t_at = T_lock\<rparr>])"
      using server up by (auto simp: b_step_def lock2_def split: b_pc.splits if_splits)
    with ks show ?thesis by (auto intro: linear_frame linear_spawn)
  next
    case (thread i)
    then have up: "up s" by (simp add: book_ticket_def split: if_splits)
    with inv obtain ks where "linear s ks" by (auto simp: linear_inv_def)
    with linear_thread [OF _ _ _ thread] inv up show ?thesis by (auto simp: linear_inv_def tickets_inv_def)
  next
    case spurious
    then have "threads s' = threads s" "ticket s' = ticket s" "b_out s' = b_out s" "up s"
      by (auto simp: wake_def split: if_splits)
    with inv show ?thesis by (auto simp: linear_inv_def intro: linear_frame)
  next
    case (sigint shm ps cs)
    with up' show ?thesis by (simp add: my_handler_def Let_def)
  qed
  with inv' show ?thesis by (simp add: linear_inv_def)
qed

interpretation linear: transition_system "start cells" tickets_step "linear_inv 0"
proof
  fix s
  assume "start cells s"
  then show "linear_inv 0 s" using linear_start tickets.start_inv by (auto simp: linear_inv_def)
next
  fix s t
  assume "linear_inv 0 s" "tickets_step s t"
  then show "linear_inv 0 t" by (rule linear_step)
qed

text \<open>A request for which no thread could be started has no place in the order.\<close>

lemma linear_lost:
  assumes "linear_inv n s" and "no_thread s = Some s'"
  shows "linear_inv (Suc n) s'"
proof -
  from assms(2) have "threads s' = threads s" "ticket s' = ticket s" "b_out s' = b_out s" "up s"
    by (auto simp: no_thread_def split: if_splits)
  with assms no_thread_inv show ?thesis by (auto simp: linear_inv_def intro: linear_frame)
qed

interpretation lossy_linear: transition_system "lossy_start cells" lossy_step "\<lambda>c. linear_inv (fst c) (snd c)"
  using linear.start_inv
  by unfold_locales (auto simp: lossy_start_def elim!: lossy_stepE intro: linear_step linear_lost)

end
