(* ===== verification/Tickets_Live.thy ===== *)
theory Tickets_Live
  imports Tickets_Linear
begin

text \<open>
  Progress of the ticket server: when no step of its threads is possible, nothing is left to do; and
  when no more requests come in, only so many steps are possible.
\<close>

lemma reach_up: "reach (start cells) tickets_step s \<Longrightarrow> up s \<Longrightarrow>
    flow_inv 0 s \<and> lock_inv s \<and> ticket_inv s \<and> count_inv 0 s \<and> wait_inv s"
  using tickets.reach_inv by (auto simp: tickets_inv_def)

subsection \<open>Who can move\<close>

lemma holder1_moves:
  assumes "lock_inv s" and "up s" and "cnt_mutex s = Some j"
  shows "book_ticket j s \<noteq> None"
proof -
  from assms have "holds1 (t_pos s j)" by (auto simp: lock_inv_def)
  then show ?thesis using assms(2) by (auto simp: t_pos_def book_ticket_def Let_def split: if_splits)
qed

lemma holder2_moves:
  assumes "lock_inv s" and "up s" and "cnt_mutex2 s \<noteq> None" and "\<not> main_holds (b_at s)"
  shows "\<exists>j. book_ticket j s \<noteq> None"
proof -
  from assms(3) obtain w where "cnt_mutex2 s = Some w" by blast
  with assms(1,4) obtain j where "holds2 (t_pos s j)" by (cases w) (auto simp: lock_inv_def)
  then have "book_ticket j s \<noteq> None" using assms(2) by (auto simp: t_pos_def book_ticket_def Let_def split: if_splits)
  then show ?thesis ..
qed

lemma in_service_moves:
  assumes lock: "lock_inv s" and up: "up s" and main: "\<not> main_holds (b_at s)" and i: "i \<in> in_service s"
  shows "\<exists>j. book_ticket j s \<noteq> None"
proof (cases "book_ticket i s")
  case None
  from i have "i < length (threads s)" "t_at (threads s ! i) \<notin> {T_signal, T_unlock2, T_done}"
    by (auto simp: in_service_def t_pos_def split: if_splits)
  with None up have "cnt_mutex s \<noteq> None \<or> cnt_mutex2 s \<noteq> None"
    by (auto simp: book_ticket_def lock2_def Let_def split: t_pc.splits if_splits)
  with holder1_moves [OF lock up] holder2_moves [OF lock up _ main] show ?thesis by blast
qed blast

lemma main_moves:
  assumes lock: "lock_inv s" and cnt: "count_inv n s" and few: "n \<le> 5" and wt: "wait_inv s" and up: "up s"
    and "b_step s = None" and cs: "b_at s = B_P \<longrightarrow> CS s \<noteq> 0"
  shows "\<exists>j. book_ticket j s \<noteq> None"
proof (cases "b_at s = B_wait")
  case True
  then have main: "\<not> main_holds (b_at s)" by (simp add: main_holds_def)
  show ?thesis
  proof (cases "global_count s \<le> 5")
    case low: True
    with True wt obtain i where "t_pos s i = Some T_signal" by (auto simp: wait_inv_def)
    then have "book_ticket i s \<noteq> None" using up by (auto simp: t_pos_def book_ticket_def split: if_splits)
    then show ?thesis ..
  next
    case False
    with cnt True few have "card (in_service s) \<noteq> 0" by (auto simp: count_inv_def)
    then obtain i where "i \<in> in_service s" by (metis all_not_in_conv card.empty)
    from in_service_moves [OF lock up main this] show ?thesis .
  qed
next
  case False
  with \<open>b_step s = None\<close> up cs have "b_at s \<in> {B_lock, B_relock}" "cnt_mutex2 s \<noteq> None"
    by (auto simp: b_step_def lock2_def split: b_pc.splits if_splits)
  with holder2_moves [OF lock up] show ?thesis by (auto simp: main_holds_def)
qed

subsection \<open>The work left\<close>

text \<open>A step of the server's main thread or of a booking thread.\<close>

inductive serve_step :: "system \<Rightarrow> system \<Rightarrow> bool" where
  main: "b_step s = Some s' \<Longrightarrow> serve_step s s'"
| booking: "book_ticket i s = Some s' \<Longrightarrow> serve_step s s'"

inductive_cases serve_stepE: "serve_step s s'"

lemma serve_step_tickets: "serve_step s s' \<Longrightarrow> tickets_step s s'"
  by (auto elim!: serve_stepE intro: tickets_step.intros)

text \<open>
  How many steps a thread, the main thread and a request not yet taken still cost.  A thread that is about to
  signal pays for the two steps that waking the main thread costs.
\<close>

definition t_rank :: "t_pc \<Rightarrow> nat" where
  "t_rank p = (case p of T_lock \<Rightarrow> 11 | T_test \<Rightarrow> 10 | T_take \<Rightarrow> 9 | T_print \<Rightarrow> 8 | T_refuse \<Rightarrow> 8 | T_unlock \<Rightarrow> 7
     | T_lock2 \<Rightarrow> 6 | T_dec \<Rightarrow> 5 | T_signal \<Rightarrow> 4 | T_unlock2 \<Rightarrow> 1 | T_done \<Rightarrow> 0)"

definition b_rank :: "b_pc \<Rightarrow> nat" where
  "b_rank p = (case p of B_P \<Rightarrow> 0 | B_V \<Rightarrow> 1 | B_spawn \<Rightarrow> 13 | B_unlock \<Rightarrow> 14 | B_inc \<Rightarrow> 15 | B_wait \<Rightarrow> 16 | B_while \<Rightarrow> 17
     | B_relock \<Rightarrow> 18 | B_test \<Rightarrow> 18 | B_lock \<Rightarrow> 19)"

definition work :: "system \<Rightarrow> nat" where
  "work s = sum_list (map (\<lambda>t. t_rank (t_at t)) (threads s)) + b_rank (b_at s) + 20 * CS s"

lemma work_bound: "work s \<le> 11 * length (threads s) + 19 + 20 * CS s"
proof -
  have "sum_list (map (\<lambda>t. t_rank (t_at t)) ts) \<le> 11 * length ts" for ts
  proof (induction ts)
    case (Cons t ts)
    have "t_rank (t_at t) \<le> 11" by (cases "t_at t") (simp_all add: t_rank_def)
    with Cons show ?case by simp
  qed simp
  moreover have "b_rank (b_at s) \<le> 19" by (cases "b_at s") (simp_all add: b_rank_def)
  ultimately show ?thesis unfolding work_def by (intro add_mono) simp_all
qed

lemma work_goto:
  assumes "i < length (threads s)" and "t_pos s i = Some p"
  shows "work (goto i q s) + t_rank p = work s + t_rank q"
  using sum_list_replace [OF assms(1), of "\<lambda>t. t_rank (t_at t)" "(threads s ! i)\<lparr>t_at := q\<rparr>"] assms
  by (simp add: work_def goto_def t_pos_def)

lemma work_upd [simp]:
  "work (s\<lparr>cnt_mutex := a\<rparr>) = work s" "work (s\<lparr>cnt_mutex2 := b\<rparr>) = work s" "work (s\<lparr>ticket := c\<rparr>) = work s"
  "work (s\<lparr>global_count := d\<rparr>) = work s" "work (say m s) = work s"
  by (simp_all add: work_def)

lemma book_ticket_work:
  assumes "book_ticket i s = Some s'"
  shows "work s' < work s"
proof -
  from assms obtain p where i: "i < length (threads s)" "t_pos s i = Some p"
    by (auto simp: book_ticket_def t_pos_def split: if_splits)
  have less: "work (goto i q u) < work s"
    if "threads u = threads s" "work u + t_rank q < work s + t_rank p" for q u
    using work_goto [of i u p q] i that t_pos_same [of u s] by simp
  from assms i(2) show ?thesis
  proof (cases p)
    case T_signal
    have "work (s\<lparr>b_at := B_relock\<rparr>) = work s + 2" if "b_at s = B_wait" using that by (simp add: work_def b_rank_def)
    with T_signal assms i(2) show ?thesis
      by (auto simp: book_ticket_def t_pos_def t_rank_def Let_def split: if_splits intro!: less)
  qed (auto simp: book_ticket_def t_pos_def t_rank_def lock2_def Let_def split: if_splits intro!: less)
qed

lemma b_step_work:
  assumes "b_step s = Some s'"
  shows "work s' < work s"
  using assms
  by (cases "b_at s") (auto simp: b_step_def work_def b_rank_def t_rank_def lock2_def split: if_splits)

lemma serve_work: "serve_step s s' \<Longrightarrow> work s' < work s"
  by (elim serve_stepE) (auto intro: book_ticket_work b_step_work)

lemma serve_run: "(serve_step ^^ n) s s' \<Longrightarrow> work s' + n \<le> work s"
proof (induction n arbitrary: s')
  case (Suc n)
  then obtain t where "work t + n \<le> work s" "serve_step t s'" by auto
  with serve_work [of t s'] show ?case by simp
qed simp

lemma serve_run_reach: "reach st tickets_step s \<Longrightarrow> (serve_step ^^ n) s s' \<Longrightarrow> reach st tickets_step s'"
  by (induction n arbitrary: s') (auto intro: reach_step serve_step_tickets)

lemma serve_step_up: "serve_step s s' \<Longrightarrow> up s' = up s \<and> a_at s' = a_at s \<and> a_out s' = a_out s"
  using thread_frame by (auto elim!: serve_stepE simp: b_step_def lock2_def split: b_pc.splits if_splits)

lemma serve_run_up: "(serve_step ^^ n) s s' \<Longrightarrow> up s' = up s \<and> a_at s' = a_at s \<and> a_out s' = a_out s"
  by (induction n arbitrary: s') (auto dest!: serve_step_up)

subsection \<open>When no step is possible\<close>

lemma quiet_moves:
  assumes "\<not> (\<exists>u. serve_step s u)"
  shows "b_step s = None" and "book_ticket i s = None"
proof -
  show "b_step s = None" by (cases "b_step s") (use assms serve_step.main in auto)
  show "book_ticket i s = None" by (cases "book_ticket i s") (use assms serve_step.booking in auto)
qed

lemma quiet_done:
  assumes lock: "lock_inv s" and cnt: "count_inv n s" and few: "n \<le> 5" and wt: "wait_inv s" and up: "up s"
    and quiet: "\<not> (\<exists>u. serve_step s u)"
  shows "b_at s = B_P" and "CS s = 0" and "\<forall>k < length (threads s). t_pos s k = Some T_done" and "global_count s = int n"
proof -
  note none = quiet_moves [OF quiet]
  have "b_at s = B_P \<and> CS s = 0"
  proof (rule ccontr)
    assume "\<not> ?thesis"
    then have "\<exists>j. book_ticket j s \<noteq> None" by (intro main_moves [OF lock cnt few wt up none(1)]) simp
    with none(2) show False by simp
  qed
  then show bp: "b_at s = B_P" and "CS s = 0" by simp_all
  then have main: "\<not> main_holds (b_at s)" by (simp add: main_holds_def)
  from holder1_moves [OF lock up] none(2) have free1: "cnt_mutex s = None" by (cases "cnt_mutex s") auto
  from holder2_moves [OF lock up _ main] none(2) have free2: "cnt_mutex2 s = None" by (cases "cnt_mutex2 s") auto
  show all: "\<forall>k < length (threads s). t_pos s k = Some T_done"
  proof (intro allI impI)
    fix k
    assume "k < length (threads s)"
    with none(2) [of k] up free1 free2 show "t_pos s k = Some T_done"
      by (auto simp: t_pos_def book_ticket_def lock2_def Let_def split: t_pc.splits if_splits)
  qed
  have "in_service s = {}"
  proof -
    have "t_pos s k \<in> {None, Some T_done}" for k using all by (auto simp: t_pos_def)
    then show ?thesis by (auto simp: in_service_def) (metis insertE option.distinct(1) option.inject singletonD)
  qed
  with cnt bp show "global_count s = int n" by (simp add: count_inv_def)
qed

text \<open>Then every thread has printed its answer.\<close>

lemma all_answered:
  assumes "linear s ks" and "\<forall>k < length (threads s). t_pos s k = Some T_done"
  shows "set ks = {..<length (threads s)}" and "length (b_out s) = length (threads s)"
proof -
  have "k \<in> set ks \<longleftrightarrow> k < length (threads s)" for k
    using assms by (cases "k < length (threads s)") (auto simp: linear_def t_pos_def)
  then show set: "set ks = {..<length (threads s)}" by auto
  from assms(1) have "length (b_out s) = length ks" "distinct ks" by (simp_all add: linear_def book_all_length asked_def)
  with set show "length (b_out s) = length (threads s)" using distinct_card by fastforce
qed

end
