(* ===== verification/Tickets_Main.thy ===== *)
theory Tickets_Main
  imports Tickets_Live
begin

text \<open>
  The properties of the ticket system.  A run starts after both programs have initialised and
  interleaves the client, the server's main thread, the booking threads, spurious wake-ups and SIGINT
  in any order.
\<close>

text \<open>A run used by the witnesses: the client makes one request, the server hands it to a thread.\<close>

definition after_start :: system where
  "after_start = \<lparr>Aqueue = replicate 10 0, up = True, PS = 10, CS = 0, a_at = A_check, in_at = 0, a_out = [], b_at = B_P,
     out = 0, ticket = 100, global_count = 0, cnt_mutex = None, cnt_mutex2 = None, threads = [], b_out = []\<rparr>"

datatype move = Client nat | Server | Booking nat

fun play :: "move list \<Rightarrow> system \<Rightarrow> system option" where
  "play [] s = Some s"
| "play (m # ms) s =
     (case (case m of Client r \<Rightarrow> a_step r s | Server \<Rightarrow> b_step s | Booking i \<Rightarrow> book_ticket i s) of
        None \<Rightarrow> None | Some s' \<Rightarrow> play ms s')"

lemma play_reach: "reach st tickets_step s \<Longrightarrow> play ms s = Some s' \<Longrightarrow> reach st tickets_step s'"
proof (induction ms arbitrary: s)
  case (Cons m ms)
  from Cons.prems(2) obtain t where t: "play ms t = Some s'" "tickets_step s t"
    by (auto intro: tickets_step.intros split: option.splits move.splits)
  from Cons.IH [OF reach_step [OF Cons.prems(1) t(2)] t(1)] show ?case .
qed simp

definition one_request :: system where
  "one_request = \<lparr>Aqueue = [3, 0, 0, 0, 0, 0, 0, 0, 0, 0], up = True, PS = 9, CS = 0, a_at = A_check, in_at = 1, a_out = [3],
     b_at = B_V, out = 1, ticket = 100, global_count = 1, cnt_mutex = None, cnt_mutex2 = None,
     threads = [\<lparr>req = 3, t_at = T_lock\<rparr>], b_out = []\<rparr>"

lemma one_request_reach: "reach (start (replicate 10 0)) tickets_step one_request"
proof -
  have "reach (start (replicate 10 0)) tickets_step after_start"
    by (rule reach_start) (simp add: start_eq after_start_def)
  moreover have "play [Client 8, Client 8, Client 8, Client 8, Server, Server, Server, Server, Server, Server] after_start = Some one_request"
    by code_simp
  ultimately show ?thesis by (rule play_reach)
qed


subsection \<open>Safety\<close>

text \<open>C27: while the server is up, along every interleaving: the tickets stay between 0 and 100, every request is between -5 and
  5, at most 10 requests are in service and `global_count` is their number (with one more while the main
  thread is about to start the next), and the two semaphores never exceed the ten cells.\<close>

theorem tickets_bounds:
  assumes "reach (start cells) tickets_step s" and "up s"
  shows "0 \<le> ticket s \<and> ticket s \<le> 100 \<and> (\<forall>x \<in> set (a_out s). -5 \<le> x \<and> x \<le> 5) \<and>
    global_count s = int (card (in_service s)) + (if b_at s \<in> {B_unlock, B_spawn} then 1 else 0) \<and>
    card (in_service s) \<le> 10 \<and> PS s + CS s \<le> 10"
  using reach_up [OF assms]
  by (auto simp: flow_inv_def ticket_inv_def count_inv_def split: if_splits)

theorem tickets_bounds_witness: "0 \<le> ticket one_request \<and> card (in_service one_request) \<le> 10"
proof -
  have "up one_request" by (simp add: one_request_def)
  from tickets_bounds [OF one_request_reach this] show ?thesis by blast
qed

text \<open>C28: no request is lost, doubled or reordered: the requests given to threads are the first ones the client printed, in
  order, and those not yet given out are at most ten and lie in their cells of the ring.\<close>

theorem tickets_fifo:
  assumes "reach (start cells) tickets_step s" and "up s"
  shows "map req (threads s) = take (length (threads s)) (a_out s) \<and>
    length (threads s) \<le> length (a_out s) \<and> length (a_out s) \<le> length (threads s) + 10 \<and>
    (\<forall>k. length (threads s) \<le> k \<and> k < length (a_out s) \<longrightarrow> Aqueue s ! (k mod 10) = a_out s ! k)"
proof -
  from reach_up [OF assms] have f: "flow_inv 0 s" by blast
  then show ?thesis using flow_requests [OF f]
    by (auto simp: flow_inv_def taken_def slot_def a_busy_def b_busy_def simp del: map_eq_conv split: if_splits)
qed

theorem tickets_fifo_witness: "map req (threads one_request) = take 1 (a_out one_request)"
proof -
  have "up one_request" "length (threads one_request) = 1" by (simp_all add: one_request_def)
  with tickets_fifo [OF one_request_reach] show ?thesis by metis
qed

text \<open>C29: the mutexes exclude: two threads are never both between locking and unlocking `cnt_mutex`, nor `cnt_mutex2`, which also
  excludes the main thread; so a thread that has found enough tickets still finds them when it takes them.\<close>

theorem tickets_mutex:
  assumes "reach (start cells) tickets_step s" and "up s"
  shows "(holds1 (t_pos s i) \<and> holds1 (t_pos s j) \<longrightarrow> i = j) \<and> (holds2 (t_pos s i) \<and> holds2 (t_pos s j) \<longrightarrow> i = j) \<and>
    (holds2 (t_pos s i) \<longrightarrow> \<not> main_holds (b_at s)) \<and>
    (t_pos s i = Some T_take \<longrightarrow> req (threads s ! i) \<le> ticket s)"
proof -
  from reach_up [OF assms] have l: "cnt_mutex s = Some k \<longleftrightarrow> holds1 (t_pos s k)"
    "cnt_mutex2 s = Some (Thread k) \<longleftrightarrow> holds2 (t_pos s k)" "cnt_mutex2 s = Some Main \<longleftrightarrow> main_holds (b_at s)" for k
    by (simp_all add: lock_inv_def)
  from reach_up [OF assms] have "t_pos s i = Some T_take \<longrightarrow> req (threads s ! i) \<le> ticket s" by (simp add: ticket_inv_def)
  with l(1) [of i] l(1) [of j] l(2) [of i] l(2) [of j] l(3) show ?thesis by auto
qed

definition booking :: system where
  "booking = the (play [Booking 0, Booking 0] one_request)"

lemma booking: "reach (start (replicate 10 0)) tickets_step booking" "up booking" "t_pos booking 0 = Some T_take"
proof -
  have "play [Booking 0, Booking 0] one_request =
      Some (one_request\<lparr>cnt_mutex := Some 0, threads := [\<lparr>req = 3, t_at = T_take\<rparr>]\<rparr>)" by code_simp
  then have b: "booking = one_request\<lparr>cnt_mutex := Some 0, threads := [\<lparr>req = 3, t_at = T_take\<rparr>]\<rparr>"
    and p: "play [Booking 0, Booking 0] one_request = Some booking" by (simp_all add: booking_def)
  from p show "reach (start (replicate 10 0)) tickets_step booking" by (rule play_reach [OF one_request_reach])
  show "up booking" "t_pos booking 0 = Some T_take" by (simp_all add: b one_request_def t_pos_def)
qed

theorem tickets_mutex_witness: "t_pos booking 0 = Some T_take \<and> req (threads booking ! 0) \<le> ticket booking"
  using tickets_mutex [OF booking(1,2), of 0 0] booking(3) by simp

text \<open>C30: however the booking threads interleave, what they print and the tickets they leave are those of the requests booked
  one at a time: there is an order `ks` of exactly the threads that have answered such that the output is that of the sequential
  `book_all` on their requests in that order, and, when no thread is between taking tickets and printing them, so is the number of tickets.\<close>

theorem tickets_linear:
  assumes "reach (start cells) tickets_step s" and "up s"
  shows "\<exists>ks. distinct ks \<and> (\<forall>k. k \<in> set ks \<longleftrightarrow> answered (t_pos s k)) \<and>
    b_out s = snd (book_all (map (\<lambda>k. req (threads s ! k)) ks)) \<and>
    (\<not> printing s \<longrightarrow> ticket s = fst (book_all (map (\<lambda>k. req (threads s ! k)) ks)))"
  using linear.reach_inv [OF assms(1)] assms(2) unfolding linear_inv_def linear_def asked_def by blast

theorem tickets_linear_witness: "\<exists>ks. b_out booking = snd (book_all (map (\<lambda>k. req (threads booking ! k)) ks))"
  using tickets_linear [OF booking(1,2)] by blast

subsection \<open>Progress\<close>

text \<open>C31: the server finishes what it is given, and never deadlocks: from any reachable state its main thread and its booking threads
  take at most the stated number of steps without a new request, in any order, and when none of them can take another, every
  request made has been handed to a thread, every thread has answered with one line and ended, the count is back to 0, and the
  client can go on.  In particular the main thread's wait for the count to fall is never left without a signal.\<close>

theorem tickets_served:
  assumes "reach (start cells) tickets_step s" and "up s" and "(serve_step ^^ n) s s'"
  shows "n \<le> 11 * length (threads s) + 19 + 20 * CS s \<and>
    (\<not> (\<exists>u. serve_step s' u) \<longrightarrow>
       b_at s' = B_P \<and> CS s' = 0 \<and> global_count s' = 0 \<and> (\<forall>t \<in> set (threads s'). t_at t = T_done) \<and>
       map req (threads s') = take (length (threads s')) (a_out s) \<and>
       length (a_out s) = length (threads s') + (if a_at s = A_V then 1 else 0) \<and>
       length (b_out s') = length (threads s') \<and> (\<exists>u. a_step r s' = Some u))"
proof (intro conjI impI)
  show "n \<le> 11 * length (threads s) + 19 + 20 * CS s"
    using serve_run [OF assms(3)] work_bound [of s] by simp
next
  assume quiet: "\<not> (\<exists>u. serve_step s' u)"
  have up: "up s'" and same: "a_at s' = a_at s" "a_out s' = a_out s" using serve_run_up [OF assms(3)] assms(2) by simp_all
  from assms(1,3) have r: "reach (start cells) tickets_step s'" by (rule serve_run_reach)
  from reach_up [OF r up] have inv: "flow_inv 0 s'" "lock_inv s'" "count_inv 0 s'" "wait_inv s'" by simp_all
  note fin = quiet_done [OF inv(2,3) _ inv(4) up quiet, simplified]
  show "b_at s' = B_P" "CS s' = 0" "global_count s' = 0" by (rule fin)+
  from fin(3) show "\<forall>t \<in> set (threads s'). t_at t = T_done" by (auto simp: in_set_conv_nth t_pos_def)
  from inv(1) show "map req (threads s') = take (length (threads s')) (a_out s)" using flow_requests same by simp
  from inv(1) fin show "length (a_out s) = length (threads s') + (if a_at s = A_V then 1 else 0)"
    by (simp add: flow_inv_def taken_def same)
  from linear.reach_inv [OF r] up obtain ks where "linear s' ks" by (auto simp: linear_inv_def)
  with fin(3) show "length (b_out s') = length (threads s')" using all_answered(2) by blast
  from inv(1) fin up show "\<exists>u. a_step r s' = Some u"
    by (cases "a_at s'") (auto simp: flow_inv_def a_step_def a_busy_def b_busy_def Let_def)
qed

text \<open>The one request, through to its answer.\<close>

lemma play_serve:
  "list_all (\<lambda>m. case m of Client r \<Rightarrow> False | _ \<Rightarrow> True) ms \<Longrightarrow> play ms s = Some s' \<Longrightarrow> (serve_step ^^ length ms) s s'"
proof (induction ms arbitrary: s)
  case (Cons m ms)
  from Cons.prems obtain t where t: "play ms t = Some s'" "serve_step s t"
    by (auto intro: serve_step.intros split: option.splits move.splits)
  with Cons.IH [of t] Cons.prems(1) have "(serve_step ^^ length ms) t s'" by simp
  with t(2) show ?case unfolding list.size(4) add_Suc_right add_0_right by (rule relpowp_Suc_I2)
qed simp

definition all_served :: system where
  "all_served = one_request\<lparr>PS := 10, b_at := B_P, ticket := 97, global_count := 0, threads := [\<lparr>req = 3, t_at = T_done\<rparr>],
     b_out := [Tickets_available 97]\<rparr>"

lemma all_served: "(serve_step ^^ 10) one_request all_served" "\<not> (\<exists>u. serve_step all_served u)"
proof -
  have "play (Server # replicate 9 (Booking 0)) one_request = Some all_served" by code_simp
  from play_serve [OF _ this] show "(serve_step ^^ 10) one_request all_served" by (simp add: list_all_length nth_Cons')
  have "b_step all_served = None" by code_simp
  moreover have "book_ticket i all_served = None" for i
    by (cases i) (simp_all add: book_ticket_def all_served_def)
  ultimately show "\<not> (\<exists>u. serve_step all_served u)" by (auto elim!: serve_stepE)
qed

theorem tickets_served_witness: "length (b_out all_served) = length (threads all_served) \<and> global_count all_served = 0"
proof -
  have "up one_request" by (simp add: one_request_def)
  from tickets_served [OF one_request_reach this all_served(1)] all_served(2) show ?thesis by blast
qed

subsection \<open>The end\<close>

definition a_rank :: "a_pc \<Rightarrow> nat" where
  "a_rank p = (case p of A_P \<Rightarrow> 4 | A_write \<Rightarrow> 3 | A_V \<Rightarrow> 2 | A_check \<Rightarrow> 1 | A_exited \<Rightarrow> 0)"

text \<open>After SIGINT the server is gone and the client follows: it is never blocked, and every step brings it nearer to its exit, which
  it reaches in at most four.\<close>

theorem tickets_client_stops:
  assumes "\<not> up s"
  shows "b_step s = None \<and> book_ticket i s = None \<and> a_rank (a_at s) \<le> 4 \<and> (a_step r s = None \<longleftrightarrow> a_at s = A_exited) \<and>
    (\<forall>s'. a_step r s = Some s' \<longrightarrow> \<not> up s' \<and> a_rank (a_at s') < a_rank (a_at s))"
  using assms
  by (cases "a_at s") (auto simp: b_step_def book_ticket_def a_step_def a_rank_def Let_def)

theorem tickets_client_stops_witness: "a_step 0 ((my_handler True True True one_request)\<lparr>a_at := A_P\<rparr>) \<noteq> None"
proof -
  have "\<not> up ((my_handler True True True one_request)\<lparr>a_at := A_P\<rparr>)" by (simp add: my_handler_def Let_def)
  from tickets_client_stops [OF this, of 0 0] show ?thesis by simp
qed

end
