(* ===== verification/Tickets_Lossy.thy ===== *)
theory Tickets_Lossy
  imports Tickets_Main
begin

text \<open>
  The ticket server when `pthread_create` fails, which it does in the end, since no thread is ever
  joined or detached.  The request is then counted and never counted out.
\<close>

lemma lossy_reach:
  assumes "reach (lossy_start cells) lossy_step (n, s)" and "up s"
  shows "flow_inv n s \<and> lock_inv s \<and> ticket_inv s \<and> count_inv n s \<and> wait_inv s"
  using lossy.reach_inv [OF assms(1)] assms(2) by (simp add: tickets_inv_def)

text \<open>
  When the main thread takes no further request: six lost ones keep it in the wait for the count to fall to
  five, and ten send it there.
\<close>

definition stuck :: "nat \<Rightarrow> system \<Rightarrow> bool" where
  "stuck n s \<longleftrightarrow> 10 \<le> n \<or> 5 < n \<and> b_at s \<in> {B_while, B_wait, B_relock}"

lemma stuck_server:
  assumes cnt: "count_inv n s" and "stuck n s" and step: "b_step s = Some s'"
  shows "stuck n s' \<and> out s' = out s \<and> threads s' = threads s"
proof -
  from cnt have count: "int n \<le> global_count s" "b_at s \<in> {B_inc, B_unlock, B_spawn} \<Longrightarrow> n < 10"
    by (auto simp: count_inv_def split: if_splits)
  with assms(2) have "b_at s \<notin> {B_inc, B_unlock, B_spawn}" by (auto simp: stuck_def)
  with count(1) assms(2) step show ?thesis
    by (cases "b_at s") (auto simp: b_step_def stuck_def lock2_def split: if_splits)
qed

lemma stuck_step:
  assumes inv: "tickets_inv n s" and st: "stuck n s" and step: "lossy_step (n, s) (n', s')"
  shows "n' = n \<and> stuck n s' \<and> out s' = out s \<and> length (threads s') = length (threads s)"
  using step
proof cases
  case step
  from this(2) show ?thesis
  proof cases
    case (client r)
    then have "b_at s' = b_at s \<and> out s' = out s \<and> threads s' = threads s"
      by (auto simp: a_step_def Let_def split: a_pc.splits if_splits)
    with st step show ?thesis by (simp add: stuck_def)
  next
    case server
    then have "up s" by (simp add: b_step_def split: if_splits)
    with inv have "count_inv n s" by (simp add: tickets_inv_def)
    from stuck_server [OF this st server] step show ?thesis by simp
  next
    case (thread i)
    from thread_frame [OF this] st step show ?thesis by (auto simp: stuck_def)
  next
    case spurious
    with st step show ?thesis by (auto simp: wake_def stuck_def split: if_splits)
  next
    case (sigint shm ps cs)
    with st step show ?thesis by (simp add: my_handler_def Let_def stuck_def)
  qed
next
  case lost
  then have "up s" "b_at s = B_spawn" by (auto simp: no_thread_def split: if_splits)
  with inv st show ?thesis by (auto simp: tickets_inv_def count_inv_def stuck_def)
qed

lemma stuck_steps:
  assumes "lossy_step\<^sup>*\<^sup>* (n, s) c" and inv: "tickets_inv n s" and st: "stuck n s"
  shows "fst c = n \<and> stuck n (snd c) \<and> out (snd c) = out s \<and> length (threads (snd c)) = length (threads s)"
  using assms(1)
proof (induction rule: rtranclp_induct)
  case (step c d)
  from lossy.steps_inv [OF step.hyps(1)] inv have "tickets_inv (fst c) (snd c)" by simp
  with step stuck_step [of n "snd c" "fst d" "snd d"] show ?case by (metis prod.collapse)
qed (use st in simp)

text \<open>C32: threads that cannot be started: in every interleaving with n failures of `pthread_create`, while the server is up, at most ten happen; the
  tickets stay in range, the requests handed to threads are those made, in order, without the n lost ones, and every request made is handed out, lost, or still on its
  way; `global_count` keeps counting the lost ones.  With up to five of them the server still does not deadlock: when it cannot go on without a new request, all requests made and
  passed on are handed out except the lost ones, every thread has answered with one line and ended, and the client can go on.  With more than five the server never comes
  back from a wait, and after ten it takes no request again, whatever happens.\<close>

theorem tickets_lost_threads:
  assumes "reach (lossy_start cells) lossy_step (n, s)" and "up s"
  shows "n \<le> 10 \<and> 0 \<le> ticket s \<and> ticket s \<le> 100 \<and>
    global_count s = int (card (in_service s)) + int n + (if b_at s \<in> {B_unlock, B_spawn} then 1 else 0) \<and>
    subseq (map req (threads s)) (take (length (threads s) + n) (a_out s)) \<and>
    length (a_out s) = length (threads s) + n + CS s + (if a_at s = A_V then 1 else 0) + (if b_at s \<in> {B_P, B_V} then 0 else 1) \<and>
    (n \<le> 5 \<and> \<not> (\<exists>u. serve_step s u) \<longrightarrow>
      b_at s = B_P \<and> CS s = 0 \<and> global_count s = int n \<and> (\<forall>t \<in> set (threads s). t_at t = T_done) \<and>
      length (a_out s) = length (threads s) + n + (if a_at s = A_V then 1 else 0) \<and>
      length (b_out s) = length (threads s) \<and> (\<exists>u. a_step r s = Some u)) \<and>
    ((n = 10 \<or> 5 < n \<and> b_at s = B_wait) \<and> lossy_step\<^sup>*\<^sup>* (n, s) (n', s') \<longrightarrow>
      n' = n \<and> out s' = out s \<and> length (threads s') = length (threads s))"
proof -
  from lossy_reach [OF assms] have inv: "flow_inv n s" "lock_inv s" "ticket_inv s" "count_inv n s" "wait_inv s" by simp_all
  have "n \<le> 10" using inv(4) by (auto simp: count_inv_def split: if_splits)
  moreover have "0 \<le> ticket s" "ticket s \<le> 100" using inv(3) by (simp_all add: ticket_inv_def)
  moreover have "global_count s = int (card (in_service s)) + int n + (if b_at s \<in> {B_unlock, B_spawn} then 1 else 0)"
    using inv(4) by (simp add: count_inv_def)
  moreover have "subseq (map req (threads s)) (take (length (threads s) + n) (a_out s))"
    and made: "length (a_out s) = length (threads s) + n + CS s + (if a_at s = A_V then 1 else 0) + (if b_at s \<in> {B_P, B_V} then 0 else 1)"
    using inv(1) by (simp_all add: flow_inv_def taken_def)
  moreover have "b_at s = B_P \<and> CS s = 0 \<and> global_count s = int n \<and> (\<forall>t \<in> set (threads s). t_at t = T_done) \<and>
      length (a_out s) = length (threads s) + n + (if a_at s = A_V then 1 else 0) \<and>
      length (b_out s) = length (threads s) \<and> (\<exists>u. a_step r s = Some u)"
    if "n \<le> 5" "\<not> (\<exists>u. serve_step s u)"
  proof -
    note fin = quiet_done [OF inv(2,4) that(1) inv(5) assms(2) that(2)]
    from fin(3) have "\<forall>t \<in> set (threads s). t_at t = T_done" by (auto simp: in_set_conv_nth t_pos_def)
    moreover from lossy_linear.reach_inv [OF assms(1)] assms(2) obtain ks where "linear s ks" by (auto simp: linear_inv_def)
    with fin(3) have "length (b_out s) = length (threads s)" using all_answered(2) by blast
    moreover from inv(1) fin assms(2) have "\<exists>u. a_step r s = Some u"
      by (cases "a_at s") (auto simp: flow_inv_def a_step_def a_busy_def b_busy_def Let_def)
    ultimately show ?thesis using fin made by simp
  qed
  moreover have "n' = n \<and> out s' = out s \<and> length (threads s') = length (threads s)"
    if "n = 10 \<or> 5 < n \<and> b_at s = B_wait" "lossy_step\<^sup>*\<^sup>* (n, s) (n', s')"
  proof -
    from that(1) have "stuck n s" by (auto simp: stuck_def)
    moreover have "tickets_inv n s" using inv by (simp add: tickets_inv_def)
    ultimately show ?thesis using stuck_steps [OF that(2)] by simp
  qed
  ultimately show ?thesis by blast
qed

subsection \<open>Ten failures in a row\<close>

text \<open>The client has made k requests for no tickets, and no thread could be started for any of them.\<close>

definition idle :: "nat \<Rightarrow> system" where
  "idle k = \<lparr>Aqueue = replicate 10 0, up = True, PS = 10, CS = 0, a_at = A_check, in_at = k mod 10, a_out = replicate k 0, b_at = B_P,
     out = k mod 10, ticket = 100, global_count = int k, cnt_mutex = None, cnt_mutex2 = None, threads = [], b_out = []\<rparr>"

lemma play_lossy: "play ms s = Some s' \<Longrightarrow> lossy_step\<^sup>*\<^sup>* (n, s) (n, s')"
proof (induction ms arbitrary: s)
  case (Cons m ms)
  from Cons.prems obtain t where t: "play ms t = Some s'" "tickets_step s t"
    by (auto intro: tickets_step.intros split: option.splits move.splits)
  from lossy_step.step [OF t(2), of n] Cons.IH [OF t(1)] show ?case by (rule converse_rtranclp_into_rtranclp)
qed simp

lemma zeros_update: "i < n \<Longrightarrow> (replicate n x)[i := x] = replicate n x"
  by (simp add: list_eq_iff_nth_eq nth_list_update)

lemma idle_round:
  assumes "k < 10"
  shows "lossy_step\<^sup>*\<^sup>* (k, idle k) (Suc k, idle (Suc k))"
proof -
  let ?u = "(idle k)\<lparr>in_at := (k + 1) mod 10, a_out := replicate (Suc k) 0, b_at := B_spawn, PS := 9, global_count := int k + 1\<rparr>"
  have "play [Client 5, Client 5, Client 5, Client 5, Server, Server, Server, Server, Server] (idle k) = Some ?u"
    using assms by (simp add: idle_def a_step_def b_step_def lock2_def replicate_append_same zeros_update Let_def mod_Suc)
  then have "lossy_step\<^sup>*\<^sup>* (k, idle k) (k, ?u)" by (rule play_lossy)
  moreover have "no_thread ?u = Some (?u\<lparr>out := (k + 1) mod 10, b_at := B_V\<rparr>)"
    using assms by (simp add: no_thread_def idle_def)
  then have "lossy_step (k, ?u) (Suc k, ?u\<lparr>out := (k + 1) mod 10, b_at := B_V\<rparr>)" by (rule lossy_step.lost)
  moreover have "play [Server] (?u\<lparr>out := (k + 1) mod 10, b_at := B_V\<rparr>) = Some (idle (Suc k))"
    by (simp add: b_step_def idle_def)
  then have "lossy_step\<^sup>*\<^sup>* (Suc k, ?u\<lparr>out := (k + 1) mod 10, b_at := B_V\<rparr>) (Suc k, idle (Suc k))" by (rule play_lossy)
  ultimately show ?thesis by (meson rtranclp.rtrancl_into_rtrancl rtranclp_trans)
qed

lemma idle_reach: "k \<le> 10 \<Longrightarrow> reach (lossy_start (replicate 10 0)) lossy_step (k, idle k)"
proof (induction k)
  case 0
  show ?case by (rule reach_start) (simp add: lossy_start_def start_eq idle_def)
next
  case (Suc k)
  then have "reach (lossy_start (replicate 10 0)) lossy_step (k, idle k)" "lossy_step\<^sup>*\<^sup>* (k, idle k) (Suc k, idle (Suc k))"
    using idle_round by simp_all
  then show ?case by (blast intro: reach_run)
qed

theorem tickets_lost_threads_witness:
  "reach (lossy_start (replicate 10 0)) lossy_step (10, idle 10) \<and>
    (\<nexists>n' s'. lossy_step\<^sup>*\<^sup>* (10, idle 10) (n', s') \<and> (out s', threads s') \<noteq> (0, []))"
proof -
  have idle: "up (idle 10)" "threads (idle 10) = []" "out (idle 10) = 0" by (simp_all add: idle_def)
  have r: "reach (lossy_start (replicate 10 0)) lossy_step (10, idle 10)" by (rule idle_reach) simp
  have "out s' = 0 \<and> threads s' = []" if "lossy_step\<^sup>*\<^sup>* (10, idle 10) (n', s')" for n' s'
    using tickets_lost_threads [OF r idle(1), of 0 n' s'] that idle by simp
  with r show ?thesis by blast
qed

end
