(* ===== verification/Fcopy.thy ===== *)
theory Fcopy
  imports Prelude
begin

text \<open>
  `Copy_using _pipes/fcopy.c`: the parent reads a file in pieces of at most 100 bytes and sends each
  through a pipe to the child, which appends it to the other file and sends an acknowledgement
  back through a second pipe.  The two processes are interleaved; a step is one system call, with
  the statements up to the next, and gives a fault, `None` when the call would block, or the state
  after it.  Every `read` may fail; a `write` to a pipe fails only when its other end is closed, and then ends the process (SIGPIPE).
  This theory treats the runs in which nothing fails, `Fcopy_Failures` all runs.
\<close>

subsection \<open>State\<close>

definition BUF_SIZE :: nat where "BUF_SIZE = 100"

datatype p_pc = P_read | P_write | P_ack | P_done | P_killed

datatype c_pc = C_read | C_write | C_ack | C_error | C_exit | C_done | C_killed

text \<open>
  `unread` is what the parent has not read yet of the source, `pipe1` and `pipe2` what is in the pipes
  (of the second, the number of messages, two bytes each), `dest` the destination file, `says` how often
  the child has printed that the copy succeeded, `errors` how often that it failed.
\<close>

record copy =
  unread :: "8 word list"
  p_at :: p_pc
  p_buffer :: "8 word list"
  pipe1 :: "8 word list"
  pipe2 :: nat
  c_at :: c_pc
  c_buffer :: "8 word list"
  dest :: "8 word list"
  says :: nat
  errors :: nat

text \<open>`buffer[n] = 0`, when `slack` bytes after the array belong to nothing else.\<close>

definition terminate :: "nat \<Rightarrow> nat \<Rightarrow> 'a res \<Rightarrow> 'a res" where
  "terminate slack n k = (if n < BUF_SIZE + slack then k else Inl Out_of_bounds)"

subsection \<open>The two processes\<close>

text \<open>A process that has ended, or been killed, has closed its ends of the pipes.\<close>

definition p_ended :: "copy \<Rightarrow> bool" where
  "p_ended s \<longleftrightarrow> p_at s \<in> {P_done, P_killed}"

definition c_ended :: "copy \<Rightarrow> bool" where
  "c_ended s \<longleftrightarrow> c_at s \<in> {C_done, C_killed}"

text \<open>
  What a call of `read` on the file returns with `avail` bytes left: -1 when it fails, else a number of bytes, at
  least one if there is one, and at most `BUF_SIZE`.
\<close>

definition read_result :: "nat option \<Rightarrow> nat \<Rightarrow> int" where
  "read_result r avail = (case r of None \<Rightarrow> -1 | Some k \<Rightarrow> int (min (Suc k) (min BUF_SIZE avail)))"

text \<open>
  The parent; `r` is the outcome of the call of `read` it makes, if any.  The result of the one that reads the acknowledgement is not
  looked at, and at the end of the pipe it returns at once.  The comparisons of `buffer2` with string literals compare addresses and are never
  true, and `retp` is positive inside the loop, so the parent never breaks it with its error message.
\<close>

definition parent_step :: "nat \<Rightarrow> nat option \<Rightarrow> copy \<Rightarrow> copy option res" where
  "parent_step slack r s =
     (case p_at s of
        P_read \<Rightarrow>
          (let retp = read_result r (length (unread s)) in
           if 0 < retp then
             terminate slack (nat retp)
               (Inr (Some (s\<lparr>p_buffer := take (nat retp) (unread s), unread := drop (nat retp) (unread s), p_at := P_write\<rparr>)))
           else Inr (Some (s\<lparr>p_at := P_done\<rparr>)))
      | P_write \<Rightarrow>
          Inr (Some (if c_ended s then s\<lparr>p_at := P_killed\<rparr> else s\<lparr>pipe1 := pipe1 s @ p_buffer s, p_at := P_ack\<rparr>))
      | P_ack \<Rightarrow>
          Inr (if r = None then Some (s\<lparr>p_at := P_read\<rparr>)
               else if pipe2 s = 0 then if c_ended s then Some (s\<lparr>p_at := P_read\<rparr>) else None
               else Some (s\<lparr>pipe2 := pipe2 s - 1, p_at := P_read\<rparr>))
      | P_done \<Rightarrow> Inr None
      | P_killed \<Rightarrow> Inr None)"

text \<open>
  The child: `w` is how many bytes of the piece the write to the destination accepts, none when it fails; the child does not look.  `r` says
  whether its call of `read`, if it makes one, succeeds.
\<close>

definition child_step :: "nat \<Rightarrow> bool \<Rightarrow> nat \<Rightarrow> copy \<Rightarrow> copy option res" where
  "child_step slack r w s =
     (case c_at s of
        C_read \<Rightarrow>
          if \<not> r then Inr (Some (s\<lparr>c_at := C_error\<rparr>))
          else if pipe1 s = [] then
            Inr (if p_ended s then Some (s\<lparr>c_at := C_done\<rparr>) else None)
          else
            (let retc = min BUF_SIZE (length (pipe1 s)) in
             terminate slack retc (Inr (Some (s\<lparr>c_buffer := take retc (pipe1 s), pipe1 := drop retc (pipe1 s), c_at := C_write\<rparr>))))
      | C_write \<Rightarrow> Inr (Some (s\<lparr>dest := dest s @ take w (c_buffer s), c_at := C_ack\<rparr>))
      | C_ack \<Rightarrow>
          Inr (Some (if p_ended s then s\<lparr>c_at := C_killed\<rparr>
            else s\<lparr>pipe2 := pipe2 s + 1, c_at := C_read,
              says := (if length (c_buffer s) < 100 then says s + 1 else says s)\<rparr>))
      | C_error \<Rightarrow>
          Inr (Some (if p_ended s then s\<lparr>c_at := C_killed\<rparr>
            else s\<lparr>pipe2 := pipe2 s + 1, c_at := C_exit, errors := errors s + 1\<rparr>))
      | C_exit \<Rightarrow> Inr (Some (s\<lparr>c_at := C_done\<rparr>))
      | C_done \<Rightarrow> Inr None
      | C_killed \<Rightarrow> Inr None)"

text \<open>Without a child the read end of the first pipe, and the write end of the second, are closed from the start.\<close>

definition copy_start :: "bool \<Rightarrow> 8 word list \<Rightarrow> copy" where
  "copy_start forked content = \<lparr>unread = content, p_at = P_read, p_buffer = [], pipe1 = [], pipe2 = 0,
     c_at = (if forked then C_read else C_done), c_buffer = [], dest = [], says = 0, errors = 0\<rparr>"

text \<open>
  `main` up to `fork`: `src` is the content of the file if it can be opened, `dst` says whether the destination can be opened, which
  empties it, and `forked` whether there is a child; the value is the exit code when a file cannot be opened.
\<close>

definition copy_main :: "8 word list option \<Rightarrow> bool \<Rightarrow> bool \<Rightarrow> int + copy" where
  "copy_main src dst forked =
     (case src of None \<Rightarrow> Inl 2 | Some content \<Rightarrow> if dst then Inr (copy_start forked content) else Inl 3)"

text \<open>A step of either process when no call fails: files give as much as asked for, and the destination takes all of every piece.\<close>

inductive copy_step :: "nat \<Rightarrow> copy \<Rightarrow> copy \<Rightarrow> bool" for slack :: nat where
  parent: "parent_step slack (Some BUF_SIZE) s = Inr (Some s') \<Longrightarrow> copy_step slack s s'"
| child: "length (c_buffer s) \<le> w \<Longrightarrow> child_step slack True w s = Inr (Some s') \<Longrightarrow> copy_step slack s s'"

subsection \<open>What is in flight\<close>

definition p_holds :: "copy \<Rightarrow> 8 word list" where
  "p_holds s = (if p_at s = P_write then p_buffer s else [])"

definition c_holds :: "copy \<Rightarrow> 8 word list" where
  "c_holds s = (if c_at s = C_write then c_buffer s else [])"

text \<open>The processes take turns: at most one piece is under way, and the parent waits for it.\<close>

definition turns :: "copy \<Rightarrow> bool" where
  "turns s \<longleftrightarrow> p_at s \<noteq> P_killed \<and> c_at s \<notin> {C_error, C_exit, C_killed} \<and>
     (if p_at s = P_ack then
        (if c_at s = C_read then (pipe1 s = [] \<longleftrightarrow> pipe2 s = 1) \<and> pipe2 s \<le> 1
         else c_at s \<noteq> C_done \<and> pipe1 s = [] \<and> pipe2 s = 0)
      else pipe1 s = [] \<and> pipe2 s = 0 \<and> (c_at s = C_read \<or> c_at s = C_done \<and> p_at s = P_done))"

definition sizes :: "copy \<Rightarrow> bool" where
  "sizes s \<longleftrightarrow> (p_at s = P_write \<longrightarrow> p_buffer s \<noteq> [] \<and> length (p_buffer s) \<le> 100) \<and>
     length (pipe1 s) \<le> 100 \<and> (c_at s \<in> {C_write, C_ack} \<longrightarrow> c_buffer s \<noteq> [] \<and> length (c_buffer s) \<le> 100) \<and>
     (p_at s = P_done \<longrightarrow> unread s = [])"

definition short :: "8 word list \<Rightarrow> nat" where
  "short b = (if b \<noteq> [] \<and> length b < 100 then 1 else 0)"

text \<open>Short pieces: only the last one, and it is announced once it has been written.\<close>

definition shorts :: "copy \<Rightarrow> nat" where
  "shorts s = short (p_holds s) + short (pipe1 s) + (if c_at s \<in> {C_write, C_ack} then short (c_buffer s) else 0)"

text \<open>All bytes, in the order of the file.\<close>

definition flow :: "copy \<Rightarrow> 8 word list" where
  "flow s = dest s @ c_holds s @ pipe1 s @ p_holds s @ unread s"

definition aligned :: "8 word list \<Rightarrow> 8 word list \<Rightarrow> bool" where
  "aligned whole rest \<longleftrightarrow> (rest \<noteq> [] \<longrightarrow> 100 dvd (length whole - length rest))"

definition announced :: "8 word list \<Rightarrow> 8 word list \<Rightarrow> nat" where
  "announced whole rest = (if rest = [] \<and> \<not> 100 dvd length whole then 1 else 0)"

definition copy_inv :: "8 word list \<Rightarrow> copy \<Rightarrow> bool" where
  "copy_inv whole s \<longleftrightarrow> turns s \<and> sizes s \<and> flow s = whole \<and> aligned whole (unread s) \<and>
     says s + shorts s = announced whole (unread s)"

lemmas in_flight = turns_def sizes_def flow_def p_holds_def c_holds_def shorts_def short_def

lemma start_copy_inv: "copy_inv whole (copy_start True whole)"
  by (simp add: copy_inv_def copy_start_def in_flight aligned_def announced_def)

lemma read_all [simp]: "read_result (Some BUF_SIZE) n = int (min 100 n)" "read_result (Some 100) n = int (min 100 n)"
  by (simp_all add: read_result_def BUF_SIZE_def)

lemma read_failed [simp]: "read_result None n = -1"
  by (simp add: read_result_def)

lemma read_bounds: "read_result r n \<le> int n" "read_result r n \<le> int BUF_SIZE"
  by (auto simp: read_result_def split: option.splits)

lemma turns_open: "turns s \<Longrightarrow> p_at s \<noteq> P_done \<Longrightarrow> \<not> c_ended s"
  by (auto simp: turns_def c_ended_def split: if_splits)

lemma turns_both: "turns s \<Longrightarrow> c_at s \<in> {C_write, C_ack} \<Longrightarrow> \<not> p_ended s"
  by (auto simp: turns_def p_ended_def split: if_splits)

lemma turns_done: "turns s \<Longrightarrow> p_ended s \<longleftrightarrow> p_at s = P_done"
  by (auto simp: turns_def p_ended_def)

text \<open>A step that reads nothing of the file keeps what is in flight.\<close>

lemma copy_inv_same:
  assumes "copy_inv whole s" and "unread s' = unread s" and "turns s'" and "sizes s'" and "flow s' = flow s"
    and "says s' + shorts s' = says s + shorts s"
  shows "copy_inv whole s'"
  using assms by (simp add: copy_inv_def)

lemma copy_inv_turns: "copy_inv whole s \<Longrightarrow> turns s \<and> sizes s"
  by (simp add: copy_inv_def)

text \<open>Reading a piece.\<close>

lemma read_short:
  assumes "u \<noteq> []"
  shows "short (take 100 u) = (if drop 100 u = [] \<and> \<not> 100 dvd length u then 1 else 0)"
proof (cases "length u \<le> 100")
  case True
  with assms have "100 dvd length u \<longleftrightarrow> length u = 100" by (auto dest: dvd_imp_le)
  with True assms show ?thesis by (auto simp: short_def)
qed (simp add: short_def)

lemma read_aligned:
  assumes "length whole = k + length u" and "100 dvd k" and "u \<noteq> []"
  shows "aligned whole (drop 100 u)" and "announced whole (drop 100 u) = short (take 100 u)"
proof -
  have "length whole - (length u - 100) = k + 100" if "100 < length u" using assms(1) that by simp
  with assms(2) show "aligned whole (drop 100 u)" by (simp add: aligned_def)
  from assms(2) have "100 dvd length whole \<longleftrightarrow> 100 dvd length u" by (simp add: assms(1) dvd_add_right_iff)
  then show "announced whole (drop 100 u) = short (take 100 u)"
    by (simp add: announced_def read_short [OF assms(3)])
qed

lemma read_piece:
  assumes inv: "copy_inv whole s" and at: "p_at s = P_read" and more: "unread s \<noteq> []"
  shows "copy_inv whole (s\<lparr>p_buffer := take 100 (unread s), unread := drop 100 (unread s), p_at := P_write\<rparr>)"
    (is "copy_inv whole ?s'")
proof -
  let ?k = "length whole - length (unread s)"
  from inv have flow: "flow s = whole" and al: "100 dvd ?k" and say: "says s + shorts s = 0"
    using more by (simp_all add: copy_inv_def aligned_def announced_def)
  have "length (flow s) = length (flow s) - length (unread s) + length (unread s)" by (simp add: flow_def)
  then have len: "length whole = ?k + length (unread s)" by (simp only: flow)
  have "shorts ?s' = shorts s + short (take 100 (unread s))"
    using at by (simp add: in_flight)
  with say have "says ?s' + shorts ?s' = announced whole (drop 100 (unread s))"
    using read_aligned(2) [OF len al more] by simp
  moreover have "flow ?s' = whole" using flow at by (auto simp: flow_def p_holds_def c_holds_def)
  moreover have "turns ?s' \<and> sizes ?s'"
    using copy_inv_turns [OF inv] at more by (auto simp: turns_def sizes_def)
  ultimately show ?thesis using read_aligned(1) [OF len al more] by (simp add: copy_inv_def)
qed

lemma parent_inv:
  assumes inv: "copy_inv whole s" and step: "parent_step slack (Some BUF_SIZE) s = Inr (Some s')"
  shows "copy_inv whole s'"
proof (cases "p_at s")
  case P_read
  show ?thesis
  proof (cases "unread s = []")
    case True
    with P_read step have "s' = s\<lparr>p_at := P_done\<rparr>" by (simp add: parent_step_def BUF_SIZE_def)
    with True P_read copy_inv_turns [OF inv] show ?thesis
      by (intro copy_inv_same [OF inv]) (auto simp: in_flight)
  next
    case False
    have "take (min 100 (length (unread s))) (unread s) = take 100 (unread s)"
      "drop (min 100 (length (unread s))) (unread s) = drop 100 (unread s)" by (simp_all add: min_def)
    with P_read False step have "s' = s\<lparr>p_buffer := take 100 (unread s), unread := drop 100 (unread s), p_at := P_write\<rparr>"
      by (simp add: parent_step_def BUF_SIZE_def terminate_def Let_def split: if_splits)
    with read_piece [OF inv P_read False] show ?thesis by simp
  qed
next
  case P_write
  with step copy_inv_turns [OF inv] have "s' = s\<lparr>pipe1 := pipe1 s @ p_buffer s, p_at := P_ack\<rparr>"
    by (simp add: parent_step_def turns_open)
  with P_write copy_inv_turns [OF inv] show ?thesis
    by (intro copy_inv_same [OF inv]) (auto simp: in_flight)
next
  case P_ack
  with step copy_inv_turns [OF inv] have "s' = s\<lparr>pipe2 := pipe2 s - 1, p_at := P_read\<rparr>" "pipe2 s \<noteq> 0"
    by (auto simp: parent_step_def turns_open split: if_splits)
  with P_ack copy_inv_turns [OF inv] show ?thesis
    by (intro copy_inv_same [OF inv]) (auto simp: in_flight split: if_splits)
qed (use step in \<open>simp_all add: parent_step_def\<close>)

lemma child_inv:
  assumes inv: "copy_inv whole s" and step: "child_step slack True w s = Inr (Some s')" and w: "length (c_buffer s) \<le> w"
  shows "copy_inv whole s'"
proof (cases "c_at s")
  case C_read
  show ?thesis
  proof (cases "pipe1 s = []")
    case True
    with C_read step have "s' = s\<lparr>c_at := C_done\<rparr>" "p_at s = P_done"
      using copy_inv_turns [OF inv] by (auto simp: child_step_def turns_done split: if_splits)
    with True C_read copy_inv_turns [OF inv] show ?thesis
      by (intro copy_inv_same [OF inv]) (auto simp: in_flight)
  next
    case False
    from inv have "length (pipe1 s) \<le> 100" by (simp add: copy_inv_def sizes_def)
    with C_read False step have "s' = s\<lparr>c_buffer := pipe1 s, pipe1 := [], c_at := C_write\<rparr>"
      by (simp add: child_step_def BUF_SIZE_def terminate_def Let_def min_absorb2 split: if_splits)
    with C_read False copy_inv_turns [OF inv] show ?thesis
      by (intro copy_inv_same [OF inv]) (auto simp: in_flight split: if_splits)
  qed
next
  case C_write
  with step w have "s' = s\<lparr>dest := dest s @ c_buffer s, c_at := C_ack\<rparr>" by (simp add: child_step_def)
  with C_write copy_inv_turns [OF inv] show ?thesis
    by (intro copy_inv_same [OF inv]) (auto simp: in_flight split: if_splits)
next
  case C_ack
  with step copy_inv_turns [OF inv] have "s' = s\<lparr>pipe2 := pipe2 s + 1, c_at := C_read,
      says := (if length (c_buffer s) < 100 then says s + 1 else says s)\<rparr>" by (simp add: child_step_def turns_both)
  with C_ack copy_inv_turns [OF inv] show ?thesis
    by (intro copy_inv_same [OF inv]) (auto simp: in_flight split: if_splits)
qed (use step copy_inv_turns [OF inv] in \<open>simp_all add: child_step_def turns_def\<close>)

interpretation copying: transition_system "\<lambda>s. s = copy_start True whole" "copy_step slack" "copy_inv whole"
proof
  fix s
  assume "s = copy_start True whole"
  then show "copy_inv whole s" by (simp add: start_copy_inv)
next
  fix s t
  assume inv: "copy_inv whole s" and "copy_step slack s t"
  from this(2) show "copy_inv whole t"
    by cases (use parent_inv [OF inv] child_inv [OF inv] in blast)+
qed

subsection \<open>How many steps are left\<close>

fun stage :: "copy \<Rightarrow> nat" where
  "stage s = (case p_at s of P_read \<Rightarrow> 1 | P_write \<Rightarrow> 7 | P_done \<Rightarrow> 0 | P_killed \<Rightarrow> 0
     | P_ack \<Rightarrow> (case c_at s of C_read \<Rightarrow> if pipe1 s = [] then 2 else 5 | C_write \<Rightarrow> 4 | C_ack \<Rightarrow> 3 | _ \<Rightarrow> 2))"

definition left :: "copy \<Rightarrow> nat" where
  "left s = 7 * length (unread s) + stage s + (if c_at s = C_done then 0 else 1)"

lemma left_start: "left (copy_start True content) = 7 * length content + 2"
  by (simp add: left_def copy_start_def)

lemma piece_paid: "u \<noteq> [] \<Longrightarrow> 6 < 7 * length u"
  by (cases u) simp_all

lemma parent_left:
  assumes "copy_inv whole s" and "parent_step slack (Some BUF_SIZE) s = Inr (Some s')"
  shows "left s' < left s"
  using assms(2) copy_inv_turns [OF assms(1)]
  by (auto simp: piece_paid parent_step_def terminate_def left_def turns_def sizes_def BUF_SIZE_def Let_def min_def
      split: p_pc.splits c_pc.splits if_splits)

lemma child_left:
  assumes "copy_inv whole s" and "child_step slack True w s = Inr (Some s')"
  shows "left s' < left s"
  using assms(2) copy_inv_turns [OF assms(1)]
  by (auto simp: child_step_def terminate_def left_def turns_def sizes_def BUF_SIZE_def Let_def
      split: p_pc.splits c_pc.splits if_splits)

lemma copy_step_left:
  assumes "copy_inv whole s" and "copy_step slack s s'"
  shows "left s' < left s"
  using assms(2) by cases (use parent_left [OF assms(1)] child_left [OF assms(1)] in blast)+

lemma copy_run_left:
  "(copy_step slack ^^ n) (copy_start True content) s \<Longrightarrow> copy_inv content s \<and> n + left s \<le> 7 * length content + 2"
proof (induction n arbitrary: s)
  case 0
  then show ?case using start_copy_inv [of content] left_start [of content] by auto
next
  case (Suc n)
  then obtain t where "(copy_step slack ^^ n) (copy_start True content) t" and step: "copy_step slack t s" by auto
  with Suc.IH have inv: "copy_inv content t" and le: "n + left t \<le> 7 * length content + 2" by blast+
  from step have "copy_inv content s"
    by cases (use parent_inv [OF inv] child_inv [OF inv] in blast)+
  with copy_step_left [OF inv step] le show ?case by simp
qed

text \<open>With a byte to spare after the buffers no step faults.\<close>

lemma terminate_spare: "1 \<le> slack \<Longrightarrow> n \<le> BUF_SIZE \<Longrightarrow> terminate slack n k = k"
  by (simp add: terminate_def)

lemma steps_spare:
  assumes "1 \<le> slack"
  shows "\<exists>t. parent_step slack r s = Inr t" and "\<exists>t. child_step slack got w s = Inr t"
  using assms read_bounds(2) [of r "length (unread s)"]
  by (auto simp: parent_step_def child_step_def terminate_spare nat_le_iff Let_def split: p_pc.splits c_pc.splits)

text \<open>
  Until both have ended one of them can go on without a failure: a parent that waits for a message either has one, or has bytes on the way to
  the child, or the child is about to send one or has ended.
\<close>

definition answered :: "copy \<Rightarrow> bool" where
  "answered s \<longleftrightarrow> (p_at s = P_ack \<longrightarrow> pipe1 s \<noteq> [] \<or> 0 < pipe2 s \<or> c_at s \<noteq> C_read)"

lemma parent_moves:
  assumes "1 \<le> slack" and "p_at s = P_ack \<longrightarrow> 0 < pipe2 s \<or> c_ended s"
  shows "p_ended s \<or> (\<exists>s'. parent_step slack (Some BUF_SIZE) s = Inr (Some s'))"
  using assms by (auto simp: p_ended_def parent_step_def terminate_def BUF_SIZE_def Let_def split: p_pc.splits)

lemma child_moves:
  assumes "1 \<le> slack" and "c_at s = C_read \<longrightarrow> pipe1 s \<noteq> [] \<or> p_ended s"
  shows "c_ended s \<or> (\<exists>s'. child_step slack True w s = Inr (Some s'))"
  using assms by (auto simp: c_ended_def child_step_def terminate_def BUF_SIZE_def Let_def split: c_pc.splits)

lemma copy_goes_on:
  assumes "answered s" and spare: "1 \<le> slack" and "\<not> (p_ended s \<and> c_ended s)"
  shows "\<exists>s'. copy_step slack s s'"
proof -
  have "(\<exists>s'. parent_step slack (Some BUF_SIZE) s = Inr (Some s')) \<or> (\<exists>s'. child_step slack True (length (c_buffer s)) s = Inr (Some s'))"
  proof (cases "p_ended s \<or> p_at s = P_ack \<and> \<not> (0 < pipe2 s \<or> c_ended s)")
    case True
    with assms(1,3) child_moves [OF spare, of s "length (c_buffer s)"] show ?thesis by (auto simp: answered_def)
  qed (use parent_moves [OF spare, of s] in blast)
  then show ?thesis by (auto intro: copy_step.intros)
qed

lemma copy_not_stuck:
  assumes "copy_inv whole s" and "1 \<le> slack" and "\<not> (p_at s = P_done \<and> c_at s = C_done)"
  shows "\<exists>s'. copy_step slack s s'"
  using copy_inv_turns [OF assms(1)] assms(3)
  by (intro copy_goes_on [OF _ assms(2)]) (auto simp: answered_def turns_def p_ended_def c_ended_def split: if_splits)

subsection \<open>The property\<close>

text \<open>C33: `fcopy` copies the file.  In whatever order the two processes run, with read and
  write calls that do not fail: when both are done the destination holds exactly the bytes of the
  source, and the message that the copy succeeded has been printed once, or not at all when the size is a
  multiple of 100; until then one of them can go on and neither goes outside its buffer; and they
  are done after at most 7 steps per byte and 2 more.  This supposes that a byte after each buffer is
  unused, since `buffer[retp] = 0` writes there after a full read: without it the copy of any file of 100
  bytes or more is out of bounds at the first read.\<close>

theorem fcopy_copies:
  assumes "1 \<le> slack" and opened: "copy_main (Some content) dst True = Inr s\<^sub>0" and "(copy_step slack ^^ n) s\<^sub>0 s"
  shows "n \<le> 7 * length content + 2 \<and>
    (p_at s = P_done \<and> c_at s = C_done \<longrightarrow> dest s = content \<and> says s = (if 100 dvd length content then 0 else 1)) \<and>
    (p_at s = P_done \<and> c_at s = C_done \<or> (\<exists>s'. copy_step slack s s')) \<and>
    (\<exists>t. parent_step slack (Some BUF_SIZE) s = Inr t) \<and> (\<exists>t. child_step slack True w s = Inr t) \<and>
    (parent_step 0 (Some BUF_SIZE) s\<^sub>0 = Inl Out_of_bounds \<longleftrightarrow> 100 \<le> length content)"
proof -
  from opened have start: "s\<^sub>0 = copy_start True content" by (simp add: copy_main_def split: if_splits)
  with assms(3) have "(copy_step slack ^^ n) (copy_start True content) s" by simp
  from copy_run_left [OF this] have inv: "copy_inv content s" and "n + left s \<le> 7 * length content + 2" by blast+
  then have "n \<le> 7 * length content + 2" by simp
  moreover have "p_at s = P_done \<and> c_at s = C_done \<longrightarrow>
      dest s = content \<and> says s = (if 100 dvd length content then 0 else 1)"
    using inv by (auto simp: copy_inv_def in_flight announced_def)
  moreover have "parent_step 0 (Some BUF_SIZE) s\<^sub>0 = Inl Out_of_bounds \<longleftrightarrow> 100 \<le> length content"
    by (auto simp: start parent_step_def copy_start_def terminate_def BUF_SIZE_def Let_def)
  ultimately show ?thesis using copy_not_stuck [OF inv assms(1)] steps_spare [OF assms(1)] by blast
qed

text \<open>The copy of a file of one byte, parent and child in turn.\<close>

lemma copy_one:
  "(copy_step 1 ^^ 8) (copy_start True [65])
     \<lparr>unread = [], p_at = P_done, p_buffer = [65], pipe1 = [], pipe2 = 0, c_at = C_done, c_buffer = [65],
      dest = [65], says = 1, errors = 0\<rparr>"
proof -
  have pstep: "parent_step 1 (Some BUF_SIZE) s = Inr (Some s') \<Longrightarrow> (copy_step 1 ^^ n) s' t \<Longrightarrow> (copy_step 1 ^^ Suc n) s t" for s s' t n
    by (blast intro: relpowp_Suc_I2 copy_step.parent)
  have cstep: "child_step 1 True 1 s = Inr (Some s') \<Longrightarrow> length (c_buffer s) \<le> 1 \<Longrightarrow>
      (copy_step 1 ^^ n) s' t \<Longrightarrow> (copy_step 1 ^^ Suc n) s t" for s s' t n
    by (blast intro: relpowp_Suc_I2 copy_step.child)
  note defs = parent_step_def child_step_def copy_start_def terminate_def BUF_SIZE_def p_ended_def c_ended_def read_result_def
  show ?thesis
    apply (simp only: eval_nat_numeral BitM.simps)
    apply (rule pstep, simp add: defs)
    apply (rule pstep, simp add: defs)
    apply (rule cstep, simp add: defs, simp)
    apply (rule cstep, simp add: defs, simp)
    apply (rule cstep, simp add: defs, simp)
    apply (rule pstep, simp add: defs)
    apply (rule pstep, simp add: defs)
    apply (rule cstep, simp add: defs, simp, simp)
    done
qed

text \<open>Witness: a file of one byte.\<close>

lemma fcopy_copies_witness:
  "\<exists>s. (copy_step 1 ^^ 8) (copy_start True [65]) s \<and> dest s = [65] \<and> says s = 1 \<and> 8 \<le> 7 * length [65 :: 8 word] + 2"
  using fcopy_copies [OF le_refl _ copy_one, where content = "[65]" and dst = True] by (intro exI [of _ "\<lparr>unread = [], p_at = P_done, p_buffer = [65], pipe1 = [],
      pipe2 = 0, c_at = C_done, c_buffer = [65], dest = [65], says = 1, errors = 0\<rparr>"] conjI copy_one) (simp_all add: copy_main_def del: One_nat_def)

end
