(* ===== verification/Fcopy_Failures.thy ===== *)
theory Fcopy_Failures
  imports Fcopy "HOL-Library.Sublist"
begin

text \<open>
  All runs of `fcopy`: any call of `read` may fail or give less than was asked for, any write to the destination may be short or fail, and
  `fork` may fail.  What still holds: the two processes end, and the destination gets no byte that is not in the
  source, in its order.  What does not: that a failure is reported.
\<close>

subsection \<open>Steps\<close>

text \<open>`full`: whether the writes to the destination are complete.\<close>

inductive any_step :: "bool \<Rightarrow> nat \<Rightarrow> copy \<Rightarrow> copy \<Rightarrow> bool" for full :: bool and slack :: nat where
  parent: "parent_step slack r s = Inr (Some s') \<Longrightarrow> any_step full slack s s'"
| child: "(full \<Longrightarrow> length (c_buffer s) \<le> w) \<Longrightarrow> child_step slack got w s = Inr (Some s') \<Longrightarrow> any_step full slack s s'"

lemma copy_step_any: "copy_step slack s s' \<Longrightarrow> any_step full slack s s'"
  by (auto elim!: copy_step.cases intro: any_step.intros)

text \<open>The steps, one by one: what a step of each process leaves.\<close>

lemma parent_step_cases:
  assumes "parent_step slack r s = Inr (Some s')"
  obtains (piece) n where "p_at s = P_read" and "0 < n" and "n \<le> length (unread s)"
      and "s' = s\<lparr>p_buffer := take n (unread s), unread := drop n (unread s), p_at := P_write\<rparr>"
    | (finished) "p_at s = P_read" and "s' = s\<lparr>p_at := P_done\<rparr>"
    | (sent) "p_at s = P_write" and "\<not> c_ended s" and "s' = s\<lparr>pipe1 := pipe1 s @ p_buffer s, p_at := P_ack\<rparr>"
    | (killed) "p_at s = P_write" and "c_ended s" and "s' = s\<lparr>p_at := P_killed\<rparr>"
    | (acked) n where "p_at s = P_ack" and "s' = s\<lparr>pipe2 := n, p_at := P_read\<rparr>"
proof (cases "p_at s")
  case P_read
  let ?n = "nat (read_result r (length (unread s)))"
  have "?n \<le> length (unread s)" using read_bounds(1) [of r "length (unread s)"] by simp
  with P_read assms that(1) [of ?n] that(2) show ?thesis by (auto simp: parent_step_def terminate_def Let_def split: if_splits)
next
  case P_ack
  with assms have "s' = s\<lparr>p_at := P_read\<rparr> \<or> s' = s\<lparr>pipe2 := pipe2 s - 1, p_at := P_read\<rparr>"
    by (auto simp: parent_step_def split: if_splits)
  moreover have "s' = s\<lparr>p_at := P_read\<rparr> \<Longrightarrow> s' = s\<lparr>pipe2 := pipe2 s, p_at := P_read\<rparr>" by simp
  ultimately show ?thesis using that(5) [OF P_ack] by blast
next
  case P_write
  with assms that(3,4) show ?thesis by (simp add: parent_step_def split: if_splits)
qed (use assms in \<open>simp_all add: parent_step_def\<close>)

lemma child_step_cases:
  assumes "child_step slack got w s = Inr (Some s')"
  obtains (failed) "c_at s = C_read" and "s' = s\<lparr>c_at := C_error\<rparr>"
    | (end_of_pipe) "c_at s = C_read" and "pipe1 s = []" and "p_ended s" and "s' = s\<lparr>c_at := C_done\<rparr>"
    | (piece) n where "c_at s = C_read" and "0 < n" and "n \<le> length (pipe1 s)"
      and "s' = s\<lparr>c_buffer := take n (pipe1 s), pipe1 := drop n (pipe1 s), c_at := C_write\<rparr>"
    | (stored) "c_at s = C_write" and "s' = s\<lparr>dest := dest s @ take w (c_buffer s), c_at := C_ack\<rparr>"
    | (killed) "c_at s \<in> {C_ack, C_error}" and "s' = s\<lparr>c_at := C_killed\<rparr>"
    | (told) m where "c_at s = C_ack" and "\<not> p_ended s" and "s' = s\<lparr>pipe2 := pipe2 s + 1, c_at := C_read, says := m\<rparr>"
    | (error) "c_at s = C_error" and "\<not> p_ended s" and "s' = s\<lparr>pipe2 := pipe2 s + 1, c_at := C_exit, errors := errors s + 1\<rparr>"
    | (exits) "c_at s = C_exit" and "s' = s\<lparr>c_at := C_done\<rparr>"
proof (cases "c_at s")
  case C_read
  let ?n = "min BUF_SIZE (length (pipe1 s))"
  have "?n \<le> length (pipe1 s)" "pipe1 s \<noteq> [] \<Longrightarrow> 0 < ?n" by (simp_all add: BUF_SIZE_def)
  with C_read assms that(1,2) that(3) [of ?n] show ?thesis by (auto simp: child_step_def terminate_def Let_def split: if_splits)
next
  case C_write
  with assms that(4) show ?thesis by (simp add: child_step_def)
next
  case C_ack
  with assms that(5) that(6) [of "if length (c_buffer s) < 100 then says s + 1 else says s"] show ?thesis
    unfolding child_step_def by (cases "p_ended s") simp_all
next
  case C_error
  with assms that(5,7) show ?thesis by (simp add: child_step_def split: if_splits)
next
  case C_exit
  with assms that(8) show ?thesis by (simp add: child_step_def)
next
  case C_done
  with assms show ?thesis by (simp add: child_step_def)
next
  case C_killed
  with assms show ?thesis by (simp add: child_step_def)
qed

subsection \<open>The end\<close>

text \<open>Each byte costs at most three steps of either process, and less than eight in all.\<close>

fun p_cost :: "p_pc \<Rightarrow> nat \<Rightarrow> nat" where
  "p_cost P_read n = 1"
| "p_cost P_write n = 4 * n + 3"
| "p_cost P_ack n = 2"
| "p_cost P_done n = 0"
| "p_cost P_killed n = 0"

fun c_cost :: "c_pc \<Rightarrow> nat" where
  "c_cost C_read = 3"
| "c_cost C_write = 5"
| "c_cost C_ack = 4"
| "c_cost C_error = 2"
| "c_cost C_exit = 1"
| "c_cost C_done = 0"
| "c_cost C_killed = 0"

definition work :: "copy \<Rightarrow> nat" where
  "work s = 8 * length (unread s) + 4 * length (pipe1 s) + p_cost (p_at s) (length (p_buffer s)) + c_cost (c_at s)"

lemma parent_works: "parent_step slack r s = Inr (Some s') \<Longrightarrow> work s' < work s"
  by (cases rule: parent_step_cases) (auto simp: work_def)

lemma child_works: "child_step slack got w s = Inr (Some s') \<Longrightarrow> work s' < work s"
  by (cases rule: child_step_cases) (auto simp: work_def)

subsection \<open>What arrives\<close>

text \<open>What has been stored or is on its way to the child; a killed parent loses the piece it holds.\<close>

definition sent :: "copy \<Rightarrow> 8 word list" where
  "sent s = dest s @ c_holds s @ pipe1 s"

definition any_inv :: "bool \<Rightarrow> bool \<Rightarrow> 8 word list \<Rightarrow> copy \<Rightarrow> bool" where
  "any_inv forked full whole s \<longleftrightarrow> answered s \<and> (p_at s = P_write \<longrightarrow> p_buffer s \<noteq> []) \<and> subseq (flow s) whole \<and>
     (full \<longrightarrow> prefix (sent s) whole \<and> (p_at s \<noteq> P_killed \<longrightarrow> flow s = whole)) \<and>
     errors s \<le> 1 \<and> (errors s = 1 \<longrightarrow> c_at s \<in> {C_exit, C_done}) \<and> (\<not> forked \<longrightarrow> c_at s = C_done \<and> sent s = [])"

lemmas sends = sent_def flow_def p_holds_def c_holds_def answered_def

lemma any_start: "any_inv forked full content (copy_start forked content)"
  by (simp add: any_inv_def copy_start_def sends)

lemma any_inv_same:
  assumes "any_inv forked full whole s" and "flow s' = flow s" and "sent s' = sent s" and "errors s' = errors s"
    and "c_at s \<in> {C_exit, C_done} \<Longrightarrow> c_at s' = C_done \<or> c_at s' = c_at s" and "p_at s' = P_killed \<longleftrightarrow> p_at s = P_killed"
    and "answered s'" and "p_at s' = P_write \<longrightarrow> p_buffer s' \<noteq> []"
  shows "any_inv forked full whole s'"
  using assms by (auto simp: any_inv_def)

lemma any_parent:
  assumes inv: "any_inv forked full whole s" and step: "parent_step slack r s = Inr (Some s')"
  shows "any_inv forked full whole s'"
  using step
proof (cases rule: parent_step_cases)
  case (piece n)
  then show ?thesis by (intro any_inv_same [OF inv]) (auto simp: sends)
next
  case finished
  then show ?thesis by (intro any_inv_same [OF inv]) (auto simp: sends)
next
  case sent
  with inv have "p_buffer s \<noteq> []" and closed: "\<not> forked \<longrightarrow> c_at s = C_done" by (simp_all add: any_inv_def)
  moreover have "\<not> forked \<longrightarrow> False" using closed sent(2) by (auto simp: c_ended_def)
  moreover have "flow s' = flow s" "sent s' = sent s @ p_buffer s" "flow s = sent s @ p_buffer s @ unread s"
    using sent by (simp_all add: sends)
  moreover have "whole = sent s @ p_buffer s @ unread s \<Longrightarrow> prefix (sent s @ p_buffer s) whole" by simp
  ultimately show ?thesis using inv sent by (auto simp: any_inv_def answered_def)
next
  case killed
  then have flow: "flow s' = sent s @ unread s" "flow s = sent s @ p_buffer s @ unread s" and same: "sent s' = sent s" by (auto simp: sends)
  have "subseq (flow s') (flow s)" unfolding flow by (rule list_emb_append_mono) (simp_all add: list_emb_append2)
  then have "subseq (flow s) whole \<longrightarrow> subseq (flow s') whole" by (blast intro: subseq_order.order_trans)
  with killed inv same show ?thesis by (simp add: any_inv_def answered_def)
next
  case (acked n)
  then show ?thesis by (intro any_inv_same [OF inv]) (auto simp: sends)
qed

lemma any_child:
  assumes inv: "any_inv forked full whole s" and step: "child_step slack got w s = Inr (Some s')"
    and w: "full \<Longrightarrow> length (c_buffer s) \<le> w"
  shows "any_inv forked full whole s'"
  using step
proof (cases rule: child_step_cases)
  case stored
  let ?rest = "pipe1 s @ p_holds s @ unread s"
  have flow: "flow s' = dest s @ take w (c_buffer s) @ ?rest" "flow s = dest s @ c_buffer s @ ?rest"
    and sent: "sent s' = dest s @ take w (c_buffer s) @ pipe1 s" "sent s = dest s @ c_buffer s @ pipe1 s"
    using stored by (simp_all add: sends)
  have "subseq (take w (c_buffer s)) (c_buffer s)" by (intro prefix_imp_subseq take_is_prefix)
  then have "subseq (take w (c_buffer s) @ ?rest) (c_buffer s @ ?rest)" by (rule list_emb_append_mono) simp
  then have "subseq (flow s') (flow s)" unfolding flow by (rule list_emb_append_mono [rotated]) simp
  then have "subseq (flow s) whole \<longrightarrow> subseq (flow s') whole" by (blast intro: subseq_order.order_trans)
  moreover have "full \<longrightarrow> flow s' = flow s \<and> sent s' = sent s" using w by (simp add: flow sent)
  ultimately show ?thesis using stored inv by (simp add: any_inv_def answered_def)
next
  case (piece n)
  then show ?thesis by (intro any_inv_same [OF inv]) (use inv in \<open>auto simp: sends any_inv_def\<close>)
next
  case failed
  then show ?thesis by (intro any_inv_same [OF inv]) (use inv in \<open>auto simp: sends any_inv_def\<close>)
next
  case end_of_pipe
  then show ?thesis by (intro any_inv_same [OF inv]) (use inv in \<open>auto simp: sends any_inv_def\<close>)
next
  case killed
  then show ?thesis by (intro any_inv_same [OF inv]) (use inv in \<open>auto simp: sends any_inv_def\<close>)
next
  case (told m)
  then show ?thesis by (intro any_inv_same [OF inv]) (use inv in \<open>auto simp: sends any_inv_def\<close>)
next
  case exits
  then show ?thesis by (intro any_inv_same [OF inv]) (use inv in \<open>auto simp: sends any_inv_def\<close>)
next
  case error
  then have "flow s' = flow s" "sent s' = sent s" by (simp_all add: sends)
  with error inv show ?thesis by (simp add: any_inv_def answered_def)
qed

lemma any_step_inv: "any_step full slack s s' \<Longrightarrow> any_inv forked full whole s \<Longrightarrow> any_inv forked full whole s'"
  by (elim any_step.cases) (auto intro: any_parent any_child)

interpretation failing: transition_system "\<lambda>s. s = copy_start forked whole" "any_step full slack" "any_inv forked full whole"
  by unfold_locales (auto intro: any_start any_step_inv)

subsection \<open>A run that fails\<close>

text \<open>A small file whose only piece cannot be written, parent and child in turn: the processes end as if all was well.\<close>

lemma lost_copy:
  assumes "content \<noteq> []" and "length content < 100" and "1 \<le> slack"
  shows "\<exists>s. (any_step False slack ^^ 8) (copy_start True content) s \<and> p_at s = P_done \<and> c_at s = C_done \<and>
    dest s = [] \<and> says s = 1 \<and> errors s = 0"
proof -
  let ?go = "\<lambda>n s. \<exists>t. (any_step False slack ^^ n) s t \<and> p_at t = P_done \<and> c_at t = C_done \<and> dest t = [] \<and> says t = 1 \<and> errors t = 0"
  have pstep: "parent_step slack (Some BUF_SIZE) s = Inr (Some s') \<Longrightarrow> ?go n s' \<Longrightarrow> ?go (Suc n) s" for s s' n
    by (blast intro: relpowp_Suc_I2 any_step.parent)
  have cstep: "child_step slack True 0 s = Inr (Some s') \<Longrightarrow> ?go n s' \<Longrightarrow> ?go (Suc n) s" for s s' n
    by (blast intro: relpowp_Suc_I2 any_step.child)
  have fits: "terminate slack (length content) k = k" for k :: "copy option res"
    using assms(2) by (intro terminate_spare assms(3)) (simp add: BUF_SIZE_def)
  note defs = parent_step_def child_step_def copy_start_def fits BUF_SIZE_def p_ended_def c_ended_def
  show ?thesis
    unfolding eval_nat_numeral BitM.simps
    apply (rule pstep, simp add: defs assms min_absorb2)
    apply (rule pstep, simp add: defs)
    apply (rule cstep, simp add: defs assms min_absorb2)
    apply (rule cstep, simp add: defs)
    apply (rule cstep, simp add: defs)
    apply (rule pstep, simp add: defs)
    apply (rule pstep, simp add: defs)
    apply (rule cstep, simp add: defs)
    using assms(2) by simp
qed

subsection \<open>The property\<close>

lemma any_run_work:
  "(any_step full slack ^^ n) (copy_start forked content) s \<Longrightarrow> n + work s \<le> 8 * length content + 4"
proof (induction n arbitrary: s)
  case 0
  then have "s = copy_start forked content" by simp
  then show ?case by (simp add: work_def copy_start_def)
next
  case (Suc n)
  then obtain t where run: "(any_step full slack ^^ n) (copy_start forked content) t" and step: "any_step full slack t s" by auto
  from step have "work s < work t" by cases (auto dest: parent_works child_works)
  with Suc.IH [OF run] show ?case by simp
qed

text \<open>C34: `fcopy` when calls fail.  Whichever reads fail or are short, whatever the destination takes, and whether or not there is a child: the
  processes stay within their buffers, one of them can go on until both have ended, and they have ended after at most
  8 steps per byte and 4 more.  The destination then holds bytes of the source only, in its order, and if its writes are complete a beginning of
  it; without a child it stays empty.  But failures go unreported: the copy of any file of 1 to 99 bytes can fail in its only
  write, and the program still says that it succeeded, and nothing else.\<close>

theorem fcopy_failures:
  assumes "1 \<le> slack" and opened: "copy_main (Some content) True forked = Inr s\<^sub>0" and run: "(any_step full slack ^^ n) s\<^sub>0 s"
  shows "n \<le> 8 * length content + 4 \<and>
    (p_ended s \<and> c_ended s \<or> (\<exists>s'. copy_step slack s s')) \<and>
    (\<exists>t. parent_step slack r s = Inr t) \<and> (\<exists>t. child_step slack got w s = Inr t) \<and>
    subseq (dest s) content \<and> (full \<longrightarrow> prefix (dest s) content) \<and> (\<not> forked \<longrightarrow> dest s = []) \<and> errors s \<le> 1 \<and>
    (forked \<and> content \<noteq> [] \<and> length content < 100 \<longrightarrow>
      (\<exists>t. (any_step False slack ^^ 8) s\<^sub>0 t \<and> p_at t = P_done \<and> c_at t = C_done \<and> dest t = [] \<and> says t = 1 \<and> errors t = 0))"
proof -
  from opened have start: "s\<^sub>0 = copy_start forked content" by (simp add: copy_main_def)
  from run have "(any_step full slack)\<^sup>*\<^sup>* s\<^sub>0 s" by (rule relpowp_imp_rtranclp)
  then have inv: "any_inv forked full content s" using start failing.steps_inv any_start by metis
  have "n \<le> 8 * length content + 4" using any_run_work run start by (metis add_leE)
  moreover have "p_ended s \<and> c_ended s \<or> (\<exists>s'. copy_step slack s s')"
    using copy_goes_on [OF _ assms(1)] inv by (auto simp: any_inv_def)
  moreover have "prefix (dest s) (flow s)" "prefix (dest s) (sent s)" by (simp_all add: flow_def sent_def)
  then have sub: "subseq (dest s) (flow s)" and pre: "prefix (dest s) (sent s)" by (simp_all add: prefix_imp_subseq)
  from inv have "subseq (flow s) content" "full \<longrightarrow> prefix (sent s) content" "\<not> forked \<longrightarrow> sent s = []" "errors s \<le> 1"
    by (simp_all add: any_inv_def)
  then have "subseq (dest s) content" "full \<longrightarrow> prefix (dest s) content" "\<not> forked \<longrightarrow> dest s = []" "errors s \<le> 1"
    using subseq_order.order_trans [OF sub] prefix_order.trans [OF pre] by (simp_all add: sent_def)
  ultimately show ?thesis using steps_spare [OF assms(1)] lost_copy [OF _ _ assms(1), of content] start by auto
qed

text \<open>Witness: a file of one byte, the first read failing.\<close>

lemma fcopy_failures_witness:
  "\<exists>s. any_step True 1 (copy_start True [65]) s \<and> p_at s = P_done \<and> dest s = [] \<and> (\<exists>s'. copy_step 1 s s') \<and>
    (\<exists>t. (any_step False 1 ^^ 8) (copy_start True [65]) t \<and> dest t = [] \<and> says t = 1)"
proof -
  let ?s = "(copy_start True [65])\<lparr>p_at := P_done\<rparr>"
  have "parent_step 1 None (copy_start True [65]) = Inr (Some ?s)" by (simp add: parent_step_def copy_start_def)
  then have step: "any_step True 1 (copy_start True [65]) ?s" by (rule any_step.parent)
  then have "(any_step True 1 ^^ 1) (copy_start True [65]) ?s" by (simp only: relpowp_1)
  moreover have "copy_main (Some [65]) True True = Inr (copy_start True [65])" by (simp add: copy_main_def)
  ultimately have "(p_ended ?s \<and> c_ended ?s \<or> (\<exists>s'. copy_step 1 ?s s')) \<and>
      (\<exists>t. (any_step False 1 ^^ 8) (copy_start True [65]) t \<and> dest t = [] \<and> says t = 1)"
    using fcopy_failures [OF le_refl, of "[65]" True "copy_start True [65]" 1 True ?s None True 0] by auto
  moreover have "p_at ?s = P_done" "dest ?s = []" "\<not> c_ended ?s" by (simp_all add: copy_start_def c_ended_def)
  ultimately show ?thesis using step by blast
qed

end
