(* ===== verification/Shell_Text.thy ===== *)
theory Shell_Text
  imports Libc_Text
begin

text \<open>
  The character buffer `inputCopy` of `Command_interrupter/shell.c` and `strtok_r` on it: the buffer is a
  list with its terminating NULs, pointers into it are offsets.  The lemmas relate successive calls of
  `strtok_r` to the words of the line.
\<close>

subsection \<open>Strings in a buffer\<close>

abbreviation NUL :: char where "NUL \<equiv> CHR 0x00"

definition cstr :: "string \<Rightarrow> nat \<Rightarrow> string" where
  "cstr buf p = takeWhile (\<lambda>c. c \<noteq> NUL) (drop p buf)"

text \<open>
  `strtok_r (s, " ", &save)` of glibc for `s` at offset `p`: skip spaces; at the end there is no token; otherwise
  the token's end is overwritten with NUL, unless it is one, and the saved pointer is just after it.
\<close>

definition strtok_r :: "string \<Rightarrow> nat \<Rightarrow> nat option \<times> string \<times> nat" where
  "strtok_r buf s =
     (let p = s + length (takeWhile (\<lambda>c. c = CHR 0x20) (drop s buf)) in
      if buf ! p = NUL then (None, buf, p)
      else let e = p + length (takeWhile (\<lambda>c. c \<noteq> CHR 0x20 \<and> c \<noteq> NUL) (drop p buf)) in
           if buf ! e = NUL then (Some p, buf, e) else (Some p, buf[e := NUL], Suc e))"

subsection \<open>The words of a line\<close>

function words :: "string \<Rightarrow> string list" where
  "words s =
     (case dropWhile (\<lambda>c. c = CHR 0x20) s of
        [] \<Rightarrow> []
      | c # r \<Rightarrow> takeWhile (\<lambda>c. c \<noteq> CHR 0x20) (c # r) # words (dropWhile (\<lambda>c. c \<noteq> CHR 0x20) (c # r)))"
  by pat_completeness auto

lemma dropWhile_Cons_length: "dropWhile P s = c # r \<Longrightarrow> length r < length s"
  by (metis Suc_le_lessD dropWhile_eq_drop length_Cons length_drop diff_le_self)

termination words
proof (relation "measure length", goal_cases)
  case (2 s c r)
  from 2 have "c \<noteq> CHR 0x20" by (metis (mono_tags, lifting) dropWhile_eq_Cons_conv)
  then have "length (dropWhile (\<lambda>c. c \<noteq> CHR 0x20) (c # r)) \<le> length r"
    by (simp add: length_dropWhile_le)
  also have "\<dots> < length s" by (rule dropWhile_Cons_length [OF 2])
  finally show ?case by simp
qed simp

declare words.simps [simp del]

lemma words_Nil [simp]: "words [] = []"
  by (simp add: words.simps)

lemma words_space [simp]: "words (CHR 0x20 # s) = words s"
  by (simp add: words.simps [of "CHR 0x20 # s"] words.simps [of s])

lemma words_word:
  assumes "w \<noteq> []" and "CHR 0x20 \<notin> set w" and "r = [] \<or> hd r = CHR 0x20"
  shows "words (w @ r) = w # words r"
proof -
  from assms(1,2) obtain c v where w: "w = c # v" "c \<noteq> CHR 0x20" by (cases w) auto
  have "takeWhile (\<lambda>c. c \<noteq> CHR 0x20) (w @ r) = w \<and> dropWhile (\<lambda>c. c \<noteq> CHR 0x20) (w @ r) = r"
    using assms(2,3) by (intro conjI takeWhile_stop dropWhile_stop) auto
  with w show ?thesis by (simp add: words.simps [of "c # v @ r"])
qed

text \<open>A text is spaces, or spaces, its first word and a rest that is empty or begins with a space.\<close>

lemma text_cases:
  obtains n where "s = replicate n (CHR 0x20)" and "words s = []"
  | n w r where "s = replicate n (CHR 0x20) @ w @ r" and "w \<noteq> []" and "CHR 0x20 \<notin> set w"
    and "r = [] \<or> hd r = CHR 0x20" and "words s = w # words r"
proof (cases "\<forall>c \<in> set s. c = CHR 0x20")
  case True
  then have s: "s = replicate (length s) (CHR 0x20)" by (metis replicate_length_same)
  have "words (replicate n (CHR 0x20)) = []" for n by (induction n) simp_all
  with s that(1) show ?thesis by metis
next
  case False
  let ?sp = "takeWhile (\<lambda>c. c = CHR 0x20) s" and ?t = "dropWhile (\<lambda>c. c = CHR 0x20) s"
  let ?w = "takeWhile (\<lambda>c. c \<noteq> CHR 0x20) ?t" and ?r = "dropWhile (\<lambda>c. c \<noteq> CHR 0x20) ?t"
  from False have "?t \<noteq> []" by (auto simp: dropWhile_eq_Nil_conv)
  then have hd: "hd ?t \<noteq> CHR 0x20" by (rule hd_dropWhile)
  with \<open>?t \<noteq> []\<close> have "?w \<noteq> []" by (cases ?t) auto
  moreover have "CHR 0x20 \<notin> set ?w" by (auto dest: set_takeWhileD)
  moreover have r: "?r = [] \<or> hd ?r = CHR 0x20" using hd_dropWhile [of "\<lambda>c. c \<noteq> CHR 0x20" ?t] by blast
  moreover have "?sp = replicate (length ?sp) (CHR 0x20)"
    by (rule replicate_length_same [symmetric]) (auto dest: set_takeWhileD)
  moreover have "s = ?sp @ ?w @ ?r" by (simp only: takeWhile_dropWhile_id)
  moreover have "words (replicate n (CHR 0x20) @ ?w @ ?r) = ?w # words ?r" for n
    using words_word [of ?w ?r] calculation(1,2,3) by (induction n) simp_all
  ultimately show ?thesis using that(2) [of "length ?sp" ?w ?r] by metis
qed

subsection \<open>What \<open>strtok_r\<close> returns\<close>

text \<open>`unread buf s t`: the text from offset `s` is `t`, up to the NUL that ends the buffer.\<close>

definition unread :: "string \<Rightarrow> nat \<Rightarrow> string \<Rightarrow> bool" where
  "unread buf s t \<longleftrightarrow> s \<le> length buf \<and> drop s buf = t @ [NUL] \<and> NUL \<notin> set t"

lemma unread_nth: "unread buf s t \<Longrightarrow> i < length t \<Longrightarrow> buf ! (s + i) = t ! i"
  by (metis nth_append nth_drop unread_def)

lemma unread_end: "unread buf s t \<Longrightarrow> buf ! (s + length t) = NUL"
  by (metis nth_append_length nth_drop unread_def)

lemma unread_suffix:
  assumes "unread buf s (a @ b)"
  shows "unread buf (s + length a) b"
proof -
  from assms have "drop (length a) (drop s buf) = b @ [NUL]" by (simp add: unread_def)
  moreover from assms have "length buf - s = length a + length b + 1" unfolding unread_def
    by (metis One_nat_def add.right_neutral add_Suc_right length_append length_drop list.size(3,4))
  ultimately show ?thesis using assms by (simp add: unread_def add.commute)
qed

lemma takeWhile_update:
  "length (takeWhile P ys) \<le> k \<Longrightarrow> \<not> P c \<Longrightarrow> takeWhile P (ys[k := c]) = takeWhile P ys"
  by (induction ys arbitrary: k) (auto split: if_splits nat.splits)

text \<open>Writing NUL at or behind the end of a string keeps it.\<close>

lemma cstr_update: "q + length (cstr buf q) \<le> e \<Longrightarrow> cstr (buf[e := NUL]) q = cstr buf q"
  by (simp add: cstr_def drop_update_swap takeWhile_update)

lemma cstr_eq:
  assumes "drop p buf = w @ NUL # r" and "NUL \<notin> set w"
  shows "cstr buf p = w"
  unfolding cstr_def assms(1) using assms(2) by (intro takeWhile_stop) auto

text \<open>One call: it finds the first word, and the other words are the words of what is left.\<close>

lemma strtok_r_none:
  assumes "unread buf s t" and "words t = []"
  shows "strtok_r buf s = (None, buf, s + length t)"
proof (cases t rule: text_cases)
  case (1 n)
  have "takeWhile (\<lambda>c. c = CHR 0x20) (t @ [NUL]) = t" using 1(1) by (intro takeWhile_stop) auto
  with assms(1) unread_end [OF assms(1)] show ?thesis by (simp add: strtok_r_def unread_def)
qed (use assms in simp)

lemma strtok_r_some:
  assumes un: "unread buf s t" and "words t = w # ws"
  obtains p e r c where "strtok_r buf s = (Some p, buf[e := NUL], r)" and "s \<le> p" and "p < e" and "e \<le> r"
    and "cstr (buf[e := NUL]) p = w" and "e = p + length w"
    and "unread (buf[e := NUL]) r c" and "words c = ws" and "NUL \<notin> set w" and "w \<noteq> []"
proof (cases t rule: text_cases)
  case (2 n v r)
  with assms(2) have w: "v = w" "ws = words r" by simp_all
  note t = 2(1) [unfolded w(1)] and w_sp = 2(2,3) [unfolded w(1)]
  let ?p = "s + n"
  from un have nul: "NUL \<notin> set w" "NUL \<notin> set r" by (auto simp: unread_def t)
  have un': "unread buf ?p (w @ r)" using unread_suffix [of buf s "replicate n (CHR 0x20)" "w @ r"] un t by simp
  then have at_p: "drop ?p buf = w @ r @ [NUL]" by (simp add: unread_def)
  have un_e: "unread buf (?p + length w) r" using unread_suffix [OF un'] .
  have hdw: "hd w \<noteq> CHR 0x20 \<and> hd w \<noteq> NUL" using w_sp nul by (metis hd_in_set)
  have skip: "takeWhile (\<lambda>c. c = CHR 0x20) (drop s buf) = replicate n (CHR 0x20)"
    using takeWhile_stop [of "replicate n (CHR 0x20)" "\<lambda>c. c = CHR 0x20" "w @ r @ [NUL]"] un hdw w_sp
    by (simp add: unread_def t)
  have scan: "takeWhile (\<lambda>c. c \<noteq> CHR 0x20 \<and> c \<noteq> NUL) (drop ?p buf) = w"
    unfolding at_p using w_sp nul 2(4) by (intro takeWhile_stop) (auto simp: hd_append)
  have "buf ! ?p = hd w" using unread_nth [OF un', of 0] w_sp by (simp add: hd_conv_nth nth_append)
  with hdw skip scan have tok: "strtok_r buf s =
      (if buf ! (?p + length w) = NUL then (Some ?p, buf, ?p + length w) else (Some ?p, buf[?p + length w := NUL], Suc (?p + length w)))"
    by (simp add: strtok_r_def Let_def)
  show ?thesis
  proof (cases r)
    case Nil
    have e: "buf ! (?p + length w) = NUL" using unread_end [OF un_e] Nil by simp
    then have same: "buf[?p + length w := NUL] = buf" by (metis list_update_id)
    have "cstr buf ?p = w" using at_p Nil nul by (intro cstr_eq [of _ _ _ "[]"]) simp_all
    with tok e un_e Nil w(2) nul w_sp that [of ?p "?p + length w" "?p + length w" "[]"] show ?thesis by (simp add: same)
  next
    case (Cons c r')
    with 2(4) have r: "r = CHR 0x20 # r'" by simp
    have e: "buf ! (?p + length w) = CHR 0x20" using unread_nth [OF un_e, of 0] r by simp
    have "drop ?p (buf[?p + length w := NUL]) = w @ NUL # r' @ [NUL]" by (simp add: drop_update_swap at_p r)
    then have "cstr (buf[?p + length w := NUL]) ?p = w" using nul by (intro cstr_eq)
    moreover have "unread (buf[?p + length w := NUL]) (Suc (?p + length w)) r'"
      using unread_suffix [of buf "?p + length w" "[CHR 0x20]" r'] un_e r by (simp add: unread_def)
    ultimately show ?thesis using tok e w r nul w_sp that [of ?p "?p + length w" "Suc (?p + length w)" r'] by simp
  qed
qed (use assms in simp)

end
