(* ===== verification/Shell.thy ===== *)
theory Shell
  imports Shell_Text
begin

text \<open>
  `Command_interrupter/shell.c`: one round of the loop of `main`, from the prompt to the end of the
  command.  What the operating system answers in the round is the argument `os`; what the shell asks of
  it is a list of events.  A fault of the shell or of a process it has forked is the result `Inl`.
\<close>

subsection \<open>What the operating system answers\<close>

record stat =
  st_mode :: "32 word"
  st_nlink :: "64 word"
  st_size :: "64 word"
  st_atime :: string

text \<open>
  The working directory if `getcwd` succeeds with its 100 bytes; whether the log file can be opened and
  `chdir`, `mkdir`, `rmdir` succeed; the entries of the directory with what `stat` finds; which files may be read
  and written; how many bytes the calls of `write` accept; the heap bytes after `inputCopy`
  that belong to nothing else.  For a round `i` of the loop over a pipeline: whether `pipe` succeeds, and the process id `fork` gives; and the
  addresses of the rows of the array `pfd`, as integers.
\<close>

record os =
  getcwd :: "string option"
  log_opens :: bool
  chdir_ok :: bool
  mkdir_ok :: bool
  rmdir_ok :: bool
  entries :: "(string \<times> stat option) list option"
  may_read :: "string \<Rightarrow> bool"
  may_write :: "string \<Rightarrow> bool"
  accepts :: "nat \<Rightarrow> nat"
  beyond :: string
  pipe_ok :: "int \<Rightarrow> bool"
  fork_pid :: "int \<Rightarrow> int"
  row_address :: "nat \<Rightarrow> int"

text \<open>
  What is redirected in a child, in the order of the calls, and what the shell does; `Piped` is a program of a pipeline with
  the arguments of its calls of `dup2`.
\<close>

datatype redirect = In string | Out string

datatype event =
    Prompt "string option"
  | Print string
  | Perror string
  | Logged string
  | Chdir string
  | Mkdir string
  | Rmdir string
  | Opendir string
  | Run (argv: "string list") (redirects: "redirect list") (waited: bool)
  | Piped "string list" "(int \<times> int) list"
  | Exited

text \<open>
  What lasts from round to round: the two buffers (`None` before the first line, and before the first
  successful `getcwd`) and the files, by path name, each file having one name.
\<close>

record shell =
  input :: "string option"
  curwd :: "string option"
  files :: "string \<Rightarrow> string option"

definition limit :: nat where "limit = 100"

definition init :: "'a option \<Rightarrow> ('a \<Rightarrow> 'b res) \<Rightarrow> 'b res" where
  "init x k = (case x of None \<Rightarrow> Inl Uninitialised | Some v \<Rightarrow> k v)"

subsection \<open>The log\<close>

text \<open>
  `fp = fopen ("test.txt", "a"); fwrite (p, 1, sizeof (p), fp); fprintf (fp, sep); fclose (fp);`, where
  the size is that of the pointer.
\<close>

definition log_word :: "os \<Rightarrow> string \<Rightarrow> nat option \<Rightarrow> string \<Rightarrow> event list res" where
  "log_word os buf p sep =
     (if \<not> log_opens os then Inl Null_deref
      else deref p (\<lambda>p.
        if p + 8 \<le> length buf + length (beyond os) then Inr [Logged (take 8 (drop p (buf @ beyond os)) @ sep)]
        else Inl Out_of_bounds))"

subsection \<open>Built-in commands\<close>

definition do_cd :: "os \<Rightarrow> string \<Rightarrow> nat \<Rightarrow> nat option \<Rightarrow> event list res" where
  "do_cd os buf first second =
     bind (log_word os buf (Some first) ''\<newline>'') (\<lambda>l.
     Inr (l @ (case second of
       None \<Rightarrow> [Chdir ''/home'']
     | Some p \<Rightarrow> Chdir (cstr buf p) # (if chdir_ok os then [] else [Perror ''Error: '']))))"

definition do_pwd :: "os \<Rightarrow> string \<Rightarrow> nat \<Rightarrow> shell \<Rightarrow> event list res" where
  "do_pwd os buf first s =
     bind (log_word os buf (Some first) ''\<newline>'') (\<lambda>l.
     init (curwd s) (\<lambda>d. Inr (l @ [Print (d @ ''\<newline>'')])))"

definition do_mkdir :: "os \<Rightarrow> string \<Rightarrow> nat \<Rightarrow> nat option \<Rightarrow> event list res" where
  "do_mkdir os buf first second =
     bind (log_word os buf (Some first) [CHR 0x09]) (\<lambda>l1.
     bind (log_word os buf second ''\<newline>'') (\<lambda>l2.
     deref second (\<lambda>p.
     Inr (l1 @ l2 @ Mkdir (cstr buf p) # (if mkdir_ok os then [] else [Perror ''Error: ''])))))"

definition do_rmdir :: "os \<Rightarrow> string \<Rightarrow> nat \<Rightarrow> nat option \<Rightarrow> event list res" where
  "do_rmdir os buf first second =
     bind (log_word os buf (Some first) [CHR 0x09]) (\<lambda>l1.
     bind (log_word os buf second ''\<newline>'') (\<lambda>l2.
     deref second (\<lambda>p.
     Inr (l1 @ l2 @ Rmdir (cstr buf p) # (if rmdir_ok os then [] else [Perror ''Error: ''])))))"

text \<open>The first column of `ls -l`: `S_ISDIR` and the nine permission bits.\<close>

definition mode_text :: "32 word \<Rightarrow> string" where
  "mode_text m =
     (if m AND 0xF000 = 0x4000 then ''d'' else ''-'') @
     (if m AND 0x100 \<noteq> 0 then ''r'' else ''-'') @ (if m AND 0x80 \<noteq> 0 then ''w'' else ''-'') @
     (if m AND 0x40 \<noteq> 0 then ''x'' else ''-'') @
     (if m AND 0x20 \<noteq> 0 then ''r'' else ''-'') @ (if m AND 0x10 \<noteq> 0 then ''w'' else ''-'') @
     (if m AND 0x8 \<noteq> 0 then ''x'' else ''-'') @
     (if m AND 0x4 \<noteq> 0 then ''r'' else ''-'') @ (if m AND 0x2 \<noteq> 0 then ''w'' else ''-'') @
     (if m AND 0x1 \<noteq> 0 then ''x'' else ''-'')"

text \<open>The counts are cast to `int`; `st_atime` is the text of `ctime`.\<close>

definition int_cast :: "64 word \<Rightarrow> int" where
  "int_cast x = sint (ucast x :: 32 word)"

definition entry_line :: "string \<Rightarrow> stat \<Rightarrow> string" where
  "entry_line name st = mode_text (st_mode st) @ '' '' @ show_int (int_cast (st_nlink st)) @ [CHR 0x09] @
     show_int (int_cast (st_size st)) @ [CHR 0x09] @ st_atime st @ [CHR 0x09] @ name @ ''\<newline>''"

fun list_long :: "(string \<times> stat option) list \<Rightarrow> string" where
  "list_long [] = []"
| "list_long ((name, None) # es) = list_long es"
| "list_long ((name, Some st) # es) = entry_line name st @ list_long es"

text \<open>`closedir` of a null pointer is not defined.\<close>

definition do_ls :: "os \<Rightarrow> string \<Rightarrow> nat \<Rightarrow> nat option \<Rightarrow> shell \<Rightarrow> event list res" where
  "do_ls os buf first second s =
     bind (log_word os buf (Some first) ''\<newline>'') (\<lambda>l.
     case second of
       None \<Rightarrow> init (curwd s) (\<lambda>d. Inr (l @ Opendir d # (case entries os of
           None \<Rightarrow> [Perror ''Error:'']
         | Some es \<Rightarrow> [Print (concat (map (\<lambda>(name, _). name @ ''\<newline>'') es)), Print ''\<newline>''])))
     | Some p \<Rightarrow>
         if cstr buf p = ''-l'' then
           init (curwd s) (\<lambda>d. case entries os of
             None \<Rightarrow> Inl Null_deref
           | Some es \<Rightarrow> Inr (l @ [Opendir d, Print (list_long es)]))
         else Inr l)"

text \<open>
  `cp`: `left` is what is still to be read.  The statement of the `if` is the next one, `close (inputFd)`:
  after a short write the next `read` fails.
\<close>

function copy_loop :: "(nat \<Rightarrow> nat) \<Rightarrow> nat \<Rightarrow> string \<Rightarrow> string" where
  "copy_loop acc k left =
     (if left = [] then []
      else let piece = take 1024 left; w = min (acc k) (length piece)
           in take w piece @ (if w \<noteq> length piece then [] else copy_loop acc (Suc k) (drop 1024 left)))"
  by pat_completeness auto
termination by (relation "measure (\<lambda>(_, _, left). length left)") auto

declare copy_loop.simps [simp del]

text \<open>Opening the destination empties it, and only then is the source read.\<close>

definition do_cp :: "os \<Rightarrow> string option \<Rightarrow> string option \<Rightarrow> (string \<Rightarrow> string option) \<Rightarrow> string \<Rightarrow> string option" where
  "do_cp os src dst fs =
     (let opened = (case src of None \<Rightarrow> False | Some a \<Rightarrow> fs a \<noteq> None \<and> may_read os a) in
      case dst of
        None \<Rightarrow> fs
      | Some b \<Rightarrow>
          if may_write os b then
            (let fs = fs(b \<mapsto> []) in
             if opened then fs(b \<mapsto> copy_loop (accepts os) 0 (the (fs (the src)))) else fs)
          else fs)"

subsection \<open>The arguments of other commands\<close>

text \<open>A cell of `arg`: not yet written, a null pointer, or a pointer into `inputCopy`.\<close>

datatype cell = Uninit | Null | Ptr nat

definition ARGS :: nat where "ARGS = 50"

definition string_at :: "string \<Rightarrow> cell list \<Rightarrow> nat \<Rightarrow> string res" where
  "string_at buf arg n =
     (if n < length arg then
        case arg ! n of Uninit \<Rightarrow> Inl Uninitialised | Null \<Rightarrow> Inl Null_deref | Ptr p \<Rightarrow> Inr (cstr buf p)
      else Inl Out_of_bounds)"

text \<open>`temp[strlen (temp) - 1]`, for a string that is not empty.\<close>

definition last_at :: "string \<Rightarrow> nat \<Rightarrow> nat" where
  "last_at buf p = p + length (cstr buf p) - 1"

record parsed =
  buf :: string
  arg :: "cell list"
  inputnum :: "nat option"
  background :: bool

text \<open>The loop `do ... while (temp != NULL)`; `n` is `inputnum` and `save` the saved pointer of `strtok_r`.\<close>

function arg_loop :: "string \<Rightarrow> nat \<Rightarrow> cell list \<Rightarrow> nat \<Rightarrow> parsed res" where
  "arg_loop b save a n =
     (if length a \<le> n then Inl Out_of_bounds
      else case strtok_r b save of
        (None, b, save) \<Rightarrow> Inr \<lparr>buf = b, arg = a[n := Null], inputnum = Some n, background = False\<rparr>
      | (Some p, b, save) \<Rightarrow>
          if b ! last_at b p = CHR ''&'' then
            Inr \<lparr>buf = b[last_at b p := NUL], arg = a[n := Ptr p], inputnum = Some n, background = True\<rparr>
          else arg_loop b save (a[n := Ptr p]) (Suc n))"
  by pat_completeness auto
termination by (relation "measure (\<lambda>(_, _, a, n). length a - n)") auto

declare arg_loop.simps [simp del]

text \<open>Lines 230 to 269; `inputnum` is set only when the first word does not end with `&`.\<close>

definition get_args :: "string \<Rightarrow> nat \<Rightarrow> nat option \<Rightarrow> nat \<Rightarrow> parsed res" where
  "get_args b first second remainder1 =
     (let a = replicate ARGS Uninit in
      if b ! last_at b first = CHR ''&'' then
        Inr \<lparr>buf = b[last_at b first := NUL], arg = a[0 := Ptr first, 1 := Null], inputnum = None, background = True\<rparr>
      else case second of
        None \<Rightarrow> Inr \<lparr>buf = b, arg = a[0 := Ptr first, 1 := Null], inputnum = Some 2, background = False\<rparr>
      | Some p \<Rightarrow> arg_loop b remainder1 (a[0 := Ptr first, 1 := Ptr p]) 2)"

text \<open>Whether one of the cells `k`, `k + 1`, ... (`m` of them) is one of the symbols.\<close>

fun find_symbol :: "string list \<Rightarrow> string \<Rightarrow> cell list \<Rightarrow> nat \<Rightarrow> nat \<Rightarrow> bool res" where
  "find_symbol syms b a 0 k = Inr False"
| "find_symbol syms b a (Suc m) k =
     bind (string_at b a k) (\<lambda>w. if w \<in> set syms then Inr True else find_symbol syms b a m (Suc k))"

subsection \<open>Running programs\<close>

text \<open>The arguments of a program: the strings of the cells before the first null pointer.\<close>

fun argv_of :: "string \<Rightarrow> cell list \<Rightarrow> string list res" where
  "argv_of b [] = Inl Out_of_bounds"
| "argv_of b (Uninit # a) = Inl Uninitialised"
| "argv_of b (Null # a) = Inr []"
| "argv_of b (Ptr p # a) = bind (argv_of b a) (\<lambda>ws. Inr (cstr b p # ws))"

text \<open>`fork`, and in the child `execvp (arg[0], arg)`.\<close>

definition run_program :: "string \<Rightarrow> cell list \<Rightarrow> redirect list \<Rightarrow> bool \<Rightarrow> event list res" where
  "run_program b a rs wait =
     bind (string_at b a 0) (\<lambda>_. bind (argv_of b a) (\<lambda>ws. Inr [Run ws rs wait]))"

text \<open>
  The pipeline branch: the arguments are copied into 50 commands of 20 cells, `yespipes` counts the pipes.
\<close>

fun split_loop :: "string \<Rightarrow> cell list \<Rightarrow> nat \<Rightarrow> nat \<Rightarrow> nat \<Rightarrow> nat \<Rightarrow> cell list list \<Rightarrow> (int \<times> cell list list) res" where
  "split_loop b a 0 ik i j p = Inr (int i, p)"
| "split_loop b a (Suc m) ik i j p =
     bind (string_at b a ik) (\<lambda>w.
     if length p \<le> i \<or> length (p ! i) \<le> j then Inl Out_of_bounds
     else if w = ''|'' then split_loop b a m (Suc ik) (Suc i) 0 (p[i := (p ! i)[j := Null]])
     else split_loop b a m (Suc ik) i (Suc j) (p[i := (p ! i)[j := a ! ik]]))"

text \<open>
  The child of round `i`, which runs command `i`.  Both `pclink`, which is set to `pfd[1]`, and `pfd[0]` are rows of an array of arrays, so their
  addresses are passed to `dup2`.
\<close>

definition piped_child :: "os \<Rightarrow> string \<Rightarrow> cell list list \<Rightarrow> int \<Rightarrow> int \<Rightarrow> event list res" where
  "piped_child os b p yespipes i =
     (let pclink = row_address os 1;
          dups = if i = 0 then [(pclink, 1)]
            else if i = yespipes then [(row_address os 0, 0)]
            else [(pclink, 1), (row_address os 0, 0)]
      in if i < 0 \<or> int (length p) \<le> i then Inl Out_of_bounds
         else bind (string_at b (p ! nat i) 0) (\<lambda>_. bind (argv_of b (p ! nat i)) (\<lambda>ws. Inr [Piped ws dups])))"

text \<open>
  `for (i = yespipes; i < 0; i--)`, with `pid` not set before.  The condition is the code's: counting down from a number of pipes it is false at
  once.
\<close>

function fork_loop :: "os \<Rightarrow> string \<Rightarrow> cell list list \<Rightarrow> int \<Rightarrow> int \<Rightarrow> int option \<Rightarrow> (event list \<times> int option) res" where
  "fork_loop os b p yespipes i pid =
     (if i < 0 then
        bind (if pipe_ok os i then bind (piped_child os b p yespipes i) (\<lambda>ev. Inr (ev, Some (fork_pid os i))) else Inr ([], pid))
          (\<lambda>(ev, pid).
        if int_range (i - 1) then
          bind (fork_loop os b p yespipes (i - 1) pid) (\<lambda>(ev', pid). Inr (ev @ ev', pid))
        else Inl Signed_overflow)
      else Inr ([], pid))"
  by pat_completeness auto
termination by (relation "measure (\<lambda>(_, _, _, _, i, _). nat (i + 2 ^ 31 + 1))") (auto simp: int_range_def)

declare fork_loop.simps [simp del]

text \<open>After it the shell waits for the process `pid`.\<close>

definition do_pipes :: "os \<Rightarrow> parsed \<Rightarrow> nat \<Rightarrow> event list res" where
  "do_pipes os q n =
     bind (split_loop (buf q) (arg q) n 0 0 0 (replicate 50 (replicate 20 Uninit))) (\<lambda>(yespipes, p).
     bind (fork_loop os (buf q) p yespipes yespipes None) (\<lambda>(ev, pid). init pid (\<lambda>_. Inr ev)))"

text \<open>`x < y` and `y > x` with the cells behind the command cleared in the child.\<close>

definition clear :: "nat \<Rightarrow> nat \<Rightarrow> cell list \<Rightarrow> cell list" where
  "clear n k a = foldr (\<lambda>i a. a[i := Null]) [n - k ..< n] a"

definition do_redirects :: "parsed \<Rightarrow> nat \<Rightarrow> event list res" where
  "do_redirects q n =
     (let at = string_at (buf q) (arg q) in
      bind (at (n - 2)) (\<lambda>sym.
      if sym = ''>'' then
        bind (if n < 4 then Inr True else bind (at (n - 4)) (\<lambda>w. Inr (w \<noteq> ''<'' \<and> n > 4))) (\<lambda>single.
        if single then bind (at (n - 1)) (\<lambda>f. run_program (buf q) (clear n 2 (arg q)) [Out f] True)
        else bind (at (n - 4)) (\<lambda>w.
          if w = ''<'' then
            bind (at (n - 3)) (\<lambda>g. bind (at (n - 1)) (\<lambda>f. run_program (buf q) (clear n 4 (arg q)) [In g, Out f] True))
          else Inr []))
      else if sym = ''<'' then
        bind (if n < 4 then Inr True else bind (at (n - 4)) (\<lambda>w. Inr (w \<noteq> ''>'' \<and> n > 4))) (\<lambda>single.
        if single then bind (at (n - 1)) (\<lambda>f. run_program (buf q) (clear n 2 (arg q)) [In f] True)
        else bind (at (n - 4)) (\<lambda>w.
          if w = ''>'' then
            bind (at (n - 1)) (\<lambda>f. run_program (buf q) (clear n 4 (arg q)) [In f, Out f] True)
          else Inr []))
      else Inr []))"

definition do_parsed :: "os \<Rightarrow> parsed \<Rightarrow> nat \<Rightarrow> event list res" where
  "do_parsed os q n =
     bind (find_symbol [''|''] (buf q) (arg q) (n - 1) 0) (\<lambda>yespipes.
     if yespipes \<and> 2 < n then do_pipes os q n
     else bind (find_symbol [''<'', ''>''] (buf q) (arg q) (n - 1) 0) (\<lambda>yesfile.
          if yesfile then do_redirects q n
          else run_program (buf q) (arg q) [] (\<not> background q)))"

definition do_program :: "os \<Rightarrow> string \<Rightarrow> nat \<Rightarrow> nat option \<Rightarrow> nat \<Rightarrow> event list res" where
  "do_program os b first second remainder1 =
     bind (get_args b first second remainder1) (\<lambda>q. init (inputnum q) (do_parsed os q))"

subsection \<open>A round\<close>

text \<open>`gets (input)`: at the end of the input the buffer keeps the line before.\<close>

definition gets :: "string option \<Rightarrow> shell \<Rightarrow> shell res" where
  "gets line s =
     (case line of None \<Rightarrow> Inr s
      | Some l \<Rightarrow> if length l < limit then Inr (s\<lparr>input := Some l\<rparr>) else Inl Out_of_bounds)"

text \<open>The command in `inputCopy`; the flag says whether the shell goes on.\<close>

definition command :: "os \<Rightarrow> string \<Rightarrow> shell \<Rightarrow> (event list \<times> shell \<times> bool) res" where
  "command os b s =
     (case strtok_r b 0 of (first, b, context) \<Rightarrow>
      case strtok_r b context of (second, b, context) \<Rightarrow>
      deref first (\<lambda>first.
      let name = cstr b first;
          stays = (\<lambda>r. bind r (\<lambda>ev. Inr (ev, s, True)))
      in
      if name = ''cd'' then stays (do_cd os b first second)
      else if name = ''pwd'' then stays (do_pwd os b first s)
      else if name = ''mkdir'' then stays (do_mkdir os b first second)
      else if name = ''rmdir'' then stays (do_rmdir os b first second)
      else if name = ''ls'' then stays (do_ls os b first second s)
      else if name = ''cp'' then
        (case strtok_r b context of (third, b, context) \<Rightarrow>
         Inr ([], s\<lparr>files := do_cp os (map_option (cstr b) second) (map_option (cstr b) third) (files s)\<rparr>, True))
      else if name = ''exit'' then
        bind (log_word os b (Some first) ''\<newline>'') (\<lambda>ev. Inr (ev @ [Exited], s, False))
      else stays (do_program os b first second context)))"

definition shell_round :: "os \<Rightarrow> string option \<Rightarrow> shell \<Rightarrow> (event list \<times> shell \<times> bool) res" where
  "shell_round os line s =
     (let s = (case getcwd os of None \<Rightarrow> s | Some d \<Rightarrow> s\<lparr>curwd := Some d\<rparr>) in
      bind (gets line s) (\<lambda>s.
      init (input s) (\<lambda>l.
      let inputCopy = cstr l 0 @ [NUL] in
      bind (command os inputCopy s) (\<lambda>(ev, r). Inr (Prompt (getcwd os) # ev, r)))))"

text \<open>The endless loop, on the lines typed, up to `exit` or the end of the list.\<close>

fun session :: "(os \<times> string option) list \<Rightarrow> shell \<Rightarrow> (event list \<times> shell) res" where
  "session [] s = Inr ([], s)"
| "session ((os, line) # rest) s =
     bind (shell_round os line s) (\<lambda>(ev, s, go).
     if go then bind (session rest s) (\<lambda>(ev', s). Inr (ev @ ev', s)) else Inr (ev, s))"

subsection \<open>\<open>run.c\<close>\<close>

text \<open>`fork` returns `f`: the child becomes the shell, the parent waits and exits.\<close>

datatype run_event = Exec string | Wait_child | Exit int

definition run_main :: "int \<Rightarrow> run_event list" where
  "run_main f = (if f = 0 then [Exec ''./shell''] else [Wait_child, Exit 0])"

end
