(* ===== verification/Shell_Args.thy ===== *)
theory Shell_Args
  imports Shell
begin

text \<open>
  How the shell's array `arg` relates to the words of the line: `args_ok b save a ws` says that the first cells
  of `a` point to the strings `ws`, all of which end before the offset `save` where `strtok_r` goes on.
\<close>

definition args_ok :: "string \<Rightarrow> nat \<Rightarrow> cell list \<Rightarrow> string list \<Rightarrow> bool" where
  "args_ok b save a ws \<longleftrightarrow> length ws \<le> length a \<and>
     (\<forall>i<length ws. \<exists>p. a ! i = Ptr p \<and> cstr b p = ws ! i \<and> p + length (ws ! i) \<le> save)"

lemma args_ok_Nil [simp]: "args_ok b save a []"
  by (simp add: args_ok_def)

text \<open>The next word, where `strtok_r` finds it.\<close>

lemma args_ok_snoc:
  assumes "args_ok b save a ws" and "length ws < length a"
    and p: "save \<le> p" "p < e" "e \<le> r" "cstr (b[e := NUL]) p = w" "e = p + length w"
  shows "args_ok (b[e := NUL]) r (a[length ws := Ptr p]) (ws @ [w])"
  unfolding args_ok_def
proof (intro conjI allI impI)
  fix i
  assume "i < length (ws @ [w])"
  then consider "i < length ws" | "i = length ws" by force
  then show "\<exists>p'. a[length ws := Ptr p] ! i = Ptr p' \<and> cstr (b[e := NUL]) p' = (ws @ [w]) ! i \<and> p' + length ((ws @ [w]) ! i) \<le> r"
  proof cases
    case 1
    with assms(1) obtain q where "a ! i = Ptr q" and q: "cstr b q = ws ! i" "q + length (ws ! i) \<le> save"
      unfolding args_ok_def by blast
    moreover have "cstr (b[e := NUL]) q = ws ! i" using cstr_update [of q b e] q p(1,2) by simp
    ultimately show ?thesis using 1 p(1-3) by (auto simp: nth_append)
  next
    case 2
    with assms(2) p show ?thesis by auto
  qed
qed (use assms(2) in simp)

lemma args_ok_Null:
  assumes "args_ok b save a ws"
  shows "args_ok b save (a[length ws := c]) ws"
  using assms by (auto simp: args_ok_def)

lemma args_ok_cut:
  assumes "args_ok b save a (ws @ vs)" and "\<forall>i<length ws. a' ! i = a ! i" and "length a' = length a"
  shows "args_ok b save a' ws"
proof -
  have "\<exists>p. a' ! i = Ptr p \<and> cstr b p = ws ! i \<and> p + length (ws ! i) \<le> save" if "i < length ws" for i
  proof -
    from that have "i < length (ws @ vs)" by simp
    with assms(1) obtain p where "a ! i = Ptr p \<and> cstr b p = (ws @ vs) ! i \<and> p + length ((ws @ vs) ! i) \<le> save"
      unfolding args_ok_def by blast
    with that assms(2) show ?thesis by (auto simp: nth_append)
  qed
  with assms(1,3) show ?thesis by (auto simp: args_ok_def)
qed

lemma string_at_ok: "args_ok b save a ws \<Longrightarrow> i < length ws \<Longrightarrow> string_at b a i = Inr (ws ! i)"
  unfolding args_ok_def string_at_def by fastforce

lemma string_at_split: "args_ok b save a (us @ w # vs) \<Longrightarrow> string_at b a (length us) = Inr w"
  using string_at_ok [of b save a "us @ w # vs" "length us"] by simp

lemma find_symbol_ok:
  assumes "args_ok b save a (us @ ws @ vs)"
  shows "find_symbol syms b a (length ws) (length us) = Inr (\<exists>w \<in> set ws. w \<in> set syms)"
  using assms
proof (induction ws arbitrary: us)
  case (Cons w ws)
  with Cons.IH [of "us @ [w]"] string_at_split [of b save a us w "ws @ vs"] show ?case by simp
qed simp

lemma argv_of_eq:
  assumes "length ws < length a" and "\<forall>i<length ws. \<exists>p. a ! i = Ptr p \<and> cstr b p = ws ! i" and "a ! length ws = Null"
  shows "argv_of b a = Inr ws"
  using assms
proof (induction ws arbitrary: a)
  case Nil
  then show ?case by (cases a) simp_all
next
  case (Cons w ws)
  then obtain c a' where a: "a = c # a'" by (cases a) simp_all
  from Cons.prems(2) a obtain p where "c = Ptr p" "cstr b p = w" by fastforce
  moreover have "argv_of b a' = Inr ws" using Cons.prems a by (intro Cons.IH) fastforce+
  ultimately show ?case by (simp add: a)
qed

lemma run_program_ok:
  assumes "args_ok b save a ws" and "ws \<noteq> []" and "length ws < length a" and "a ! length ws = Null"
  shows "run_program b a rs wait = Inr [Run ws rs wait]"
proof -
  have "argv_of b a = Inr ws" using assms(1,3,4) by (intro argv_of_eq) (auto simp: args_ok_def)
  with string_at_ok [OF assms(1), of 0] assms(2) show ?thesis by (simp add: run_program_def)
qed

text \<open>An array whose end was never written has no end.\<close>

lemma argv_of_uninit:
  assumes "length ws < length a" and "\<forall>i<length ws. \<exists>p. a ! i = Ptr p" and "a ! length ws = Uninit"
  shows "argv_of b a = Inl Uninitialised"
  using assms
proof (induction ws arbitrary: a)
  case Nil
  then show ?case by (cases a) simp_all
next
  case (Cons w ws)
  then obtain c a' where a: "a = c # a'" by (cases a) simp_all
  from Cons.prems(2) a obtain p where "c = Ptr p" by fastforce
  moreover have "argv_of b a' = Inl Uninitialised" using Cons.prems a by (intro Cons.IH) fastforce+
  ultimately show ?case by (simp add: a)
qed

subsection \<open>The loop that reads the arguments\<close>

lemma last_at_eq:
  assumes "cstr b p = w" and "w \<noteq> []"
  shows "b ! last_at b p = last w"
proof -
  let ?n = "length w - 1"
  have "?n < length w" using assms(2) by (simp add: Suc_le_eq)
  then have n: "?n < length (takeWhile (\<lambda>c. c \<noteq> NUL) (drop p b))" using assms(1) by (simp add: cstr_def)
  have "last w = takeWhile (\<lambda>c. c \<noteq> NUL) (drop p b) ! ?n" using assms by (simp add: last_conv_nth cstr_def)
  also have "\<dots> = drop p b ! ?n" by (rule takeWhile_nth [OF n])
  also have "\<dots> = b ! (p + ?n)" using n by (intro nth_drop) (use takeWhile_cong in \<open>auto dest: less_le_trans [OF _ length_takeWhile_le]\<close>)
  also have "p + ?n = last_at b p" using assms by (cases w) (simp_all add: last_at_def)
  finally show ?thesis by simp
qed

text \<open>
  Without `&` at the end of a word, the loop stores the words that are left and a null pointer.
\<close>

lemma arg_loop_words:
  assumes "args_ok b save a us" and "unread b save t" and "words t = ws" and "\<forall>w \<in> set ws. last w \<noteq> CHR ''&''"
    and "length us + length ws < length a"
  shows "\<exists>b' r a'. arg_loop b save a (length us) =
      Inr \<lparr>buf = b', arg = a', inputnum = Some (length (us @ ws)), background = False\<rparr> \<and>
    args_ok b' r a' (us @ ws) \<and> a' ! length (us @ ws) = Null \<and> length a' = length a"
  using assms
proof (induction ws arbitrary: b save a us t)
  case Nil
  then show ?case
    using strtok_r_none [OF Nil.prems(2,3)] args_ok_Null [OF Nil.prems(1)] by (auto simp: arg_loop.simps)
next
  case (Cons w ws)
  from strtok_r_some [OF Cons.prems(2,3)] obtain p e r c
    where tok: "strtok_r b save = (Some p, b[e := NUL], r)" "save \<le> p" "p < e" "e \<le> r" "cstr (b[e := NUL]) p = w" "e = p + length w"
      and un: "unread (b[e := NUL]) r c" "words c = ws" and "NUL \<notin> set w" and w: "w \<noteq> []" .
  have "length us < length a" using Cons.prems(5) by simp
  have ok: "args_ok (b[e := NUL]) r (a[length us := Ptr p]) (us @ [w])"
    by (rule args_ok_snoc [OF Cons.prems(1) \<open>length us < length a\<close> tok(2-6)])
  have "b[e := NUL] ! last_at (b[e := NUL]) p \<noteq> CHR ''&''"
    using last_at_eq [OF tok(5) w] Cons.prems(4) by simp
  with tok(1) \<open>length us < length a\<close>
  have "arg_loop b save a (length us) = arg_loop (b[e := NUL]) r (a[length us := Ptr p]) (length (us @ [w]))"
    by (simp add: arg_loop.simps [of b])
  with Cons.IH [OF ok un] Cons.prems(4,5) show ?case by simp
qed

text \<open>A word that ends with `&` ends the loop: the cell after it is not written, the rest of the line not read.\<close>

lemma arg_loop_background:
  assumes "args_ok b save a us" and "unread b save t" and "words t = ws @ w # vs" and "\<forall>w \<in> set ws. last w \<noteq> CHR ''&''"
    and "last w = CHR ''&''" and "length us + length ws < length a"
    and "\<forall>i. length us \<le> i \<longrightarrow> i < length a \<longrightarrow> a ! i = Uninit"
  shows "\<exists>b' r a' n. arg_loop b save a (length us) = Inr \<lparr>buf = b', arg = a', inputnum = Some (length (us @ ws)), background = True\<rparr> \<and>
    args_ok b' r a' (us @ ws) \<and> (\<exists>p. a' ! length (us @ ws) = Ptr p) \<and> length a' = length a \<and>
    (\<forall>i. length (us @ ws) < i \<longrightarrow> i < length a \<longrightarrow> a' ! i = Uninit)"
  using assms
proof (induction ws arbitrary: b save a us t)
  case Nil
  from Nil.prems(3) have "words t = w # vs" by simp
  from strtok_r_some [OF Nil.prems(2) this] obtain p e r c
    where tok: "strtok_r b save = (Some p, b[e := NUL], r)" "save \<le> p" "p < e" "e \<le> r" "cstr (b[e := NUL]) p = w" "e = p + length w"
      and "unread (b[e := NUL]) r c" "words c = vs" and nul: "NUL \<notin> set w" and w: "w \<noteq> []" .
  let ?b = "b[e := NUL]"
  have pos: "last_at ?b p = e - 1" using tok(5,6) w by (cases w) (simp_all add: last_at_def)
  have "length us < length a" using Nil.prems(6) by simp
  with tok(1) have "arg_loop b save a (length us) =
      Inr \<lparr>buf = ?b[e - 1 := NUL], arg = a[length us := Ptr p], inputnum = Some (length us), background = True\<rparr>"
    using last_at_eq [OF tok(5) w] Nil.prems(5) pos by (simp add: arg_loop.simps [of b])
  moreover have "args_ok (?b[e - 1 := NUL]) save (a[length us := Ptr p]) us"
  proof -
    have "\<exists>q. a[length us := Ptr p] ! i = Ptr q \<and> cstr (?b[e - 1 := NUL]) q = us ! i \<and> q + length (us ! i) \<le> save"
      if i: "i < length us" for i
    proof -
      from i Nil.prems(1) obtain q where q: "a ! i = Ptr q" "cstr b q = us ! i" "q + length (us ! i) \<le> save"
        unfolding args_ok_def by blast
      then have "cstr ?b q = us ! i" using cstr_update [of q b e] tok(2,3) by simp
      moreover have "cstr (?b[e - 1 := NUL]) q = cstr ?b q"
        using cstr_update [of q ?b "e - 1"] q(3) tok(2,3) calculation by simp
      ultimately show ?thesis using i q by auto
    qed
    with Nil.prems(1) show ?thesis by (simp add: args_ok_def)
  qed
  ultimately show ?case using Nil.prems(6,7) by auto
next
  case (Cons v ws)
  from Cons.prems(3) have "words t = v # ws @ w # vs" by simp
  from strtok_r_some [OF Cons.prems(2) this] obtain p e r c
    where tok: "strtok_r b save = (Some p, b[e := NUL], r)" "save \<le> p" "p < e" "e \<le> r" "cstr (b[e := NUL]) p = v" "e = p + length v"
      and un: "unread (b[e := NUL]) r c" "words c = ws @ w # vs" and "NUL \<notin> set v" and v: "v \<noteq> []" .
  have "length us < length a" using Cons.prems(6) by simp
  have ok: "args_ok (b[e := NUL]) r (a[length us := Ptr p]) (us @ [v])"
    by (rule args_ok_snoc [OF Cons.prems(1) \<open>length us < length a\<close> tok(2-6)])
  have "b[e := NUL] ! last_at (b[e := NUL]) p \<noteq> CHR ''&''"
    using last_at_eq [OF tok(5) v] Cons.prems(4) by simp
  with tok(1) \<open>length us < length a\<close>
  have "arg_loop b save a (length us) = arg_loop (b[e := NUL]) r (a[length us := Ptr p]) (length (us @ [v]))"
    by (simp add: arg_loop.simps [of b])
  with Cons.IH [OF ok un _ Cons.prems(5)] Cons.prems(4,6,7) show ?case by simp
qed

subsection \<open>The words of the whole line\<close>

definition builtins :: "string list" where
  "builtins = [''cd'', ''pwd'', ''mkdir'', ''rmdir'', ''ls'', ''cp'', ''exit'']"

text \<open>The two calls at the start of a round.\<close>

lemma first_word:
  assumes "unread b 0 l" and "words l = [c]"
  obtains p b1 r1 r where "strtok_r b 0 = (Some p, b1, r1)" and "strtok_r b1 r1 = (None, b1, r)"
    and "args_ok b1 r1 [Ptr p] [c]" and "c \<noteq> []"
proof -
  from strtok_r_some [OF assms] obtain p e r t
    where tok: "strtok_r b 0 = (Some p, b[e := NUL], r)" "0 \<le> p" "p < e" "e \<le> r" "cstr (b[e := NUL]) p = c" "e = p + length c"
      and un: "unread (b[e := NUL]) r t" "words t = []" and "NUL \<notin> set c" and "c \<noteq> []" .
  from args_ok_snoc [of b 0 "[Null]" "[]", OF _ _ tok(2-6)] have "args_ok (b[e := NUL]) r [Ptr p] [c]" by simp
  with tok(1) strtok_r_none [OF un] \<open>c \<noteq> []\<close> that show ?thesis by simp
qed

lemma first_words:
  assumes "unread b 0 l" and "words l = c # d # ws"
  obtains p b1 r1 q b2 r t where "strtok_r b 0 = (Some p, b1, r1)" and "strtok_r b1 r1 = (Some q, b2, r)"
    and "args_ok b2 r [Ptr p, Ptr q] [c, d]" and "unread b2 r t" and "words t = ws" and "c \<noteq> []" and "d \<noteq> []"
proof -
  from strtok_r_some [OF assms] obtain p e r t
    where tok: "strtok_r b 0 = (Some p, b[e := NUL], r)" "0 \<le> p" "p < e" "e \<le> r" "cstr (b[e := NUL]) p = c" "e = p + length c"
      and un: "unread (b[e := NUL]) r t" "words t = d # ws" and "NUL \<notin> set c" and c: "c \<noteq> []" .
  from args_ok_snoc [of b 0 "[Null, Null]" "[]", OF _ _ tok(2-6)]
  have ok: "args_ok (b[e := NUL]) r [Ptr p, Null] [c]" by simp
  from strtok_r_some [OF un] obtain p' e' r' t'
    where tok': "strtok_r (b[e := NUL]) r = (Some p', b[e := NUL, e' := NUL], r')" "r \<le> p'" "p' < e'" "e' \<le> r'"
        "cstr (b[e := NUL, e' := NUL]) p' = d" "e' = p' + length d"
      and un': "unread (b[e := NUL, e' := NUL]) r' t'" "words t' = ws" and "NUL \<notin> set d" and "d \<noteq> []" .
  from args_ok_snoc [OF ok _ tok'(2-6)] have "args_ok (b[e := NUL, e' := NUL]) r' [Ptr p, Ptr p'] [c, d]" by simp
  with tok(1) tok'(1) un' c \<open>d \<noteq> []\<close> that show ?thesis by simp
qed

text \<open>What is known of the arguments of a command that is not built in.\<close>

definition got :: "parsed \<Rightarrow> string list \<Rightarrow> bool" where
  "got q ws \<longleftrightarrow> (\<exists>r. args_ok (buf q) r (arg q) ws) \<and> length ws < length (arg q) \<and> arg q ! length ws = Null \<and>
     \<not> background q"

text \<open>The arguments that the shell makes of a line whose command is not built in.\<close>

definition line_args :: "string \<Rightarrow> parsed res" where
  "line_args l =
     (case strtok_r (l @ [NUL]) 0 of (first, b, context) \<Rightarrow>
      case strtok_r b context of (second, b, context) \<Rightarrow>
      deref first (\<lambda>first. get_args b first second context))"

lemma command_program:
  assumes "NUL \<notin> set l" and "words l = ws" and "ws \<noteq> []" and "hd ws \<notin> set builtins" and "length ws < ARGS"
    and amp: "\<forall>w \<in> set ws. last w \<noteq> CHR ''&''"
  obtains q where "line_args l = Inr q" and "got q ws"
    and "command os (l @ [NUL]) s = bind (do_parsed os q (max 2 (length ws))) (\<lambda>ev. Inr (ev, s, True))"
proof -
  have un: "unread (l @ [NUL]) 0 l" using assms(1) by (simp add: unread_def)
  let ?a = "replicate ARGS Uninit"
  consider c where "ws = [c]" | c d vs where "ws = c # d # vs" using assms(3) by (metis list.exhaust)
  then show ?thesis
  proof cases
    case 1
    with assms(2) first_word [OF un] obtain p b r1 r where tok: "strtok_r (l @ [NUL]) 0 = (Some p, b, r1)" "strtok_r b r1 = (None, b, r)"
      and ok: "args_ok b r1 [Ptr p] [c]" and c: "c \<noteq> []" by metis
    from ok have cs: "cstr b p = c" by (simp add: args_ok_def)
    let ?q = "\<lparr>buf = b, arg = ?a[0 := Ptr p, 1 := Null], inputnum = Some 2, background = False\<rparr>"
    from cs last_at_eq [OF cs c] amp 1 have "get_args b p None r = Inr ?q" by (simp add: get_args_def)
    with tok have "line_args l = Inr ?q" by (simp add: line_args_def)
    moreover from \<open>get_args b p None r = Inr ?q\<close> have "command os (l @ [NUL]) s = bind (do_parsed os ?q (max 2 (length ws))) (\<lambda>ev. Inr (ev, s, True))"
      using tok cs assms(4) 1 by (simp add: numeral_2_eq_2 command_def do_program_def init_def builtins_def)
    moreover have "got ?q ws" using ok 1 by (auto simp: got_def args_ok_def ARGS_def)
    ultimately show ?thesis using that by blast
  next
    case 2
    with assms(2) first_words [OF un] obtain p b1 r1 p2 b r t where tok: "strtok_r (l @ [NUL]) 0 = (Some p, b1, r1)" "strtok_r b1 r1 = (Some p2, b, r)"
      and ok: "args_ok b r [Ptr p, Ptr p2] [c, d]" and un': "unread b r t" "words t = vs" and c: "c \<noteq> []" by metis
    from ok have cs: "cstr b p = c" by (auto simp: args_ok_def)
    have "args_ok b r (?a[0 := Ptr p, 1 := Ptr p2]) [c, d]" using ok by (auto simp: args_ok_def ARGS_def less_Suc_eq)
    from arg_loop_words [OF this un'] amp 2 assms(5) obtain b' r' a' where
      args: "arg_loop b r (?a[0 := Ptr p, 1 := Ptr p2]) 2 = Inr \<lparr>buf = b', arg = a', inputnum = Some (length ws), background = False\<rparr>"
        (is "_ = Inr ?q") "args_ok b' r' a' ws" "a' ! length ws = Null" "length a' = ARGS"
      by (auto simp: numeral_2_eq_2)
    from cs last_at_eq [OF cs c] amp 2 args(1) have args': "get_args b p (Some p2) r = Inr ?q" by (simp add: get_args_def)
    with tok have "line_args l = Inr ?q" by (simp add: line_args_def)
    moreover from args' tok cs assms(4) 2
    have "command os (l @ [NUL]) s = bind (do_parsed os ?q (max 2 (length ws))) (\<lambda>ev. Inr (ev, s, True))"
      by (simp add: command_def do_program_def init_def builtins_def)
    moreover have "got ?q ws" using args assms(5) by (auto simp: got_def)
    ultimately show ?thesis using that by blast
  qed
qed

text \<open>The first two words in general; a string that is not empty lies in the buffer.\<close>

lemma cstr_inside: "cstr b p \<noteq> [] \<Longrightarrow> p < length b"
  by (cases "p < length b") (simp_all add: cstr_def)

lemma line_unread: "NUL \<notin> set l \<Longrightarrow> unread (l @ [NUL]) 0 l"
  by (simp add: unread_def)

lemma first_one:
  assumes "NUL \<notin> set l" and "words l = [c]"
  obtains p b r1 r where "strtok_r (l @ [NUL]) 0 = (Some p, b, r1)" and "strtok_r b r1 = (None, b, r)"
    and "cstr b p = c" and "p < length b" and "c \<noteq> []"
proof -
  from first_word [OF line_unread [OF assms(1)] assms(2)] obtain p b r1 r where
    tok: "strtok_r (l @ [NUL]) 0 = (Some p, b, r1)" "strtok_r b r1 = (None, b, r)" and ok: "args_ok b r1 [Ptr p] [c]" and c: "c \<noteq> []" .
  from ok have cs: "cstr b p = c" by (simp add: args_ok_def)
  from that [OF tok cs cstr_inside c] cs c show ?thesis by simp
qed

lemma first_two:
  assumes "NUL \<notin> set l" and "words l = c # d # vs"
  obtains p b1 r1 q b r t where "strtok_r (l @ [NUL]) 0 = (Some p, b1, r1)" and "strtok_r b1 r1 = (Some q, b, r)"
    and "cstr b p = c" and "p < length b" and "c \<noteq> []" and "cstr b q = d" and "q < length b"
    and "args_ok b r [Ptr p, Ptr q] [c, d]" and "unread b r t" and "words t = vs"
proof -
  from first_words [OF line_unread [OF assms(1)] assms(2)] obtain p b1 r1 q b r t where
    tok: "strtok_r (l @ [NUL]) 0 = (Some p, b1, r1)" "strtok_r b1 r1 = (Some q, b, r)" and ok: "args_ok b r [Ptr p, Ptr q] [c, d]"
    and un: "unread b r t" "words t = vs" and ne: "c \<noteq> []" "d \<noteq> []" .
  from ok have cs: "cstr b p = c" "cstr b q = d" by (auto simp: args_ok_def)
  from that [OF tok cs(1) _ ne(1) cs(2) _ ok un] cstr_inside [of b p] cstr_inside [of b q] cs ne show ?thesis by simp
qed

lemma first_any:
  assumes "NUL \<notin> set l" and "words l = c # ws"
  obtains p b1 r1 second b r where "strtok_r (l @ [NUL]) 0 = (Some p, b1, r1)" and "strtok_r b1 r1 = (second, b, r)"
    and "cstr b p = c" and "p < length b" and "c \<noteq> []"
proof (cases ws)
  case Nil
  with first_one [OF assms(1)] assms(2) that show ?thesis by metis
next
  case (Cons d vs)
  with first_two [OF assms(1)] assms(2) that show ?thesis by metis
qed

end
