(* ===== verification/Shell_Main.thy ===== *)
theory Shell_Main
  imports Shell_Args
begin

text \<open>
  The properties of the shell: what a line of words without `&` runs, with and without redirection, the built-in
  commands, and the lines on which the shell itself fails.
\<close>

subsection \<open>What the parsed arguments run\<close>

text \<open>The first cells of the argument array are the words `ws`.\<close>

definition read_in :: "parsed \<Rightarrow> string list \<Rightarrow> bool" where
  "read_in q ws \<longleftrightarrow> (\<exists>r. args_ok (buf q) r (arg q) ws) \<and> length ws < length (arg q)"

lemma got_read_in: "got q ws \<Longrightarrow> read_in q ws"
  by (auto simp: got_def read_in_def)

lemma got_string: "read_in q ws \<Longrightarrow> i < length ws \<Longrightarrow> string_at (buf q) (arg q) i = Inr (ws ! i)"
  by (auto simp: read_in_def intro: string_at_ok)

lemma got_find:
  assumes "read_in q ws" and "ws \<noteq> []"
  shows "find_symbol syms (buf q) (arg q) (max 2 (length ws) - 1) 0 =
    Inr (\<exists>w \<in> set (take (max 2 (length ws) - 1) ws). w \<in> set syms)"
proof -
  let ?m = "max 2 (length ws) - 1"
  have "length (take ?m ws) = ?m" using assms(2) by (cases ws) auto
  moreover obtain r where "args_ok (buf q) r (arg q) ([] @ take ?m ws @ drop ?m ws)"
    using assms(1) by (auto simp: read_in_def)
  ultimately show ?thesis using find_symbol_ok [of "buf q" _ "arg q" "[]" "take ?m ws" "drop ?m ws"] by simp
qed

lemma length_cleared [simp]: "length (foldr (\<lambda>i a. a[i := Null]) is a) = length a"
  by (induction "is") simp_all

lemma nth_cleared:
  "j < length a \<Longrightarrow> foldr (\<lambda>i a. a[i := Null]) is a ! j = (if j \<in> set is then Null else a ! j)"
proof (induction "is")
  case (Cons i "is")
  then show ?case by (cases "i = j") simp_all
qed simp

lemma run_cleared:
  assumes "read_in q (cmd @ tail)" and "cmd \<noteq> []" and "tail \<noteq> []"
  shows "run_program (buf q) (clear (length (cmd @ tail)) (length tail) (arg q)) rs w = Inr [Run cmd rs w]"
proof -
  let ?a = "clear (length (cmd @ tail)) (length tail) (arg q)"
  from assms(1) obtain r where ok: "args_ok (buf q) r (arg q) (cmd @ tail)" and len: "length (cmd @ tail) < length (arg q)"
    by (auto simp: read_in_def)
  have "args_ok (buf q) r ?a cmd"
    using len by (intro args_ok_cut [OF ok]) (auto simp: clear_def nth_cleared)
  moreover have "?a ! length cmd = Null" using assms(3) len by (auto simp: clear_def nth_cleared)
  ultimately show ?thesis using assms(2) len by (intro run_program_ok) (auto simp: clear_def nth_cleared)
qed

lemma do_parsed_plain:
  assumes "got q ws" and "ws \<noteq> []" and "set ws \<inter> {''|'', ''<'', ''>''} = {}"
  shows "do_parsed os q (max 2 (length ws)) = Inr [Run ws [] True]"
proof -
  let ?m = "max 2 (length ws) - 1"
  have "set (take ?m ws) \<subseteq> set ws" by (rule set_take_subset)
  with assms(3) have "\<not> (\<exists>w \<in> set (take ?m ws). w \<in> set [''|''])" "\<not> (\<exists>w \<in> set (take ?m ws). w \<in> set [''<'', ''>''])"
    by auto
  moreover have "run_program (buf q) (arg q) [] True = Inr [Run ws [] True]"
    using assms(1,2) by (auto simp: got_def intro: run_program_ok)
  ultimately show ?thesis using got_find [OF got_read_in [OF assms(1)] assms(2)] assms(1) by (simp add: do_parsed_def got_def)
qed

lemma do_parsed_redirects:
  assumes got: "read_in q ws" and "3 \<le> length ws" and "''|'' \<notin> set (butlast ws)" and "\<exists>w \<in> set (butlast ws). w \<in> {''<'', ''>''}"
  shows "do_parsed os q (max 2 (length ws)) = do_redirects q (length ws)"
proof -
  have "take (max 2 (length ws) - 1) ws = butlast ws" using assms(2) by (simp add: butlast_conv_take)
  moreover have "ws \<noteq> []" "max 2 (length ws) = length ws" using assms(2) by auto
  ultimately show ?thesis using got_find [OF got] assms(3,4) by (auto simp: do_parsed_def)
qed

lemma do_redirects_one:
  assumes got: "read_in q (cmd @ [sb, f])" and "cmd \<noteq> []" and cmd: "set cmd \<inter> {''|'', ''<'', ''>''} = {}" and sb: "sb \<in> {''<'', ''>''}"
  shows "do_parsed os q (max 2 (length (cmd @ [sb, f]))) =
    Inr (if length cmd = 2 then [] else [Run cmd [if sb = ''>'' then Out f else In f] True])"
proof -
  let ?ws = "cmd @ [sb, f]" and ?n = "length cmd + 2"
  have len: "length cmd \<ge> 1" using assms(2) by (cases cmd) simp_all
  have "do_parsed os q (max 2 (length ?ws)) = do_redirects q (length ?ws)"
    using got cmd sb len by (intro do_parsed_redirects) (auto simp: butlast_append)
  moreover have at: "string_at (buf q) (arg q) (?n - 2) = Inr sb" "string_at (buf q) (arg q) (?n - 1) = Inr f"
    using got_string [OF got, of "length cmd"] got_string [OF got, of "length cmd + 1"] by (simp_all add: nth_append)
  moreover have "string_at (buf q) (arg q) (?n - 4) = Inr (cmd ! (?n - 4))" "cmd ! (?n - 4) \<notin> {''<'', ''>''}" if "4 \<le> ?n"
  proof -
    have i: "?n - 4 < length cmd" using that by simp
    with got_string [OF got, of "?n - 4"] show "string_at (buf q) (arg q) (?n - 4) = Inr (cmd ! (?n - 4))"
      by (simp add: nth_append)
    from nth_mem [OF i] cmd show "cmd ! (?n - 4) \<notin> {''<'', ''>''}" by auto
  qed
  moreover have "run_program (buf q) (clear ?n 2 (arg q)) rs w = Inr [Run cmd rs w]" for rs w
    using run_cleared [OF got assms(2)] by (simp add: numeral_2_eq_2)
  ultimately show ?thesis using sb len by (cases "?n < 4") (auto simp: do_redirects_def)
qed

lemma do_redirects_both:
  assumes got: "read_in q (cmd @ [sb, g, sb', f])" and "cmd \<noteq> []" and cmd: "set (g # cmd) \<inter> {''|'', ''<'', ''>''} = {}"
    and sb: "(sb, sb') = (''<'', ''>'') \<or> (sb, sb') = (''>'', ''<'')"
  shows "do_parsed os q (max 2 (length (cmd @ [sb, g, sb', f]))) =
    Inr [Run cmd (if sb = ''<'' then [In g, Out f] else [In f, Out f]) True]"
proof -
  let ?ws = "cmd @ [sb, g, sb', f]"
  define n where "n = length ?ws"
  have "do_parsed os q (max 2 (length ?ws)) = do_redirects q n"
    using got cmd sb assms(2) unfolding n_def by (intro do_parsed_redirects) (auto simp: butlast_append Suc_le_eq)
  moreover have at: "string_at (buf q) (arg q) (n - 4) = Inr sb" "string_at (buf q) (arg q) (n - 3) = Inr g"
      "string_at (buf q) (arg q) (n - 2) = Inr sb'" "string_at (buf q) (arg q) (n - 1) = Inr f"
    using got_string [OF got, of "length cmd"] got_string [OF got, of "length cmd + 1"]
      got_string [OF got, of "length cmd + 2"] got_string [OF got, of "length cmd + 3"] by (simp_all add: n_def nth_append eval_nat_numeral)
  moreover have "4 < n" using assms(2) by (simp add: n_def)
  moreover have "run_program (buf q) (clear n 4 (arg q)) rs w = Inr [Run cmd rs w]" for rs w
    using run_cleared [OF got assms(2)] by (simp add: n_def eval_nat_numeral)
  ultimately show ?thesis using sb by (auto simp: do_redirects_def)
qed

subsection \<open>Lines on which the shell fails\<close>









subsection \<open>Built-in commands\<close>

lemma log_ok:
  assumes "log_opens os" and "8 \<le> length (beyond os)" and "p < length b" and "length sep = 1"
  obtains t where "log_word os b (Some p) sep = Inr [Logged t]" and "length t = 9"
proof -
  from assms have "length (take 8 (drop p (b @ beyond os)) @ sep) = 9" by simp
  moreover have "log_word os b (Some p) sep = Inr [Logged (take 8 (drop p (b @ beyond os)) @ sep)]"
    using assms by (simp add: log_word_def)
  ultimately show ?thesis using that by blast
qed

text \<open>The first word of a command, alone or in general, and its entry in the log.\<close>

lemma one_logged:
  assumes "log_opens os" and "8 \<le> length (beyond os)" and "NUL \<notin> set l" and "words l = [c]"
  shows "\<exists>p b r1 r t. strtok_r (l @ [NUL]) 0 = (Some p, b, r1) \<and> strtok_r b r1 = (None, b, r) \<and>
    cstr b p = c \<and> log_word os b (Some p) ''\<newline>'' = Inr [Logged t] \<and> length t = 9"
proof -
  from first_one [OF assms(3,4)] obtain p b r1 r where tok: "strtok_r (l @ [NUL]) 0 = (Some p, b, r1)" "strtok_r b r1 = (None, b, r)"
    "cstr b p = c" and len: "p < length b" .
  obtain t where "log_word os b (Some p) ''\<newline>'' = Inr [Logged t]" "length t = 9" by (rule log_ok [OF assms(1,2) len]) auto
  with tok show ?thesis by blast
qed

lemma any_logged:
  assumes "log_opens os" and "8 \<le> length (beyond os)" and "NUL \<notin> set l" and "words l = c # ws"
  shows "\<exists>p b1 r1 second b r t. strtok_r (l @ [NUL]) 0 = (Some p, b1, r1) \<and> strtok_r b1 r1 = (second, b, r) \<and>
    cstr b p = c \<and> log_word os b (Some p) ''\<newline>'' = Inr [Logged t] \<and> length t = 9"
proof -
  from first_any [OF assms(3,4)] obtain p b1 r1 second b r where tok: "strtok_r (l @ [NUL]) 0 = (Some p, b1, r1)"
    "strtok_r b1 r1 = (second, b, r)" "cstr b p = c" and len: "p < length b" .
  obtain t where "log_word os b (Some p) ''\<newline>'' = Inr [Logged t]" "length t = 9" by (rule log_ok [OF assms(1,2) len]) auto
  with tok show ?thesis by blast
qed

text \<open>A command with an argument, its two words and their entries in the log.\<close>

lemma two_logged:
  assumes "log_opens os" and "8 \<le> length (beyond os)" and "NUL \<notin> set l" and "words l = c # d # ws"
    and "length sep = 1" and "length sep' = 1"
  shows "\<exists>p b1 r1 q b r t u. strtok_r (l @ [NUL]) 0 = (Some p, b1, r1) \<and> strtok_r b1 r1 = (Some q, b, r) \<and>
    cstr b p = c \<and> cstr b q = d \<and> log_word os b (Some p) sep = Inr [Logged t] \<and> length t = 9 \<and>
    log_word os b (Some q) sep' = Inr [Logged u] \<and> length u = 9"
proof -
  from first_two [OF assms(3,4)] obtain p b1 r1 q b r t where tok: "strtok_r (l @ [NUL]) 0 = (Some p, b1, r1)"
    "strtok_r b1 r1 = (Some q, b, r)" "cstr b p = c" "cstr b q = d" and len: "p < length b" "q < length b" by metis
  obtain t where t: "log_word os b (Some p) sep = Inr [Logged t]" "length t = 9"
    by (rule log_ok [OF assms(1,2) len(1) assms(5)])
  obtain u where u: "log_word os b (Some q) sep' = Inr [Logged u]" "length u = 9"
    by (rule log_ok [OF assms(1,2) len(2) assms(6)])
  from tok t u show ?thesis by blast
qed

lemma piece_all [simp]: "take (min (length xs) n) xs = take n xs"
  by (simp add: min_def)

lemma copy_loop_Nil [simp]: "copy_loop acc k [] = []"
  by (simp add: copy_loop.simps)

lemma copy_loop_full:
  assumes "\<forall>k. 1024 \<le> acc k"
  shows "copy_loop acc k left = left"
proof (induction "length left" arbitrary: k left rule: less_induct)
  case less
  show ?case
  proof (cases "left = []")
    case False
    have "length (take 1024 left) \<le> acc k" using assms order_trans [of "length (take 1024 left)" 1024 "acc k"] by simp
    then have m: "min (acc k) (length (take 1024 left)) = length (take 1024 left)" by (rule min_absorb2)
    from False less [of "drop 1024 left" "Suc k"] show ?thesis
      unfolding copy_loop.simps [of acc k left] Let_def m by simp
  qed (simp add: copy_loop.simps)
qed

text \<open>Whatever the writes accept, what arrives is a beginning of the source.\<close>

lemma copy_loop_prefix: "\<exists>n. copy_loop acc k left = take n left"
proof (induction "length left" arbitrary: k left rule: less_induct)
  case less
  let ?p = "take 1024 left"
  let ?w = "min (acc k) (length ?p)"
  show ?case
  proof (cases "left = [] \<or> ?w \<noteq> length ?p")
    case True
    then have "copy_loop acc k left = take ?w ?p" by (auto simp: copy_loop.simps [of acc k left] Let_def)
    then show ?thesis by (metis take_take)
  next
    case False
    with less [of "drop 1024 left" "Suc k"] obtain n where "copy_loop acc (Suc k) (drop 1024 left) = take n (drop 1024 left)" by auto
    with False have "copy_loop acc k left = ?p @ take n (drop 1024 left)"
      by (simp add: copy_loop.simps [of acc k left] Let_def)
    also have "\<dots> = take (1024 + n) left" by (simp only: take_add)
    finally show ?thesis ..
  qed
qed

subsection \<open>A line typed\<close>

text \<open>The shell's state when the line `l` has been read.\<close>

definition typed :: "os \<Rightarrow> string \<Rightarrow> shell \<Rightarrow> shell" where
  "typed os l s = (case getcwd os of None \<Rightarrow> s | Some d \<Rightarrow> s\<lparr>curwd := Some d\<rparr>)\<lparr>input := Some l\<rparr>"

text \<open>A line that fits the buffer and holds no NUL.\<close>

definition line_ok :: "string \<Rightarrow> bool" where
  "line_ok l \<longleftrightarrow> length l < limit \<and> NUL \<notin> set l"

lemma shell_round_line:
  assumes "line_ok l"
  shows "shell_round os (Some l) s =
    bind (command os (l @ [NUL]) (typed os l s)) (\<lambda>(ev, r). Inr (Prompt (getcwd os) # ev, r))"
proof -
  have "cstr l 0 = l" using assms takeWhile_eq_all_conv [of "\<lambda>c. c \<noteq> NUL" l] by (auto simp: cstr_def line_ok_def)
  with assms show ?thesis by (simp add: shell_round_def gets_def typed_def init_def line_ok_def split: option.splits)
qed

text \<open>A line whose command is not built in, without `&` at the end of a word and with fewer than 50 words.\<close>

definition program_line :: "string \<Rightarrow> bool" where
  "program_line l \<longleftrightarrow> line_ok l \<and> words l \<noteq> [] \<and> hd (words l) \<notin> set builtins \<and> length (words l) < ARGS \<and>
     (\<forall>w \<in> set (words l). last w \<noteq> CHR ''&'')"

lemma program_line_runs:
  assumes "program_line l"
  obtains q where "line_args l = Inr q" and "got q (words l)" and "shell_round os (Some l) s =
    bind (do_parsed os q (max 2 (length (words l)))) (\<lambda>ev. Inr (Prompt (getcwd os) # ev, typed os l s, True))"
proof -
  from assms have l: "NUL \<notin> set l" "line_ok l" by (simp_all add: program_line_def line_ok_def)
  from assms command_program [OF l(1) refl] obtain q where "line_args l = Inr q" "got q (words l)"
    and "command os (l @ [NUL]) (typed os l s) = bind (do_parsed os q (max 2 (length (words l)))) (\<lambda>ev. Inr (ev, typed os l s, True))"
    unfolding program_line_def by blast
  with that shell_round_line [OF l(2)] show ?thesis by (simp add: bind_assoc)
qed

subsection \<open>Sessions\<close>

text \<open>A line that runs one program with its words as they are.\<close>

definition plain_line :: "string \<Rightarrow> bool" where
  "plain_line l \<longleftrightarrow> program_line l \<and> set (words l) \<inter> {''|'', ''<'', ''>''} = {}"

definition ran :: "os \<times> string \<Rightarrow> event list" where
  "ran = (\<lambda>(os, l). [Prompt (getcwd os), Run (words l) [] True])"

definition types :: "(os \<times> string) list \<Rightarrow> shell \<Rightarrow> shell" where
  "types ls s = fold (\<lambda>(os, l). typed os l) ls s"

lemma plain_line_runs: "plain_line l \<Longrightarrow> shell_round os (Some l) s = Inr (ran (os, l), typed os l s, True)"
proof -
  assume l: "plain_line l"
  then have "program_line l" by (simp add: plain_line_def)
  from program_line_runs [OF this] obtain q where "got q (words l)" "shell_round os (Some l) s =
    bind (do_parsed os q (max 2 (length (words l)))) (\<lambda>ev. Inr (Prompt (getcwd os) # ev, typed os l s, True))" by blast
  with do_parsed_plain [of q "words l"] l show ?thesis by (simp add: plain_line_def program_line_def ran_def)
qed

lemma exit_line_ends:
  assumes "line_ok l" and "words l = ''exit'' # ws" and "log_opens os" and "8 \<le> length (beyond os)"
  obtains t where "length t = 9" and "shell_round os (Some l) s = Inr ([Prompt (getcwd os), Logged t, Exited], typed os l s, False)"
proof -
  have "NUL \<notin> set l" using assms(1) by (simp add: line_ok_def)
  from any_logged [OF assms(3,4) this assms(2)] shell_round_line [OF assms(1), of os s] show thesis
    by (auto simp: command_def intro: that)
qed

text \<open>At the end of the input the line before is still in the buffer.\<close>

lemma gets_again: "input s = Some l \<Longrightarrow> line_ok l \<Longrightarrow> shell_round os None s = shell_round os (Some l) s"
  by (cases s) (simp add: shell_round_def gets_def line_ok_def split: option.split)

lemma session_plain:
  "\<forall>(os, l) \<in> set ls. plain_line l \<Longrightarrow> session (map (\<lambda>(os, l). (os, Some l)) ls @ oss) s =
    bind (session oss (types ls s)) (\<lambda>(ev, s). Inr (concat (map ran ls) @ ev, s))"
proof (induction ls arbitrary: s)
  case Nil
  then show ?case by (cases "session oss s") (simp_all add: types_def split_def)
next
  case (Cons x ls)
  obtain os l where x: "x = (os, l)" by (cases x)
  with Cons.prems plain_line_runs [of l os s] Cons.IH [of "typed os l s"] show ?case
    by (simp add: types_def bind_assoc split_def)
qed

lemma session_repeats:
  "plain_line l \<Longrightarrow> input s = Some l \<Longrightarrow>
    session (map (\<lambda>os. (os, None)) oss) s =
      Inr (concat (map (\<lambda>os. ran (os, l)) oss), types (map (\<lambda>os. (os, l)) oss) s)"
proof (induction oss arbitrary: s)
  case (Cons os oss)
  have "line_ok l" using Cons.prems by (simp add: plain_line_def program_line_def)
  with Cons gets_again [of s l os] plain_line_runs [of l os s] have "shell_round os None s = Inr (ran (os, l), typed os l s, True)" by simp
  moreover have "input (typed os l s) = Some l" by (simp add: typed_def split: option.split)
  ultimately show ?case using Cons by (simp add: types_def)
qed (simp add: types_def)

subsection \<open>The properties\<close>

text \<open>C35: what a command that is not built in runs, on a line that fits the buffer and has fewer than 50 words.  A line of words without redirection, pipeline or `&` runs exactly one program, whose
  argument vector is the list of the words of the line as the specification `words` splits it, and the shell waits for it and goes on.
  With one file after `>` or `<` that program's output or input is redirected, except that a line of exactly four words, a
  command and one argument, runs nothing at all.  With two files, `< g > f` redirects both, but `> g < f` takes `f` for the input and for
  the output.\<close>

theorem shell_runs:
  assumes "program_line l" and "words l = cmd @ tail" and "cmd \<noteq> []" and "set cmd \<inter> {''|'', ''<'', ''>''} = {}"
  shows "(tail = [] \<longrightarrow> shell_round os (Some l) s = Inr ([Prompt (getcwd os), Run (words l) [] True], typed os l s, True)) \<and>
    (tail = [sb, f] \<and> sb \<in> {''<'', ''>''} \<longrightarrow> shell_round os (Some l) s =
      Inr (Prompt (getcwd os) # (if length cmd = 2 then [] else [Run cmd [if sb = ''>'' then Out f else In f] True]), typed os l s, True)) \<and>
    (tail = [''<'', g, ''>'', f] \<and> g \<notin> {''|'', ''<'', ''>''} \<longrightarrow> shell_round os (Some l) s =
      Inr ([Prompt (getcwd os), Run cmd [In g, Out f] True], typed os l s, True)) \<and>
    (tail = [''>'', g, ''<'', f] \<and> g \<notin> {''|'', ''<'', ''>''} \<longrightarrow> shell_round os (Some l) s =
      Inr ([Prompt (getcwd os), Run cmd [In f, Out f] True], typed os l s, True))"
proof -
  from program_line_runs [OF assms(1)] obtain q where got: "got q (cmd @ tail)" and run: "shell_round os (Some l) s =
    bind (do_parsed os q (max 2 (length (cmd @ tail)))) (\<lambda>ev. Inr (Prompt (getcwd os) # ev, typed os l s, True))"
    unfolding assms(2) .
  from got_read_in [OF got] got run show ?thesis
    using do_parsed_plain [of q cmd] do_redirects_one [of q cmd sb f] do_redirects_both [of q cmd "''<''" g "''>''" f]
      do_redirects_both [of q cmd "''>''" g "''<''" f] assms(2-4) by (intro conjI impI) auto
qed

text \<open>C40: the built-in commands `cd`, `pwd`, `mkdir`, `rmdir`, `ls` and `exit` start no program.  When the log file opens, each logs exactly eight bytes
  and a separator per word logged, however long the word is (that many can be read there), and then makes its one call, with the second word as argument where it has one.  `cd` alone goes to
  the fixed directory `/home` and never reports a failure; `cd d`, `mkdir d`, `rmdir d` and `ls` report one and the shell goes on; `ls -l` on a directory that cannot be
  opened closes a null pointer, and `mkdir` or `rmdir` without a name writes one to the log.  `pwd` and `ls` take the directory the prompt has just shown; `ls -l` prints a line for each
  entry that `stat` finds; `ls` with another word does nothing more; only `exit` ends the shell.  When the log file does not open, every one of them uses a null pointer.\<close>

theorem shell_builtins:
  assumes "line_ok l" and "8 \<le> length (beyond os)" and "getcwd os = Some dir"
  shows "(log_opens os \<longrightarrow>
     (words l = [''cd''] \<longrightarrow> (\<exists>t. length t = 9 \<and>
      shell_round os (Some l) s = Inr ([Prompt (Some dir), Logged t, Chdir ''/home''], typed os l s, True))) \<and>
    (words l = ''cd'' # d # ws \<longrightarrow> (\<exists>t. length t = 9 \<and>
      shell_round os (Some l) s = Inr ([Prompt (Some dir), Logged t, Chdir d] @ (if chdir_ok os then [] else [Perror ''Error: '']), typed os l s, True))) \<and>
    (words l = ''pwd'' # ws \<longrightarrow> (\<exists>t. length t = 9 \<and>
      shell_round os (Some l) s = Inr ([Prompt (Some dir), Logged t, Print (dir @ ''\<newline>'')], typed os l s, True))) \<and>
    (words l = ''mkdir'' # d # ws \<longrightarrow> (\<exists>t u. length t = 9 \<and> length u = 9 \<and>
      shell_round os (Some l) s = Inr ([Prompt (Some dir), Logged t, Logged u, Mkdir d] @ (if mkdir_ok os then [] else [Perror ''Error: '']), typed os l s, True))) \<and>
    (words l = ''rmdir'' # d # ws \<longrightarrow> (\<exists>t u. length t = 9 \<and> length u = 9 \<and>
      shell_round os (Some l) s = Inr ([Prompt (Some dir), Logged t, Logged u, Rmdir d] @ (if rmdir_ok os then [] else [Perror ''Error: '']), typed os l s, True))) \<and>
    (words l \<in> {[''mkdir''], [''rmdir'']} \<longrightarrow> shell_round os (Some l) s = Inl Null_deref) \<and>
    (words l = [''ls''] \<longrightarrow> (\<exists>t. length t = 9 \<and>
      shell_round os (Some l) s = Inr ([Prompt (Some dir), Logged t, Opendir dir] @ (case entries os of None \<Rightarrow> [Perror ''Error:'']
        | Some es \<Rightarrow> [Print (concat (map (\<lambda>(name, _). name @ ''\<newline>'') es)), Print ''\<newline>'']), typed os l s, True))) \<and>
    (words l = ''ls'' # ''-l'' # ws \<longrightarrow> (\<exists>t. length t = 9 \<and>
      shell_round os (Some l) s = (case entries os of None \<Rightarrow> Inl Null_deref | Some es \<Rightarrow> Inr ([Prompt (Some dir), Logged t, Opendir dir,
        Print (concat (map (\<lambda>(name, st). case st of None \<Rightarrow> [] | Some st \<Rightarrow> entry_line name st) es))], typed os l s, True)))) \<and>
    (words l = ''ls'' # d # ws \<and> d \<noteq> ''-l'' \<longrightarrow> (\<exists>t. length t = 9 \<and>
      shell_round os (Some l) s = Inr ([Prompt (Some dir), Logged t], typed os l s, True))) \<and>
    (words l = ''exit'' # ws \<longrightarrow> (\<exists>t. length t = 9 \<and>
      shell_round os (Some l) s = Inr ([Prompt (Some dir), Logged t, Exited], typed os l s, False)))) \<and>
   (\<not> log_opens os \<and> words l = c # ws \<and> c \<in> {''cd'', ''pwd'', ''mkdir'', ''rmdir'', ''ls'', ''exit''} \<longrightarrow>
      shell_round os (Some l) s = Inl Null_deref)"
    (is "(_ \<longrightarrow> (_ \<longrightarrow> ?cd) \<and> (_ \<longrightarrow> ?cd2) \<and> (_ \<longrightarrow> ?pwd) \<and> (_ \<longrightarrow> ?mkdir) \<and> (_ \<longrightarrow> ?rmdir) \<and> (_ \<longrightarrow> ?noname) \<and> (_ \<longrightarrow> ?ls) \<and>
      (_ \<longrightarrow> ?long) \<and> (_ \<longrightarrow> ?other) \<and> (_ \<longrightarrow> ?exit)) \<and> (_ \<longrightarrow> ?nolog)")
proof (intro conjI impI)
  from assms(1) have l: "NUL \<notin> set l" by (simp add: line_ok_def)
  have cwd: "curwd (typed os l s) = Some dir" using assms(3) by (simp add: typed_def)
  have long: "list_long es = concat (map (\<lambda>(name, st). case st of None \<Rightarrow> [] | Some st \<Rightarrow> entry_line name st) es)" for es
    by (induction es rule: list_long.induct) simp_all
  note run = shell_round_line [OF assms(1), of os s] assms(3)
    and one = one_logged [OF _ assms(2) l] and any = any_logged [OF _ assms(2) l] and two = two_logged [OF _ assms(2) l]
  show ?cd if "log_opens os" "words l = [''cd'']" using one [OF that] run by (auto simp: command_def do_cd_def)
  show ?cd2 if "log_opens os" "words l = ''cd'' # d # ws"
    using two [OF that, of "''\<newline>''" "''\<newline>''"] run by (auto simp: command_def do_cd_def)
  show ?pwd if "log_opens os" "words l = ''pwd'' # ws"
    using any [OF that] run cwd by (auto simp: command_def do_pwd_def init_def)
  show ?mkdir if "log_opens os" "words l = ''mkdir'' # d # ws"
    using two [OF that, of "[CHR 0x09]" "''\<newline>''"] run by (auto simp: command_def do_mkdir_def)
  show ?rmdir if "log_opens os" "words l = ''rmdir'' # d # ws"
    using two [OF that, of "[CHR 0x09]" "''\<newline>''"] run by (auto simp: command_def do_rmdir_def)
  show ?noname if log: "log_opens os" and "words l \<in> {[''mkdir''], [''rmdir'']}"
  proof -
    from that(2) obtain c where c: "words l = [c]" "c \<in> {''mkdir'', ''rmdir''}" by auto
    from first_one [OF l c(1)] obtain p b r1 r where tok: "strtok_r (l @ [NUL]) 0 = (Some p, b, r1)" "strtok_r b r1 = (None, b, r)"
      "cstr b p = c" and len: "p < length b" .
    obtain t where "log_word os b (Some p) [CHR 0x09] = Inr [Logged t]" by (rule log_ok [OF log assms(2) len]) auto
    moreover have "log_word os b None ''\<newline>'' = Inl Null_deref" using log by (simp add: log_word_def)
    ultimately show ?thesis using tok c(2) run by (auto simp: command_def do_mkdir_def do_rmdir_def)
  qed
  show ?ls if "log_opens os" "words l = [''ls'']"
    using one [OF that] run cwd by (auto simp: command_def do_ls_def init_def)
  show ?long if "log_opens os" "words l = ''ls'' # ''-l'' # ws"
    using two [OF that, of "''\<newline>''" "''\<newline>''"] run cwd by (auto simp: command_def do_ls_def init_def long split: option.split)
  show ?other if "log_opens os" "words l = ''ls'' # d # ws \<and> d \<noteq> ''-l''"
    using two [OF that(1) that(2) [THEN conjunct1], of "''\<newline>''" "''\<newline>''"] that(2) run by (auto simp: command_def do_ls_def)
  show ?exit if "log_opens os" "words l = ''exit'' # ws" using any [OF that] run by (auto simp: command_def)
  show ?nolog if "\<not> log_opens os \<and> words l = c # ws \<and> c \<in> {''cd'', ''pwd'', ''mkdir'', ''rmdir'', ''ls'', ''exit''}"
  proof -
    from that have c: "words l = c # ws" and "log_word os b (Some p) sep = Inl Null_deref" for b p sep by (simp_all add: log_word_def)
    moreover from first_any [OF l c] obtain p b1 r1 second b r where "strtok_r (l @ [NUL]) 0 = (Some p, b1, r1)"
      "strtok_r b1 r1 = (second, b, r)" "cstr b p = c" .
    ultimately show ?thesis using that run
      by (auto simp: command_def do_cd_def do_pwd_def do_mkdir_def do_rmdir_def do_ls_def)
  qed
qed

text \<open>C39: `cp a b` copies: when both files can be opened and every write is complete the destination ends equal to the source
  and no other file changes; with short writes it ends as a beginning of the source.  Its time stamps are not compared, and `cp a a` empties the
  file.\<close>

theorem shell_cp:
  assumes "line_ok l" and "words l = ''cp'' # a # b # ws" and "files s a = Some content" and "may_read os a" and "may_write os b"
  shows "\<exists>fs. shell_round os (Some l) s = Inr ([Prompt (getcwd os)], typed os l s\<lparr>files := fs\<rparr>, True) \<and>
    (\<forall>f. f \<noteq> b \<longrightarrow> fs f = files s f) \<and>
    (if a = b then fs b = Some []
     else (\<exists>n. fs b = Some (take n content)) \<and> ((\<forall>k. 1024 \<le> accepts os k) \<longrightarrow> fs b = Some content))"
proof -
  from assms(1) have l: "NUL \<notin> set l" by (simp add: line_ok_def)
  from first_two [OF l assms(2)] obtain p b1 r1 q b2 r t where tok: "strtok_r (l @ [NUL]) 0 = (Some p, b1, r1)" "strtok_r b1 r1 = (Some q, b2, r)"
    and cs: "cstr b2 p = ''cp''" "cstr b2 q = a" and ok: "args_ok b2 r [Ptr p, Ptr q] [''cp'', a]" and un: "unread b2 r t" "words t = b # ws" by metis
  from strtok_r_some [OF un] obtain p3 e r3 c where tok3: "strtok_r b2 r = (Some p3, b2[e := NUL], r3)" "r \<le> p3" "p3 < e" "e \<le> r3"
    "cstr (b2[e := NUL]) p3 = b" "e = p3 + length b" by metis
  from ok have "q + length a \<le> r" by (auto simp: args_ok_def)
  with tok3(2,3) cs(2) cstr_update [of q b2 e] have "cstr (b2[e := NUL]) q = a" by simp
  with tok tok3(1,5) cs have "command os (l @ [NUL]) s' = Inr ([], s'\<lparr>files := do_cp os (Some a) (Some b) (files s')\<rparr>, True)" for s'
    by (simp add: command_def)
  with shell_round_line [OF assms(1), of os s]
  have "shell_round os (Some l) s = Inr ([Prompt (getcwd os)], typed os l s\<lparr>files := do_cp os (Some a) (Some b) (files s)\<rparr>, True)"
    by (simp add: typed_def split: option.splits)
  moreover have "do_cp os (Some a) (Some b) (files s) = (files s)(b \<mapsto> if a = b then [] else copy_loop (accepts os) 0 content)"
    using assms(3-5) by (auto simp: do_cp_def fun_eq_iff)
  moreover obtain n where "copy_loop (accepts os) 0 content = take n content"
    using copy_loop_prefix [of "accepts os" 0 content] ..
  ultimately show ?thesis using copy_loop_full [of "accepts os" 0 content]
    by (intro exI [of _ "(files s)(b \<mapsto> if a = b then [] else copy_loop (accepts os) 0 content)"]) auto
qed


text \<open>C36: a session: lines that run programs, then `exit`, run exactly these programs, in order, one prompt before each, then log the word and end; the
  lines after it are not read.  Without `exit`, at the end of the input, the shell runs its last line again in every round.\<close>

theorem shell_session:
  assumes "\<forall>(os, l) \<in> set ls. plain_line l" and "plain_line l"
    and "line_ok e" and "words e = ''exit'' # ws" and "log_opens os" and "8 \<le> length (beyond os)"
  shows "(\<exists>t. length t = 9 \<and> session (map (\<lambda>(os, l). (os, Some l)) ls @ (os, Some e) # rest) s =
      Inr (concat (map (\<lambda>(os, l). [Prompt (getcwd os), Run (words l) [] True]) ls) @ [Prompt (getcwd os), Logged t, Exited], typed os e (types ls s))) \<and>
    session (map (\<lambda>(os, l). (os, Some l)) (ls @ [(os, l)]) @ map (\<lambda>os. (os, None)) oss) s =
      Inr (concat (map (\<lambda>(os, l). [Prompt (getcwd os), Run (words l) [] True]) (ls @ [(os, l)] @ map (\<lambda>os. (os, l)) oss)),
        types (ls @ [(os, l)] @ map (\<lambda>os. (os, l)) oss) s)"
proof
  from exit_line_ends [OF assms(3-6), of "types ls s"] obtain t where "length t = 9"
    "shell_round os (Some e) (types ls s) = Inr ([Prompt (getcwd os), Logged t, Exited], typed os e (types ls s), False)" .
  with session_plain [OF assms(1)] show "\<exists>t. length t = 9 \<and> session (map (\<lambda>(os, l). (os, Some l)) ls @ (os, Some e) # rest) s =
      Inr (concat (map (\<lambda>(os, l). [Prompt (getcwd os), Run (words l) [] True]) ls) @ [Prompt (getcwd os), Logged t, Exited], typed os e (types ls s))"
    by (intro exI [of _ t]) (simp add: ran_def)
next
  have all: "\<forall>(os, l) \<in> set (ls @ [(os, l)]). plain_line l" using assms(1,2) by auto
  have last: "input (types (ls @ [(os, l)]) s) = Some l" by (simp add: types_def typed_def split: option.split)
  show "session (map (\<lambda>(os, l). (os, Some l)) (ls @ [(os, l)]) @ map (\<lambda>os. (os, None)) oss) s =
      Inr (concat (map (\<lambda>(os, l). [Prompt (getcwd os), Run (words l) [] True]) (ls @ [(os, l)] @ map (\<lambda>os. (os, l)) oss)),
        types (ls @ [(os, l)] @ map (\<lambda>os. (os, l)) oss) s)"
    unfolding session_plain [OF all] session_repeats [OF assms(2) last] by (simp add: ran_def types_def comp_def)
qed

subsection \<open>Witnesses\<close>

definition demo_os :: os where
  "demo_os = \<lparr>getcwd = Some ''/home'', log_opens = True, chdir_ok = True, mkdir_ok = True, rmdir_ok = False,
     entries = None, may_read = (\<lambda>_. True), may_write = (\<lambda>_. True), accepts = (\<lambda>_. 1024), beyond = replicate 8 (CHR ''x''),
     pipe_ok = (\<lambda>_. True), fork_pid = (\<lambda>_. 2), row_address = (\<lambda>n. 4096 + 8 * int n)\<rparr>"

definition demo_shell :: shell where
  "demo_shell = \<lparr>input = None, curwd = None, files = [''a.c'' \<mapsto> ''int x;'']\<rparr>"

lemmas line_defs = program_line_def line_ok_def limit_def builtins_def ARGS_def

lemma demo_lines:
  "words ''gcc -o  x a.c'' = [''gcc'', ''-o'', ''x'', ''a.c'']" "program_line ''gcc -o  x a.c''"
  "words ''sort -n > f'' = [''sort'', ''-n''] @ [''>'', ''f'']" "program_line ''sort -n > f''"
  "words ''mkdir d'' = [''mkdir'', ''d'']" "line_ok ''mkdir d''"
  "words ''cp a.c b.c'' = [''cp'', ''a.c'', ''b.c'']" "line_ok ''cp a.c b.c''"
  "words ''ls2 | wc'' = [''ls2'', ''|'', ''wc'']" "program_line ''ls2 | wc''"
  by (simp_all add: words.simps line_defs)

lemma shell_runs_witness:
  "shell_round demo_os (Some ''gcc -o  x a.c'') demo_shell =
    Inr ([Prompt (Some ''/home''), Run [''gcc'', ''-o'', ''x'', ''a.c''] [] True], typed demo_os ''gcc -o  x a.c'' demo_shell, True) \<and>
   shell_round demo_os (Some ''sort -n > f'') demo_shell = Inr ([Prompt (Some ''/home'')], typed demo_os ''sort -n > f'' demo_shell, True)"
proof
  show "shell_round demo_os (Some ''gcc -o  x a.c'') demo_shell =
    Inr ([Prompt (Some ''/home''), Run [''gcc'', ''-o'', ''x'', ''a.c''] [] True], typed demo_os ''gcc -o  x a.c'' demo_shell, True)"
    using shell_runs [OF demo_lines(2), of "[''gcc'', ''-o'', ''x'', ''a.c'']" "[]" demo_os demo_shell]
    by (simp add: demo_lines(1)) (simp add: demo_os_def)
  show "shell_round demo_os (Some ''sort -n > f'') demo_shell = Inr ([Prompt (Some ''/home'')], typed demo_os ''sort -n > f'' demo_shell, True)"
    using shell_runs [OF demo_lines(4,3), where sb = "''>''" and f = "''f''" and os = demo_os and s = demo_shell and g = "[]"]
    by (simp add: demo_os_def)
qed

lemma shell_builtins_witness:
  "\<exists>t u. length t = 9 \<and> length u = 9 \<and> shell_round demo_os (Some ''mkdir d'') demo_shell =
    Inr ([Prompt (Some ''/home''), Logged t, Logged u, Mkdir ''d''], typed demo_os ''mkdir d'' demo_shell, True)"
  using shell_builtins [OF demo_lines(6), of demo_os "''/home''" demo_shell "''d''" "[]" "''mkdir''"] by (simp add: demo_lines demo_os_def)

lemma shell_cp_witness:
  "\<exists>fs. shell_round demo_os (Some ''cp a.c b.c'') demo_shell =
      Inr ([Prompt (Some ''/home'')], typed demo_os ''cp a.c b.c'' demo_shell\<lparr>files := fs\<rparr>, True) \<and>
    fs ''b.c'' = Some ''int x;''"
  using shell_cp [OF demo_lines(8,7), of demo_shell "''int x;''" demo_os] by (auto simp: demo_os_def demo_shell_def)

lemma shell_session_witness:
  "\<exists>t. length t = 9 \<and> session [(demo_os, Some ''gcc -o  x a.c''), (demo_os, Some ''exit''), (demo_os, Some ''make'')] demo_shell =
    Inr ([Prompt (Some ''/home''), Run [''gcc'', ''-o'', ''x'', ''a.c''] [] True, Prompt (Some ''/home''), Logged t, Exited],
      typed demo_os ''exit'' (typed demo_os ''gcc -o  x a.c'' demo_shell))"
proof -
  have plain: "plain_line ''gcc -o  x a.c''" using demo_lines(2) by (simp add: plain_line_def demo_lines(1))
  have ex: "words ''exit'' = [''exit'']" "line_ok ''exit''" by (simp_all add: words.simps line_defs)
  have os: "log_opens demo_os" "8 \<le> length (beyond demo_os)" "getcwd demo_os = Some ''/home''" by (simp_all add: demo_os_def)
  from shell_session [OF _ plain ex(2,1) os(1,2), of "[(demo_os, ''gcc -o  x a.c'')]" "[(demo_os, Some ''make'')]" demo_shell "[]"] plain os(3)
  show ?thesis by (simp add: types_def demo_lines(1))
qed


end
