(* ===== verification/Shell_Pipes.thy ===== *)
theory Shell_Pipes
  imports Shell_Main
begin

text \<open>
  Pipelines: how the shell cuts the arguments at the symbols `|` into its table of commands, what the loop over them would run in
  its rounds, and what becomes of the line.
\<close>

subsection \<open>Cutting the arguments\<close>

fun segments :: "string list \<Rightarrow> string list list" where
  "segments [] = [[]]"
| "segments (w # ws) = (if w = ''|'' then [] # segments ws else (w # hd (segments ws)) # tl (segments ws))"

lemma segments_nonempty [simp]: "segments ws \<noteq> []"
  by (cases ws) simp_all

text \<open>The segments hold no `|`, and with `|` between them they are the words again.\<close>

lemma segments_join: "concat (map (\<lambda>g. ''|'' # g) (segments ws)) = ''|'' # ws"
proof (induction ws)
  case (Cons w ws)
  then show ?case by (cases "segments ws") auto
qed simp

lemma segments_plain: "g \<in> set (segments ws) \<Longrightarrow> ''|'' \<notin> set g"
proof (induction ws arbitrary: g)
  case (Cons w ws)
  then show ?case by (cases "segments ws") (auto split: if_splits)
qed simp

text \<open>The table has 20 cells for a command, one of which is for the null pointer, except in the last.\<close>

definition fits :: "string list list \<Rightarrow> bool" where
  "fits gs \<longleftrightarrow> (\<forall>g \<in> set (butlast gs). length g < 20) \<and> length (last gs) \<le> 20"

definition cells :: "string \<Rightarrow> string list \<Rightarrow> cell list \<Rightarrow> bool" where
  "cells b g r \<longleftrightarrow> length r = 20 \<and> (\<forall>j < length g. \<exists>x. r ! j = Ptr x \<and> cstr b x = g ! j)"

definition closed :: "string \<Rightarrow> string list \<Rightarrow> cell list \<Rightarrow> bool" where
  "closed b g r \<longleftrightarrow> cells b g r \<and> length g < 20 \<and> r ! length g = Null"

definition open_end :: "string \<Rightarrow> string list \<Rightarrow> cell list \<Rightarrow> bool" where
  "open_end b g r \<longleftrightarrow> cells b g r \<and> length g \<le> 20 \<and> (\<forall>j. length g \<le> j \<longrightarrow> j < 20 \<longrightarrow> r ! j = Uninit)"

text \<open>The table when the commands `hs` are complete and `g` has been read of the next.\<close>

definition table :: "string \<Rightarrow> string list list \<Rightarrow> string list \<Rightarrow> cell list list \<Rightarrow> bool" where
  "table b hs g p \<longleftrightarrow> length p = 50 \<and> length hs < 50 \<and> (\<forall>k < length hs. closed b (hs ! k) (p ! k)) \<and>
     open_end b g (p ! length hs) \<and> (\<forall>k. length hs < k \<longrightarrow> k < 50 \<longrightarrow> p ! k = replicate 20 Uninit)"

lemma table_start: "table b [] [] (replicate 50 (replicate 20 Uninit))"
  by (simp add: table_def open_end_def cells_def)

lemma table_close:
  assumes "table b hs g p" and "length g < 20" and "length hs + 1 < 50"
  shows "table b (hs @ [g]) [] (p[length hs := (p ! length hs)[length g := Null]])"
proof -
  have "closed b g ((p ! length hs)[length g := Null])"
    using assms(1,2) by (auto simp: table_def closed_def open_end_def cells_def)
  moreover have "open_end b [] (p ! (length hs + 1))"
    using assms(1,3) by (simp add: table_def open_end_def cells_def)
  ultimately show ?thesis using assms(1,3) by (auto simp: table_def nth_append less_Suc_eq)
qed

lemma table_add:
  assumes "table b hs g p" and "length g < 20" and "cstr b x = w"
  shows "table b hs (g @ [w]) (p[length hs := (p ! length hs)[length g := Ptr x]])"
proof -
  have "open_end b (g @ [w]) ((p ! length hs)[length g := Ptr x])"
    using assms by (auto simp: table_def open_end_def cells_def nth_append nth_list_update)
  with assms(1) show ?thesis by (auto simp: table_def)
qed

lemma too_long: "20 \<le> length g \<Longrightarrow> \<not> fits (hs @ g # segments us)"
  by (auto simp: fits_def butlast_append)

lemma too_long': "20 \<le> length g \<Longrightarrow> \<not> fits (hs @ (g @ w # us) # gs)"
  by (cases gs) (auto simp: fits_def butlast_append)

text \<open>The result of cutting: the number of pipes and the table, or an overrun.\<close>

definition cut_into :: "string \<Rightarrow> string list list \<Rightarrow> (int \<times> cell list list) res \<Rightarrow> bool" where
  "cut_into b gs r \<longleftrightarrow>
     (if fits gs then \<exists>p. r = Inr (int (length gs - 1), p) \<and> table b (butlast gs) (last gs) p else r = Inl Out_of_bounds)"

lemma split_loop_segments:
  assumes "got q (ws @ us)" and "table (buf q) hs g p" and "length hs + length us < 50"
  shows "cut_into (buf q) (hs @ (g @ hd (segments us)) # tl (segments us))
    (split_loop (buf q) (arg q) (length us) (length ws) (length hs) (length g) p)"
  using assms
proof (induction us arbitrary: ws hs g p)
  case Nil
  then have "fits (hs @ [g])" by (auto simp: fits_def table_def closed_def open_end_def in_set_conv_nth)
  with Nil show ?case by (simp add: cut_into_def)
next
  case (Cons w us)
  let ?run = "\<lambda>(us :: string list) n (hs :: string list list) (g :: string list) p. split_loop (buf q) (arg q) (length us) n (length hs) (length g) p"
  have at: "string_at (buf q) (arg q) (length ws) = Inr w" using got_string [OF got_read_in [OF Cons.prems(1)], of "length ws"] by simp
  have full: "length p \<le> length hs \<or> length (p ! length hs) \<le> length g \<longleftrightarrow> 20 \<le> length g"
    using Cons.prems(2) by (auto simp: table_def open_end_def cells_def)
  have got: "got q ((ws @ [w]) @ us)" using Cons.prems(1) by simp
  show ?case
  proof (cases "20 \<le> length g")
    case True
    with at full have "?run (w # us) (length ws) hs g p = Inl Out_of_bounds" by simp
    with True too_long [of g hs us] too_long' [of g hs w "hd (segments us)" "tl (segments us)"] show ?thesis by (simp add: cut_into_def)
  next
    case False
    show ?thesis
    proof (cases "w = ''|''")
      case True
      let ?p = "p[length hs := (p ! length hs)[length g := Null]]"
      have "?run (w # us) (length ws) hs g p = ?run us (length (ws @ [w])) (hs @ [g]) [] ?p"
        using at full False True by simp
      moreover have "table (buf q) (hs @ [g]) [] ?p" using Cons.prems(2,3) False by (intro table_close) simp_all
      from Cons.IH [OF got this] have "cut_into (buf q) (hs @ g # segments us) (?run us (length (ws @ [w])) (hs @ [g]) [] ?p)"
        using Cons.prems(3) by simp
      moreover have "segments (w # us) = [] # segments us" using True by simp
      ultimately show ?thesis by (simp only: list.sel append_Nil2)
    next
      case bar: False
      from Cons.prems(1) obtain r where "args_ok (buf q) r (arg q) (ws @ w # us)" by (auto simp: got_def)
      moreover have "length ws < length (ws @ w # us)" "(ws @ w # us) ! length ws = w" by simp_all
      ultimately obtain x where x: "arg q ! length ws = Ptr x" "cstr (buf q) x = w" unfolding args_ok_def by metis
      let ?p = "p[length hs := (p ! length hs)[length g := Ptr x]]"
      have "?run (w # us) (length ws) hs g p = ?run us (length (ws @ [w])) hs (g @ [w]) ?p"
        using at full False bar x by simp
      moreover have "table (buf q) hs (g @ [w]) ?p" using Cons.prems(2) False x by (intro table_add) simp_all
      from Cons.IH [OF got this] have "cut_into (buf q) (hs @ (g @ w # hd (segments us)) # tl (segments us)) (?run us (length (ws @ [w])) hs (g @ [w]) ?p)"
        using Cons.prems(3) by simp
      moreover have "segments (w # us) = (w # hd (segments us)) # tl (segments us)" using bar by simp
      ultimately show ?thesis by (simp only: list.sel)
    qed
  qed
qed

text \<open>All arguments.\<close>

lemma split_loop_cut:
  assumes "got q ws" and "length ws < 50"
  shows "cut_into (buf q) (segments ws) (split_loop (buf q) (arg q) (length ws) 0 0 0 (replicate 50 (replicate 20 Uninit)))"
  using split_loop_segments [of q "[]" ws, OF _ table_start] assms by simp

subsection \<open>What the rounds of the loop would run\<close>

lemma cells_string: "cells b g r \<Longrightarrow> j < length g \<Longrightarrow> length g \<le> 20 \<Longrightarrow> string_at b r j = Inr (g ! j)"
  by (auto simp: cells_def string_at_def)

lemma piped_child_closed:
  assumes "table b hs g p" and "k < length hs" and "hs ! k \<noteq> []"
  shows "piped_child os b p yespipes (int k) = Inr [Piped (hs ! k)
    (if k = 0 then [(row_address os 1, 1)]
     else if int k = yespipes then [(row_address os 0, 0)] else [(row_address os 1, 1), (row_address os 0, 0)])]"
proof -
  from assms(1,2) have row: "cells b (hs ! k) (p ! k)" "length (hs ! k) < 20" "p ! k ! length (hs ! k) = Null" and "k < length p"
    by (simp_all add: table_def closed_def)
  then have "argv_of b (p ! k) = Inr (hs ! k)" by (intro argv_of_eq) (auto simp: cells_def)
  moreover have "string_at b (p ! k) 0 = Inr (hs ! k ! 0)" using row assms(3) by (intro cells_string) auto
  ultimately show ?thesis using \<open>k < length p\<close> by (simp add: piped_child_def Let_def)
qed

text \<open>The last command has no null pointer after its arguments.\<close>

lemma piped_child_last:
  assumes "table b hs g p" and "g \<noteq> []" and "length g < 20"
  shows "piped_child os b p yespipes (int (length hs)) = Inl Uninitialised"
proof -
  from assms(1,3) have row: "cells b g (p ! length hs)" "p ! length hs ! length g = Uninit" and "length hs < length p"
    by (simp_all add: table_def open_end_def)
  then have "argv_of b (p ! length hs) = Inl Uninitialised"
    using assms(3) by (intro argv_of_uninit [of g]) (auto simp: cells_def)
  moreover have "string_at b (p ! length hs) 0 = Inr (g ! 0)" using row assms(2,3) by (intro cells_string) auto
  ultimately show ?thesis using \<open>length hs < length p\<close> by (simp add: piped_child_def Let_def)
qed

subsection \<open>The property\<close>

lemma do_parsed_pipeline:
  assumes "got q ws" and "3 \<le> length ws" and "''|'' \<in> set (butlast ws)"
  shows "do_parsed os q (max 2 (length ws)) = do_pipes os q (length ws)"
proof -
  have "take (max 2 (length ws) - 1) ws = butlast ws" using assms(2) by (simp add: butlast_conv_take)
  moreover have "ws \<noteq> []" "max 2 (length ws) = length ws" using assms(2) by auto
  ultimately show ?thesis using got_find [OF got_read_in [OF assms(1)], of "[''|'']"] assms(2,3) by (auto simp: do_parsed_def)
qed

text \<open>C38: pipelines.  The arguments are cut at `|` into the table of commands, which overruns when a command has more than 19 words (20 in the
  last).  Then the shell uses `pid`, which is not set, since the loop that would start the processes never runs.  What its rounds would run: command
  `k` with its words as arguments and the addresses of the pipes' descriptors as descriptors, but of the last
  command, whose arguments have no null pointer at the end, what was never written.\<close>

theorem shell_pipeline:
  assumes "program_line l" and "3 \<le> length (words l)" and "''|'' \<in> set (butlast (words l))" and gs: "segments (words l) = gs @ [g]"
  shows "shell_round os (Some l) s = Inl (if fits (gs @ [g]) then Uninitialised else Out_of_bounds) \<and>
    (fits (gs @ [g]) \<longrightarrow>
      (\<exists>q p. line_args l = Inr q \<and>
        split_loop (buf q) (arg q) (length (words l)) 0 0 0 (replicate 50 (replicate 20 Uninit)) = Inr (int (length gs), p) \<and>
        fork_loop os (buf q) p (int (length gs)) (int (length gs)) None = Inr ([], None) \<and>
        (\<forall>k < length gs. gs ! k \<noteq> [] \<longrightarrow> piped_child os (buf q) p (int (length gs)) (int k) =
          Inr [Piped (gs ! k) ((row_address os 1, 1) # (if k = 0 then [] else [(row_address os 0, 0)]))]) \<and>
        (g \<noteq> [] \<and> length g < 20 \<longrightarrow> piped_child os (buf q) p (int (length gs)) (int (length gs)) = Inl Uninitialised)))"
proof -
  let ?start = "replicate 50 (replicate 20 Uninit)"
  from program_line_runs [OF assms(1)] obtain q where line: "line_args l = Inr q" and got: "got q (words l)"
    and run: "shell_round os (Some l) s = bind (do_parsed os q (max 2 (length (words l)))) (\<lambda>ev. Inr (Prompt (getcwd os) # ev, typed os l s, True))"
    by blast
  have len: "length (words l) < 50" using assms(1) by (simp add: program_line_def ARGS_def)
  note pipes = run [unfolded do_parsed_pipeline [OF got assms(2,3)] do_pipes_def]
  note cut = split_loop_cut [OF got len, unfolded gs cut_into_def]
  show ?thesis
  proof (cases "fits (gs @ [g])")
    case True
    with cut obtain p where p: "split_loop (buf q) (arg q) (length (words l)) 0 0 0 ?start = Inr (int (length gs), p)" "table (buf q) gs g p" by auto
    have loop: "fork_loop os (buf q) p (int (length gs)) (int (length gs)) None = Inr ([], None)" by (simp add: fork_loop.simps)
    have "shell_round os (Some l) s = Inl Uninitialised" using pipes p(1) loop by (simp add: init_def)
    moreover have "piped_child os (buf q) p (int (length gs)) (int k) =
        Inr [Piped (gs ! k) ((row_address os 1, 1) # (if k = 0 then [] else [(row_address os 0, 0)]))]" if "k < length gs" "gs ! k \<noteq> []" for k
      using piped_child_closed [OF p(2) that] that(1) by simp
    ultimately show ?thesis using True line p(1) loop piped_child_last [OF p(2)] by auto
  next
    case False
    with pipes cut show ?thesis by simp
  qed
qed

lemma shell_pipeline_witness:
  "shell_round demo_os (Some ''ls2 | wc'') demo_shell = Inl Uninitialised \<and>
    (\<exists>q p. line_args ''ls2 | wc'' = Inr q \<and> piped_child demo_os (buf q) p 1 0 = Inr [Piped [''ls2''] [(4104, 1)]] \<and>
      piped_child demo_os (buf q) p 1 1 = Inl Uninitialised)"
proof -
  have "fits ([[''ls2'']] @ [[''wc'']])" by (simp add: fits_def)
  with shell_pipeline [OF demo_lines(10), of "[[''ls2'']]" "[''wc'']" demo_os demo_shell]
  show ?thesis by (auto simp: demo_lines(9)) (force simp: demo_os_def)
qed

end
