(* ===== verification/Spec2Isabelle.thy ===== *)
theory Spec2Isabelle
  imports Mlfq_Main Sig_Main Records_Runs Tickets_Lossy Fcopy_Failures Shell_Pipes
begin

text \<open>
  A verification development for a collection of operating-system programs: two versions of the
  Pintos thread module (`src/Pintos`), a record server with its clients (`src/Querying and updation`), a ticket
  server with its client (`src/Multithread_server_client`), a file copy through pipes (`src/Copy_using _pipes`)
  and a command interpreter (`src/Command_interrupter`).  The programs do not call one another; each has its own
  theories, over a shared prelude.

  \<^bold>\<open>Conventions.\<close>  A C function that can fail returns `fault + 'a`: a failed ASSERT is `Panic`, undefined behaviour one of
  `Null_deref`, `Bad_deref`, `Out_of_bounds`, `Signed_overflow`, `Uninitialised`, and `Out_of_fuel` means that a loop or
  recursion was not given enough rounds.  What the system answers to a call is an argument of the definition.  State is a record passed through.  Words keep their C width where
  wrap-around matters.  Concurrency is an inductive step relation with explicit steps.  `Prelude` holds these types,
  the rules for sequencing (`bind`, `ASSERT`, `deref`, and `ok F m Q`: `m` returns something that satisfies Q or fails with a fault
  of F), the fuelled list traversal `for_each` and the locale `transition_system`, which each step
  relation interprets with its invariant.

  \<^bold>\<open>Scheduler\<close> (`Pintos/Scheduler_changes/thread.c`, `thread.h`).  `Threads_Base` has what both thread modules share,
  `Pintos_Lib` the locales for the services of Pintos that are not in the repository (intrusive lists, interrupt
  levels, page allocation, malloc) with their documented laws and one instance.  `Mlfq` translates every function of the file, in its
  order: state `kernel` (the static variables, a heap of `thread` records by page), `thread_tick` split as the code is into
  counting, aging the low queue and preemption, and the switch `schedule`.  `Mlfq_Inv` states the invariant, `Mlfq_Spec` an abstract
  two-queue scheduler, `Mlfq_Safe` and `Mlfq_Props` prove that each operation keeps the invariant, does not fault
  and refines the abstract one; `Mlfq_Sim` puts this together into a simulation of whole runs, from which `Mlfq_Wait` bounds the wait in
  the low queue.  `Mlfq_Main`: boot, invariant,
  refinement of tick, yield, block, unblock, exit and create and of every run from boot, strict priority, the length of a slice, bounded wait, and exactly when
  the calls panic.

  \<^bold>\<open>Signals\<close> (`Pintos/Added_Signals/signal.c`, `thread.c`, and headers).  `Sigset` has the bit routines and set functions on
  8-bit words; `Sig` the threads, `Signal`, `kill`, `sigprocmask`, `handleSignals` and the thread
  functions.  Delivery happens in `thread_schedule_tail`, a handler may call `thread_exit`, which switches again: the recursion
  has the fuel `k`, the list loops the fuel `n`; `enough_fuel` asks for as many nested deaths as there are threads, and
  as many rounds as the lists are long, and the theorems show that this suffices.  `Sig_Inv` is the invariant; `Sig_Queue`,
  `Sig_Deliver`, `Sig_Exit`, `Sig_Switch` treat the queue of signals, one pass of delivery, the family loop of
  `thread_exit` and the mutual recursion; `Sig_Safe`, `Sig_Boot`, `Sig_Step` and `Sig_Cases` the whole operations.  Through the switch goes, for an arbitrary thread id, the statement
  `doom` that its live bearer has a SIG_KILL queued; `Sig_Doom` shows that every step keeps it and never leaves that thread running.  `Sig_Main`: masks
  and actions (and the set functions), what `kill` queues, that a thread sent SIG_KILL never runs again, the invariant along every run, what one delivery takes, that yield, block and exit
  end, which faults are possible, round robin, orphans and SIG_CHLD at exit, creation, boot, and a use after free.

  \<^bold>\<open>Records\<close> (`X.c`, `Y.c`, `clean.c`).  `Libc_Text` models the conversions of `scanf` and `printf` used; `Records` the shared
  segment as a list of 101 records with checked bounds, X's loading and rewriting, Y's menu.  The C type float is a type
  parameter with its two conversions.  `Records_Main`: loading what was printed, the lost last line, search, and the update that runs
  off the segment.  `Records_System` runs X, from the moment it has made the segment, and any number of clients together, over the shared segment, the file
  and the semaphore: its invariant has the phases of loading, before and after the first update.  `Records_Runs`: while every client has found the semaphore, no update
  ever reaches the file; a client that started before the semaphore was made updates without a lock, and its update does.  The loops of Y have fuel: 102 rounds are enough, since the segment has 101 entries.

  \<^bold>\<open>Tickets\<close> (`A.c`, `B.c`).  `Tickets` has one step function for the client, the server's main thread and a booking
  thread, each step with at most one access to shared data; `Tickets_Inv` the invariants of the ring, the two locks, the count and the wait;
  `Tickets_Linear` the sequential specification `book_all` and the order in which the interleaved threads realise it; `Tickets_Live` a measure of the
  work left and what is true when no step is possible.  `Tickets_Main`: bounds, order of requests, mutual exclusion, linearisation, that every
  request is served in a bounded number of steps without deadlock, and that the client stops after the server.  The invariants carry the number of
  requests whose thread could not be started, 0 in all these; `Tickets_Lossy` lets `pthread_create` fail: what still holds, and after how many failures the server stops.

  \<^bold>\<open>Copy\<close> (`fcopy.c`).  `Fcopy`: parent and child as steps of one system call each, and that in every interleaving the copy ends, equal
  to the source.  `Fcopy_Failures`: the same steps when reads fail or are short, writes to the destination are short, or there is no child: the copy still ends within
  its buffers, with bytes of the source in order, but a failure can go unreported.

  \<^bold>\<open>Shell\<close> (`shell.c`, `run.c`).  `Shell_Text` has the copied line as a character buffer and `strtok_r` on offsets, with the
  specification `words`; `Shell` one round of the loop of `main`, branch by branch, with the answers of the operating system as an
  argument and the list of what the shell does as the result; `Shell_Args` relates the argument array to the words; `Shell_Main`: what a
  line runs, whole sessions, where the shell itself fails, `cp` and the other built-in commands.  `Shell_Pipes`: how a pipeline is cut into commands, that the loop which should start
  them never does, and what its body would start.

  \<^bold>\<open>Not modelled.\<close>  The services of Pintos outside these files and the assembly of `switch_threads` (parameters, or the change of the
  running thread); failures of `semget` and `semctl` where a program makes its semaphores, of `shmat`, `malloc` and `pipe`, which the programs do not look at and after which
  nothing of what they are for works; sleeping; time stamps and links of files; build files.
\<close>

end
